(* ===== verification/Xvc_Prelude.thy ===== *)
theory Xvc_Prelude
  imports Main "HOL-Library.Word"
begin

unbundle bit_operations_syntax

text \<open>
  Shared material of the development: machine bytes, C undefined behaviour and aborts as
  values of a sum type, bounded reads and writes on an allocated block of memory, C strings
  inside a block, and the decimal and hexadecimal printing of the \<open>printf\<close> family.

  An allocated block is a \<open>byte list\<close> and a pointer into it is an offset (a \<open>nat\<close>). Every
  access is checked: a read or write outside of the block is the value \<open>Inl Out_of_bounds\<close>,
  so a theorem that an operation returns \<open>Inr\<close> is a memory safety theorem.
\<close>

section \<open>Bytes, faults and results\<close>

type_synonym byte = "8 word"

text \<open>What stops a C program other than a return: undefined behaviour or \<open>abort()\<close>.\<close>

datatype fault =
    Out_of_bounds      \<comment> \<open>access outside of an allocated block\<close>
  | Shift_too_wide     \<comment> \<open>a shift by at least the width of the type\<close>
  | Pointer_wrap       \<comment> \<open>pointer arithmetic that leaves the address space\<close>
  | Assert_failed      \<comment> \<open>\<open>assert(0)\<close>\<close>
  | Null_call          \<comment> \<open>a call through a null function pointer\<close>
  | Exit int           \<comment> \<open>\<open>exit(status)\<close>\<close>
  | Int_overflow       \<comment> \<open>signed integer overflow\<close>
  | Hang               \<comment> \<open>a loop that never ends\<close>

type_synonym 'a res = "fault + 'a"

definition and_then :: "'a res \<Rightarrow> ('a \<Rightarrow> 'b res) \<Rightarrow> 'b res" where
  "and_then m f = (case m of Inl e \<Rightarrow> Inl e | Inr x \<Rightarrow> f x)"

named_theorems res_simps \<comment> \<open>results of a sequence of fallible operations\<close>
named_theorems frame_dests \<comment> \<open>fields an operation leaves alone\<close>
named_theorems wf_intros \<comment> \<open>operations keep the well-formedness invariants\<close>
named_theorems length_dests \<comment> \<open>lengths of blocks after an operation\<close>

lemma and_then_simps [simp]:
  "and_then (Inl e) f = Inl e"
  "and_then (Inr x) f = f x"
  by (simp_all add: and_then_def)

lemma and_then_eq_Inr [res_simps]:
  "and_then m f = Inr y \<longleftrightarrow> (\<exists>x. m = Inr x \<and> f x = Inr y)"
  by (cases m) auto

lemma and_then_eq_Inl [res_simps]:
  "and_then m f = Inl e \<longleftrightarrow> m = Inl e \<or> (\<exists>x. m = Inr x \<and> f x = Inl e)"
  by (cases m) auto

lemma and_then_cong [fundef_cong]:
  "m = m' \<Longrightarrow> (\<And>x. m' = Inr x \<Longrightarrow> f x = g x) \<Longrightarrow> and_then m f = and_then m' g"
  by (cases m') auto

lemma and_then_assoc: "and_then (and_then m f) g = and_then m (\<lambda>x. and_then (f x) g)"
  by (cases m) auto

definition ensure :: "bool \<Rightarrow> fault \<Rightarrow> unit res" where
  "ensure b e = (if b then Inr () else Inl e)"

lemma ensure_eq_Inr [res_simps]: "ensure b e = Inr u \<longleftrightarrow> b"
  by (simp add: ensure_def)

lemma ensure_eq_Inl [res_simps]: "ensure b e = Inl e' \<longleftrightarrow> \<not> b \<and> e' = e"
  by (auto simp: ensure_def)

lemma ensure_True [simp]: "ensure True e = Inr ()"
  by (simp add: ensure_def)

section \<open>Blocks of memory\<close>

definition read_at :: "byte list \<Rightarrow> nat \<Rightarrow> byte res" where
  "read_at xs i = (if i < length xs then Inr (xs ! i) else Inl Out_of_bounds)"

text \<open>\<open>memcpy\<close> out of a block; copying no bytes touches no memory.\<close>

definition read_range :: "byte list \<Rightarrow> nat \<Rightarrow> nat \<Rightarrow> byte list res" where
  "read_range xs off n =
     (if n = 0 \<or> off + n \<le> length xs then Inr (take n (drop off xs)) else Inl Out_of_bounds)"

text \<open>\<open>memcpy\<close>, \<open>memset\<close> or a store into a block.\<close>

definition write_at :: "byte list \<Rightarrow> nat \<Rightarrow> byte list \<Rightarrow> byte list res" where
  "write_at xs off ys =
     (if ys = [] \<or> off + length ys \<le> length xs
      then Inr (take off xs @ ys @ drop (off + length ys) xs)
      else Inl Out_of_bounds)"

lemma read_at_eq_Inr [res_simps]: "read_at xs i = Inr b \<longleftrightarrow> i < length xs \<and> b = xs ! i"
  by (auto simp: read_at_def)

lemma read_at_ok [simp]: "i < length xs \<Longrightarrow> read_at xs i = Inr (xs ! i)"
  by (simp add: read_at_def)

lemma read_range_ok: "off + n \<le> length xs \<Longrightarrow> read_range xs off n = Inr (take n (drop off xs))"
  by (simp add: read_range_def)

lemma read_range_eq_Inr [res_simps]:
  "read_range xs off n = Inr ys \<longleftrightarrow>
     (n = 0 \<or> off + n \<le> length xs) \<and> ys = take n (drop off xs)"
  by (auto simp: read_range_def)

lemma length_read_range [length_dests]: "read_range xs off n = Inr ys \<Longrightarrow> length ys = n"
  by (auto simp: res_simps)

lemma write_at_ok:
  "off + length ys \<le> length xs \<Longrightarrow>
   write_at xs off ys = Inr (take off xs @ ys @ drop (off + length ys) xs)"
  by (simp add: write_at_def)

lemma write_at_Nil [simp]: "write_at xs off [] = Inr xs"
  by (simp add: write_at_def)

lemma write_at_eq_Inl [res_simps]:
  "write_at xs off ys = Inl e \<longleftrightarrow> ys \<noteq> [] \<and> length xs < off + length ys \<and> e = Out_of_bounds"
  by (auto simp: write_at_def)

lemma length_write_at [length_dests]: "write_at xs off ys = Inr zs \<Longrightarrow> length zs = length xs"
  by (auto simp: write_at_def split: if_splits)

lemma write_at_nth:
  assumes "write_at xs off ys = Inr zs" "i < length xs"
  shows "zs ! i = (if off \<le> i \<and> i < off + length ys then ys ! (i - off) else xs ! i)"
  using assms by (auto simp: write_at_def nth_append split: if_splits)

lemma take_write_at:
  "write_at xs off ys = Inr zs \<Longrightarrow> n \<le> off \<Longrightarrow> take n zs = take n xs"
  by (auto simp: write_at_def split: if_splits)

lemma read_write_same:
  assumes "write_at xs off ys = Inr zs"
  shows "read_range zs off (length ys) = Inr ys"
  using assms by (auto simp: write_at_def read_range_def split: if_splits)

lemma read_write_other:
  assumes "write_at xs off ys = Inr zs" "o' + n \<le> off \<or> off + length ys \<le> o'"
  shows "read_range zs o' n = read_range xs o' n"
proof (cases "n = 0 \<or> length xs < o' + n")
  case True
  then show ?thesis using length_write_at [OF assms(1)] by (auto simp: read_range_def)
next
  case False
  have "take n (drop o' zs) = take n (drop o' xs)"
    using False assms(2) length_write_at [OF assms(1)]
    by (auto intro!: nth_equalityI simp: write_at_nth [OF assms(1)])
  with False show ?thesis using length_write_at [OF assms(1)] by (simp add: read_range_def)
qed

text \<open>A block holds \<open>bs\<close> from \<open>p\<close> on.\<close>

definition bytes_at :: "byte list \<Rightarrow> nat \<Rightarrow> byte list \<Rightarrow> bool" where
  "bytes_at buf p bs \<longleftrightarrow> p + length bs \<le> length buf \<and> take (length bs) (drop p buf) = bs"

lemma bytes_at_append:
  "bytes_at buf p (xs @ ys) \<longleftrightarrow> bytes_at buf p xs \<and> bytes_at buf (p + length xs) ys"
proof -
  have "take (length xs + length ys) (drop p buf) =
      take (length xs) (drop p buf) @ take (length ys) (drop (p + length xs) buf)"
    by (simp add: take_add add.commute)
  then show ?thesis by (auto simp: bytes_at_def)
qed

lemma bytes_at_nth: "bytes_at buf p bs \<Longrightarrow> i < length bs \<Longrightarrow> buf ! (p + i) = bs ! i"
proof -
  assume b: "bytes_at buf p bs" "i < length bs"
  then have "take (length bs) (drop p buf) ! i = bs ! i" "p + i < length buf" by (auto simp: bytes_at_def)
  with b(2) show ?thesis by simp
qed

lemma bytes_at_written: "write_at xs p ys = Inr zs \<Longrightarrow> ys \<noteq> [] \<Longrightarrow> bytes_at zs p ys"
  using read_write_same [of xs p ys zs] by (auto simp: bytes_at_def read_range_def split: if_split_asm)

lemma bytes_at_other:
  assumes "write_at xs p ys = Inr zs" "q + length bs \<le> p \<or> p + length ys \<le> q"
  shows "bytes_at zs q bs \<longleftrightarrow> bytes_at xs q bs"
  using read_write_other [OF assms] length_write_at [OF assms(1)]
  by (auto simp: bytes_at_def read_range_def split: if_split_asm)

lemma read_range_bytes: "bytes_at xs p bs \<Longrightarrow> read_range xs p (length bs) = Inr bs"
  by (simp add: bytes_at_def read_range_def)

section \<open>C strings\<close>

definition bytes_of :: "string \<Rightarrow> byte list" where
  "bytes_of s = map of_char s"

text \<open>The content of a C string at the start of a list of bytes.\<close>

definition cstring :: "byte list \<Rightarrow> byte list" where
  "cstring bs = takeWhile (\<lambda>b. b \<noteq> 0) bs"

lemma cstring_no_nul: "0 \<notin> set (cstring bs)"
  by (auto simp: cstring_def dest: set_takeWhileD)

lemma length_bytes_of [simp]: "length (bytes_of s) = length s"
  by (simp add: bytes_of_def)

lemma bytes_of_append [simp]: "bytes_of (s @ t) = bytes_of s @ bytes_of t"
  by (simp add: bytes_of_def)

section \<open>Numbers as \<open>printf\<close> writes them\<close>

definition digit_byte :: "nat \<Rightarrow> byte" where
  "digit_byte d = word_of_nat (if d < 10 then 48 + d else 55 + d)"

fun digits_in :: "nat \<Rightarrow> nat \<Rightarrow> byte list" where
  "digits_in base n =
     (if base < 2 \<or> n < base then [digit_byte n]
      else digits_in base (n div base) @ [digit_byte (n mod base)])"

declare digits_in.simps [simp del]

definition fmt_u :: "nat \<Rightarrow> byte list" where \<comment> \<open>\<open>%u\<close>, \<open>%lu\<close>\<close>
  "fmt_u n = digits_in 10 n"

definition fmt_08X :: "nat \<Rightarrow> byte list" where \<comment> \<open>\<open>%08lX\<close>\<close>
  "fmt_08X n = (let ds = digits_in 16 n in replicate (8 - length ds) 48 @ ds)"

definition fmt_d :: "int \<Rightarrow> byte list" where \<comment> \<open>\<open>%d\<close>\<close>
  "fmt_d i = (if i < 0 then 45 # fmt_u (nat (- i)) else fmt_u (nat i))"

lemma digit_byte_nonzero: "d < 16 \<Longrightarrow> digit_byte d \<noteq> 0"
proof -
  assume "d < 16"
  then have "d \<in> set [0..<16]" by simp
  moreover have "\<forall>d \<in> set [0..<16]. digit_byte d \<noteq> 0" by (simp add: digit_byte_def upt_rec)
  ultimately show ?thesis by blast
qed

lemma digits_in_no_nul: "2 \<le> base \<Longrightarrow> base \<le> 16 \<Longrightarrow> 0 \<notin> set (digits_in base n)"
proof (induction base n rule: digits_in.induct)
  case (1 base n)
  show ?case
  proof (cases "n < base")
    case True
    then have "digit_byte n \<noteq> 0" using "1.prems" by (intro digit_byte_nonzero) simp
    with True "1.prems" show ?thesis by (simp add: digits_in.simps [of base n])
  next
    case False
    have "n mod base < base" using "1.prems" by simp
    then have "n mod base < 16" using "1.prems" by linarith
    then have "digit_byte (n mod base) \<noteq> 0" by (rule digit_byte_nonzero)
    with False "1.IH" "1.prems" show ?thesis by (simp add: digits_in.simps [of base n])
  qed
qed

lemma fmt_u_no_nul [simp]: "0 \<notin> set (fmt_u n)"
  by (simp add: fmt_u_def digits_in_no_nul)

lemma fmt_08X_no_nul [simp]: "0 \<notin> set (fmt_08X n)"
  by (simp add: fmt_08X_def Let_def digits_in_no_nul)

text \<open>Values the C code keeps in an \<open>unsigned\<close> wrap at 32 bits.\<close>

definition u32 :: "nat \<Rightarrow> nat" where
  "u32 n = n mod 2 ^ 32"

lemma u32_id [simp]: "n < 2 ^ 32 \<Longrightarrow> u32 n = n"
  by (simp add: u32_def)

lemma unat_word_of_nat: "n < 2 ^ LENGTH('a) \<Longrightarrow> unat (word_of_nat n :: 'a::len word) = n"
  by (simp add: unat_of_nat)

lemma unat_word_of_nat_32: "n < 2 ^ 32 \<Longrightarrow> unat (word_of_nat n :: 32 word) = n"
  by (rule unat_word_of_nat) simp

lemma unat_word_of_nat_64: "n < 2 ^ 64 \<Longrightarrow> unat (word_of_nat n :: 64 word) = n"
  by (rule unat_word_of_nat) simp

end
