(* ===== verification/Leb_Codec.thy ===== *)
theory Leb_Codec
  imports Xvc_Prelude
begin

unbundle bit_operations_syntax

text \<open>
  The number formats of the protocol (\<open>mem/versal/src/xvcserver.c\<close>, repeated in
  \<open>dpc/src/xvcserver.c\<close>): ULEB128 in \<open>get_uleb128\<close>, little-endian integers in
  \<open>get_uint_le\<close> and \<open>set_uint_le\<close>. The pointer pair \<open>(p, bufend)\<close> of the source is
  a pair of offsets into the client's block \<open>buf\<close>.
\<close>

section \<open>ULEB128 input\<close>

text \<open>
  One iteration reads a byte, or 0 at or after \<open>bufend\<close> (and still advances \<open>p\<close>), and ors its
  low seven bits in at bit \<open>i\<close>. A shift of the 64-bit value by 64 or more is undefined.
\<close>

function get_uleb128_loop :: "byte list \<Rightarrow> nat \<Rightarrow> nat \<Rightarrow> 64 word \<Rightarrow> nat \<Rightarrow> (64 word \<times> nat) res" where
  "get_uleb128_loop buf bufend p value i =
     and_then (if p < bufend then read_at buf p else Inr 0) (\<lambda>b.
     and_then (ensure (i < 64) Shift_too_wide) (\<lambda>_.
       let n = ucast b :: 64 word;
           value' = value OR push_bit i (n AND 0x7f)
       in if n AND 0x80 \<noteq> 0 then get_uleb128_loop buf bufend (p + 1) value' (i + 7)
          else Inr (value', p + 1)))"
  by pat_completeness auto
termination
  by (relation "measure (\<lambda>(buf, bufend, p, value, i). bufend - p)")
     (auto simp: res_simps split: if_splits)

declare get_uleb128_loop.simps [simp del]

definition get_uleb128 :: "byte list \<Rightarrow> nat \<Rightarrow> nat \<Rightarrow> (64 word \<times> nat) res" where
  "get_uleb128 buf bufend p = get_uleb128_loop buf bufend p 0 0"

text \<open>The bytes of a number, seven bits at a time: the specification of the format.\<close>

function uleb_bytes :: "64 word \<Rightarrow> byte list" where
  "uleb_bytes v =
     (if drop_bit 7 v = 0 then [ucast v AND 0x7f]
      else ((ucast v AND 0x7f) OR 0x80) # uleb_bytes (drop_bit 7 v))"
  by pat_completeness auto
lemma drop_bit_7_less: "drop_bit 7 v \<noteq> 0 \<Longrightarrow> unat (drop_bit 7 v) < unat (v :: 'a::len word)"
proof -
  assume nz: "drop_bit 7 v \<noteq> 0"
  have d: "unat (drop_bit 7 v) = unat v div 128"
    using unat_drop_bit_eq [of 7 v] by (simp only: drop_bit_eq_div) simp
  with nz have "unat v \<noteq> 0" by (metis div_0 unat_eq_zero)
  then show ?thesis unfolding d by simp
qed
termination uleb_bytes
  by (relation "measure unat") (simp_all add: drop_bit_7_less)

declare uleb_bytes.simps [simp del]

lemma uleb_bytes_nonempty [simp]: "uleb_bytes v \<noteq> []"
  by (subst uleb_bytes.simps) simp

lemma bit_0x7f: "bit (0x7f :: 'a::len word) k \<longleftrightarrow> k < 7 \<and> k < LENGTH('a)"
proof -
  have "(0x7f :: 'a word) = mask 7" by (simp add: mask_eq_exp_minus_1)
  then show ?thesis by (simp only: bit_mask_iff) auto
qed

lemma bit_0x80: "bit (0x80 :: 'a::len word) k \<longleftrightarrow> k = 7 \<and> k < LENGTH('a)"
proof -
  have "(0x80 :: 'a word) = push_bit 7 1" by simp
  then show ?thesis by (simp only: bit_push_bit_iff bit_1_iff) (auto simp: not_le)
qed

lemma bit_0x7f_int: "bit (0x7f :: int) k \<longleftrightarrow> k < 7"
proof -
  have "(0x7f :: int) = mask 7" by (simp add: mask_eq_exp_minus_1)
  then show ?thesis by (simp only: bit_mask_iff) auto
qed

lemma bit_0x80_int: "bit (0x80 :: int) k \<longleftrightarrow> k = 7"
proof -
  have "(0x80 :: int) = push_bit 7 1" by simp
  then show ?thesis by (simp only: bit_push_bit_iff bit_1_iff) auto
qed

lemmas septet_bits = bit_0x7f bit_0x80 bit_0x7f_int bit_0x80_int

lemma low7_of_word: "ucast (ucast v AND (0x7f :: byte)) AND (0x7f :: 64 word) = v AND 0x7f"
  and low7_of_word_cont:
    "ucast ((ucast v AND (0x7f :: byte)) OR 0x80) AND (0x7f :: 64 word) = v AND 0x7f"
  by (auto intro!: bit_word_eqI simp: bit_simps septet_bits)

lemma cont_bit_of_byte: "(ucast b :: 64 word) AND 0x80 \<noteq> 0 \<longleftrightarrow> bit (b :: byte) 7"
proof -
  have "(ucast b :: 64 word) AND 0x80 = (if bit b 7 then 0x80 else 0)"
    by (intro bit_word_eqI) (auto simp: bit_simps septet_bits)
  then show ?thesis by simp
qed

lemma cont_bit_clear: "\<not> bit (ucast v AND (0x7f :: byte)) 7"
  and cont_bit_set: "bit ((w :: byte) OR 0x80) 7"
  by (auto simp: bit_simps septet_bits)

lemma push_low7_rest:
  "push_bit i (v AND 0x7f) OR push_bit (i + 7) (drop_bit 7 v) = push_bit i (v :: 64 word)"
proof (intro bit_word_eqI)
  fix n assume n: "n < LENGTH(64)"
  have "7 + (n - (i + 7)) = n - i" if "i + 7 \<le> n" using that by simp
  with n show "bit (push_bit i (v AND 0x7f) OR push_bit (i + 7) (drop_bit 7 v)) n =
      bit (push_bit i v) n"
    by (cases "i + 7 \<le> n") (auto simp: bit_simps septet_bits not_le)
qed

lemma low7_when_small: "drop_bit 7 v = 0 \<Longrightarrow> v AND 0x7f = (v :: 64 word)"
  using push_low7_rest [of 0 v] by simp

text \<open>Decoding reads back what the format writes, wherever it stands in a block.\<close>

lemma get_uleb128_loop_bytes:
  assumes "i < 64" "drop_bit (64 - i) v = 0"
    and "p + length (uleb_bytes v) \<le> bufend" "bufend \<le> length buf"
    and "take (length (uleb_bytes v)) (drop p buf) = uleb_bytes v"
  shows "get_uleb128_loop buf bufend p acc i =
           Inr (acc OR push_bit i v, p + length (uleb_bytes v))"
  using assms
proof (induction v arbitrary: p acc i rule: uleb_bytes.induct)
  case (1 v)
  have len: "0 < length (uleb_bytes v)" by simp
  then have p: "p < bufend" "p < length buf" using "1.prems" by linarith+
  have bp: "buf ! p = hd (uleb_bytes v)"
    using len p "1.prems"(5) by (metis hd_drop_conv_nth hd_take)
  show ?case
  proof (cases "drop_bit 7 v = 0")
    case True
    then have u: "uleb_bytes v = [ucast v AND 0x7f]" by (subst uleb_bytes.simps) simp
    have c: "(ucast (buf ! p) :: 64 word) AND 0x80 = 0"
      using cont_bit_of_byte [of "buf ! p"] cont_bit_clear [of v] by (simp add: bp u)
    have w: "(ucast (buf ! p) :: 64 word) AND 0x7f = v"
      by (simp only: bp u list.sel low7_of_word low7_when_small [OF True])
    show ?thesis
      using p "1.prems"(1) c w u
      by (simp add: get_uleb128_loop.simps [of buf bufend p acc i] Let_def del: push_bit_and)
  next
    case False
    let ?r = "drop_bit 7 v"
    have u: "uleb_bytes v = ((ucast v AND 0x7f) OR 0x80) # uleb_bytes ?r"
      using False by (subst uleb_bytes.simps) simp
    have c: "(ucast (buf ! p) :: 64 word) AND 0x80 \<noteq> 0"
      by (simp only: cont_bit_of_byte bp u list.sel cont_bit_set)
    have w: "(ucast (buf ! p) :: 64 word) AND 0x7f = v AND 0x7f"
      by (simp only: bp u list.sel low7_of_word_cont)
    have i7: "i + 7 < 64"
    proof (rule ccontr)
      assume "\<not> i + 7 < 64"
      then have "7 = (64 - i) + (7 - (64 - i))" using "1.prems"(1) by simp
      then have "drop_bit 7 v = drop_bit (7 - (64 - i)) (drop_bit (64 - i) v)"
        by (metis add.commute drop_bit_drop_bit)
      with "1.prems"(2) False show False by simp
    qed
    have "64 - (i + 7) + 7 = 64 - i" using i7 by simp
    then have d: "drop_bit (64 - (i + 7)) ?r = 0"
      using "1.prems"(2) drop_bit_drop_bit [of "64 - (i + 7)" 7 v] by simp
    have tl: "take (length (uleb_bytes ?r)) (drop (p + 1) buf) = uleb_bytes ?r"
      using "1.prems"(5) u p(2) by (simp add: Cons_nth_drop_Suc [symmetric])
    have "get_uleb128_loop buf bufend (p + 1) (acc OR push_bit i (v AND 0x7f)) (i + 7) =
        Inr ((acc OR push_bit i (v AND 0x7f)) OR push_bit (i + 7) ?r,
             p + 1 + length (uleb_bytes ?r))"
      using "1.IH" [OF False i7 d _ _ tl] "1.prems"(3,4) u by simp
    then show ?thesis
      using p "1.prems"(1) c w u push_low7_rest [of i v]
      by (simp add: get_uleb128_loop.simps [of buf bufend p acc i] Let_def or.assoc del: push_bit_and)
  qed
qed

lemma get_uleb128_bytes:
  assumes "p + length (uleb_bytes v) \<le> bufend" "bufend \<le> length buf"
    and "take (length (uleb_bytes v)) (drop p buf) = uleb_bytes v"
  shows "get_uleb128 buf bufend p = Inr (v, p + length (uleb_bytes v))"
proof -
  have "drop_bit 64 v = 0" by (intro bit_word_eqI) (auto simp: bit_simps)
  with assms show ?thesis
    using get_uleb128_loop_bytes [of 0 v p bufend buf 0] by (simp add: get_uleb128_def)
qed

lemma get_uleb128_append:
  "get_uleb128 (pre @ uleb_bytes v @ post) (length pre + length (uleb_bytes v) + k) (length pre) =
     Inr (v, length pre + length (uleb_bytes v))" if "k \<le> length post"
  using that by (intro get_uleb128_bytes) auto

text \<open>
  The scan never reads outside of the block: whatever the bytes are, it stops at most one past
  \<open>bufend\<close>, after at most ten bytes, and the only thing that can go wrong is the shift.
\<close>

lemma get_uleb128_loop_bounds:
  "get_uleb128_loop buf bufend p acc i = Inr (v, p') \<Longrightarrow>
     p < p' \<and> p' \<le> max p bufend + 1 \<and> i + 7 * (p' - p) \<le> 70"
proof (induction buf bufend p acc i arbitrary: v p' rule: get_uleb128_loop.induct)
  case (1 buf bufend p acc i)
  from "1.prems" obtain b where
    b: "(if p < bufend then read_at buf p else Inr 0) = Inr b" and i: "i < 64"
    by (subst (asm) get_uleb128_loop.simps) (auto simp: res_simps)
  show ?case
  proof (cases "(ucast b :: 64 word) AND 0x80 = 0")
    case True
    with "1.prems" b i have "p' = p + 1"
      by (subst (asm) get_uleb128_loop.simps) (simp add: Let_def)
    then show ?thesis using i by simp
  next
    case False
    then have lt: "p < bufend" using b by (auto split: if_splits)
    have "get_uleb128_loop buf bufend (p + 1) (acc OR push_bit i (ucast b AND 0x7f)) (i + 7) =
        Inr (v, p')"
      using "1.prems" b i False by (subst (asm) get_uleb128_loop.simps) (simp add: Let_def)
    from "1.IH" [OF b _ refl refl False this] i
    have "p + 1 < p' \<and> p' \<le> max (p + 1) bufend + 1 \<and> i + 7 + 7 * (p' - (p + 1)) \<le> 70"
      by (simp add: ensure_def)
    then show ?thesis using lt by auto
  qed
qed

lemma get_uleb128_loop_fault:
  "get_uleb128_loop buf bufend p acc i = Inl e \<Longrightarrow> bufend \<le> length buf \<Longrightarrow> e = Shift_too_wide"
proof (induction buf bufend p acc i rule: get_uleb128_loop.induct)
  case (1 buf bufend p acc i)
  have r: "(if p < bufend then read_at buf p else Inr 0) \<noteq> Inl e'" for e'
    using "1.prems"(2) by auto
  from "1.prems"(1) show ?case
    by (subst (asm) get_uleb128_loop.simps)
       (auto simp: res_simps Let_def r intro: "1.IH" [OF _ _ refl refl] "1.prems"(2)
             split: if_splits)
qed

lemma get_uleb128_bounds:
  "get_uleb128 buf bufend p = Inr (v, p') \<Longrightarrow> p < p' \<and> p' \<le> max p bufend + 1 \<and> p' \<le> p + 10"
  using get_uleb128_loop_bounds [of buf bufend p 0 0 v p'] by (auto simp: get_uleb128_def)

lemma get_uleb128_fault:
  "get_uleb128 buf bufend p = Inl e \<Longrightarrow> bufend \<le> length buf \<Longrightarrow> e = Shift_too_wide"
  by (auto simp: get_uleb128_def dest: get_uleb128_loop_fault)

section \<open>Little-endian integers\<close>

text \<open>\<open>while (len-- > 0) value = (value << 8) | p[len]\<close> over \<open>unsigned\<close>.\<close>

primrec get_uint_le_loop :: "byte list \<Rightarrow> nat \<Rightarrow> nat \<Rightarrow> 32 word \<Rightarrow> 32 word res" where
  "get_uint_le_loop buf p 0 value = Inr value"
| "get_uint_le_loop buf p (Suc len) value =
     and_then (read_at buf (p + len)) (\<lambda>b.
       get_uint_le_loop buf p len (push_bit 8 value OR ucast b))"

definition get_uint_le :: "byte list \<Rightarrow> nat \<Rightarrow> nat \<Rightarrow> 32 word res" where
  "get_uint_le buf p len = get_uint_le_loop buf p len 0"

text \<open>\<open>while (len-- > 0) { *p++ = (unsigned char)value; value >>= 8; }\<close>\<close>

primrec set_uint_le :: "byte list \<Rightarrow> nat \<Rightarrow> nat \<Rightarrow> 32 word \<Rightarrow> byte list res" where
  "set_uint_le buf p 0 value = Inr buf"
| "set_uint_le buf p (Suc len) value =
     and_then (write_at buf p [ucast value]) (\<lambda>buf'.
       set_uint_le buf' (p + 1) len (drop_bit 8 value))"

definition le_bytes :: "nat \<Rightarrow> 32 word \<Rightarrow> byte list" where
  "le_bytes n v = map (\<lambda>k. ucast (drop_bit (8 * k) v)) [0..<n]"

lemma length_le_bytes [simp]: "length (le_bytes n v) = n"
  by (simp add: le_bytes_def)

lemma le_bytes_Suc: "le_bytes (Suc n) v = ucast v # le_bytes n (drop_bit 8 v)"
  by (simp add: le_bytes_def upt_conv_Cons map_Suc_upt [symmetric] drop_bit_drop_bit add.commute
      del: upt_Suc map_Suc_upt)

lemma set_uint_le_eq:
  "p + n \<le> length buf \<Longrightarrow>
   set_uint_le buf p n v = Inr (take p buf @ le_bytes n v @ drop (p + n) buf)"
proof (induction n arbitrary: buf p v)
  case 0
  then show ?case by (simp add: le_bytes_def)
next
  case (Suc n)
  let ?buf' = "take p buf @ [ucast v] @ drop (p + 1) buf"
  have "write_at buf p [ucast v] = Inr ?buf'" using Suc.prems by (simp add: write_at_ok)
  moreover have "set_uint_le ?buf' (p + 1) n (drop_bit 8 v) =
      Inr (take (p + 1) ?buf' @ le_bytes n (drop_bit 8 v) @ drop (p + 1 + n) ?buf')"
    using Suc.prems by (intro Suc.IH) simp
  ultimately show ?case using Suc.prems by (simp add: le_bytes_Suc drop_Cons' add.commute)
qed

lemma length_set_uint_le [length_dests]:
  "set_uint_le buf p n v = Inr buf' \<Longrightarrow> length buf' = length buf"
  by (induction n arbitrary: buf p v) (auto simp: res_simps dest!: length_write_at)

lemma get_uint_le_4:
  "p + 4 \<le> length buf \<Longrightarrow> get_uint_le buf p 4 =
     Inr (push_bit 24 (ucast (buf ! (p + 3))) OR push_bit 16 (ucast (buf ! (p + 2)))
          OR push_bit 8 (ucast (buf ! (p + 1))) OR ucast (buf ! p))"
  by (simp add: get_uint_le_def numeral_eq_Suc or.assoc [symmetric] push_bit_or)

lemma le_bytes_join:
  "push_bit 24 (ucast (ucast (drop_bit 24 v) :: byte)) OR push_bit 16 (ucast (ucast (drop_bit 16 v) :: byte))
     OR push_bit 8 (ucast (ucast (drop_bit 8 v) :: byte)) OR ucast (ucast v :: byte) = (v :: 32 word)"
proof (intro bit_word_eqI)
  fix n assume n: "n < LENGTH(32)"
  then consider "n < 8" | "8 \<le> n" "n < 16" | "16 \<le> n" "n < 24" | "24 \<le> n" by linarith
  then show "bit (push_bit 24 (ucast (ucast (drop_bit 24 v) :: byte))
       OR push_bit 16 (ucast (ucast (drop_bit 16 v) :: byte))
       OR push_bit 8 (ucast (ucast (drop_bit 8 v) :: byte)) OR ucast (ucast v :: byte) :: 32 word) n = bit v n"
    using n by cases (auto simp: bit_simps)
qed

text \<open>A 32-bit value written by \<open>set_uint_le\<close> is what \<open>get_uint_le\<close> reads.\<close>

lemma get_uint_le_bytes:
  assumes "p + 4 \<le> length buf" "take 4 (drop p buf) = le_bytes 4 v"
  shows "get_uint_le buf p 4 = Inr v"
proof -
  have nth: "buf ! (p + k) = ucast (drop_bit (8 * k) v)" if "k < 4" for k
  proof -
    have "buf ! (p + k) = take 4 (drop p buf) ! k" using assms(1) that by simp
    then show ?thesis using that by (simp add: assms(2) le_bytes_def)
  qed
  show ?thesis
    using assms(1) nth [of 0] nth [of 1] nth [of 2] nth [of 3] le_bytes_join [of v]
    by (simp add: get_uint_le_4)
qed

section \<open>Properties\<close>

text \<open>C18. Whatever bytes a client sends, \<open>get_uleb128\<close> reads only inside the received part of the
  buffer and consumes at least one and at most ten bytes (one may lie behind the received part,
  which is how the callers notice a cut number); or the number is too long and the shift of the
  64-bit value is undefined.\<close>

theorem uleb128_reads_in_bounds:
  assumes "bufend \<le> length buf"
  shows "(\<exists>v p'. get_uleb128 buf bufend p = Inr (v, p') \<and> p < p' \<and> p' \<le> max p bufend + 1 \<and> p' \<le> p + 10) \<or>
    get_uleb128 buf bufend p = Inl Shift_too_wide"
proof (cases "get_uleb128 buf bufend p")
  case (Inl e)
  with get_uleb128_fault [OF Inl assms] show ?thesis by simp
next
  case (Inr x)
  obtain v p' where "x = (v, p')" by (cases x)
  with Inr show ?thesis using get_uleb128_bounds [of buf bufend p v p'] by auto
qed

theorem uleb128_reads_in_bounds_witness:
  "(\<exists>v p'. get_uleb128 [0x83, 0x80] 2 0 = Inr (v, p') \<and> 0 < p' \<and> p' \<le> 3 \<and> p' \<le> 10) \<or>
    get_uleb128 [0x83, 0x80] 2 0 = Inl Shift_too_wide"
  using uleb128_reads_in_bounds [of 2 "[0x83, 0x80]" 0] by simp

text \<open>A 32-bit value stored by \<open>set_uint_le\<close> is read back by \<open>get_uint_le\<close>, and the store
  touches no other byte of the block.\<close>

lemma uint_le_roundtrip:
  assumes "p + 4 \<le> length buf"
  shows "\<exists>buf'. set_uint_le buf p 4 v = Inr buf' \<and> get_uint_le buf' p 4 = Inr v \<and>
    length buf' = length buf \<and> take p buf' = take p buf \<and> drop (p + 4) buf' = drop (p + 4) buf"
  using assms set_uint_le_eq [OF assms, of v] by (auto intro!: get_uint_le_bytes)

end
