(* ===== verification/Reply_Buffer.thy ===== *)
theory Reply_Buffer
  imports Leb_Codec
begin

unbundle bit_operations_syntax

text \<open>
  The server's static reply buffer (\<open>reply_buf\<close>, \<open>reply_max\<close>, \<open>reply_len\<close> of
  \<open>mem/versal/src/xvcserver.c\<close>; \<open>dpc/src/xvcserver.c\<close> has the same code) and the
  operations that grow it and append to it. \<open>reply_len\<close> is an \<open>unsigned\<close>: its
  additions wrap at 32 bits (\<^term>\<open>u32\<close>).
\<close>

definition max_packet_len :: nat where \<comment> \<open>\<open>MAX_PACKET_LEN\<close>\<close>
  "max_packet_len = 10000"

record reply =
  reply_buf :: "byte list"
  reply_max :: nat
  reply_len :: nat

definition reply0 :: reply where \<comment> \<open>the static initialisers\<close>
  "reply0 = \<lparr>reply_buf = [], reply_max = 0, reply_len = 0\<rparr>"

section \<open>Growing the buffer\<close>

text \<open>\<open>while (reply_max < bytes) reply_max *= 2;\<close> over \<open>unsigned\<close>; \<open>None\<close> is a loop that
  never ends.\<close>

partial_function (option) double_until :: "32 word \<Rightarrow> 32 word \<Rightarrow> 32 word option" where
  "double_until m bytes = (if m < bytes then double_until (m * 2) bytes else Some m)"

text \<open>\<open>heap\<close> is the content of fresh memory. \<open>realloc\<close> keeps the old bytes and succeeds.\<close>

definition reply_buf_size :: "(nat \<Rightarrow> byte) \<Rightarrow> 32 word \<Rightarrow> reply \<Rightarrow> reply res" where
  "reply_buf_size heap bytes r =
     (if word_of_nat (reply_max r) < bytes then
        (let m = (if reply_max r = 0 then 1 else word_of_nat (reply_max r))
         in case double_until m bytes of
              None \<Rightarrow> Inl Hang
            | Some m' \<Rightarrow> Inr (r\<lparr>reply_max := unat m',
                reply_buf := take (unat m') (reply_buf r) @ map heap [length (reply_buf r)..<unat m']\<rparr>))
      else Inr r)"

definition reply_wf :: "reply \<Rightarrow> bool" where
  "reply_wf r \<longleftrightarrow> length (reply_buf r) = reply_max r \<and> reply_max r < 2 ^ 32"

lemma unat_double:
  assumes "2 * unat (m :: 32 word) < 2 ^ 32"
  shows "unat (m * 2) = 2 * unat m"
  using assms by (simp add: unat_word_ariths mult.commute)

lemma double_until_returns:
  assumes "0 < unat m" "unat bytes \<le> 2 ^ 31"
  shows "\<exists>m'. double_until m bytes = Some m' \<and> bytes \<le> m' \<and> (\<exists>k. unat m' = unat m * 2 ^ k)
           \<and> (m = m' \<or> unat m' < 2 * unat bytes)"
  using assms
proof (induction "2 ^ 31 - unat m" arbitrary: m rule: less_induct)
  case less
  show ?case
  proof (cases "m < bytes")
    case False
    then show ?thesis
      by (subst double_until.simps) (auto simp: not_less intro: exI [of _ 0])
  next
    case True
    then have lt: "unat m < unat bytes" by (simp add: word_less_nat_alt)
    then have d: "unat (m * 2) = 2 * unat m" using less.prems by (intro unat_double) simp
    have "2 ^ 31 - unat (m * 2) < 2 ^ 31 - unat m" using lt less.prems d by simp
    from less.hyps [OF this] d less.prems obtain m' k where
      m': "double_until (m * 2) bytes = Some m'" "bytes \<le> m'"
        "unat m' = 2 * unat m * 2 ^ k" "m * 2 = m' \<or> unat m' < 2 * unat bytes" by auto
    have "unat m' = unat m * 2 ^ Suc k" using m'(3) by simp
    moreover have "unat m' < 2 * unat bytes" using m'(4) d lt by auto
    moreover have "double_until m bytes = Some m'"
      using True m'(1) by (subst double_until.simps) simp
    ultimately show ?thesis using m'(2) by blast
  qed
qed

lemma double_until_10000: "double_until 1 10000 = Some 16384"
  by (simp add: double_until.simps)

definition reply_ready :: "reply \<Rightarrow> bool" where \<comment> \<open>after \<open>reply_buf_size(max_packet_len)\<close>\<close>
  "reply_ready r \<longleftrightarrow> reply_wf r \<and> max_packet_len \<le> reply_max r"

lemma reply_buf_size_ready:
  assumes "reply_wf r"
  shows "\<exists>r'. reply_buf_size heap 10000 r = Inr r' \<and> reply_ready r' \<and> reply_len r' = reply_len r
           \<and> take (length (reply_buf r)) (reply_buf r') = reply_buf r"
proof (cases "reply_max r < 10000")
  case False
  then have "\<not> (word_of_nat (reply_max r) :: 32 word) < 10000"
    using assms by (simp add: word_less_nat_alt reply_wf_def unat_word_of_nat_32)
  with False assms show ?thesis
    by (auto simp: reply_buf_size_def reply_ready_def max_packet_len_def)
next
  case True
  define m :: "32 word" where "m = (if reply_max r = 0 then 1 else word_of_nat (reply_max r))"
  have um: "unat m = (if reply_max r = 0 then 1 else reply_max r)"
    using True by (simp add: m_def unat_word_of_nat_32)
  have lt: "(word_of_nat (reply_max r) :: 32 word) < 10000"
    using True by (simp add: word_less_nat_alt unat_word_of_nat_32)
  have "0 < unat m" using um by (simp split: if_splits)
  then obtain m' where m': "double_until m 10000 = Some m'" "10000 \<le> m'"
    using double_until_returns [of m 10000] by auto
  have b: "10000 \<le> unat m'" using m'(2) by (simp add: word_le_nat_alt)
  moreover have "unat m' < 2 ^ 32" using unsigned_less [of m'] by simp
  moreover have "length (reply_buf r) \<le> unat m'" using assms True b by (simp add: reply_wf_def)
  ultimately show ?thesis
    using lt m'(1) assms True
    by (simp add: reply_buf_size_def m_def [symmetric] reply_ready_def reply_wf_def
        max_packet_len_def)
qed

section \<open>Appending\<close>

text \<open>\<open>memcpy(reply_buf + reply_len, bs, n); reply_len += n;\<close>\<close>

definition reply_append :: "byte list \<Rightarrow> reply \<Rightarrow> reply res" where
  "reply_append bs r =
     and_then (write_at (reply_buf r) (reply_len r) bs) (\<lambda>b.
       Inr (r\<lparr>reply_buf := b, reply_len := u32 (reply_len r + length bs)\<rparr>))"

text \<open>A store the source makes only below \<open>max_packet_len\<close>.\<close>

definition reply_put :: "nat \<Rightarrow> byte \<Rightarrow> reply \<Rightarrow> reply res" where
  "reply_put off b r =
     (if off < max_packet_len
      then and_then (write_at (reply_buf r) off [b]) (\<lambda>buf. Inr (r\<lparr>reply_buf := buf\<rparr>))
      else Inr r)"

definition reply_status :: "byte list \<Rightarrow> reply \<Rightarrow> reply res" where
  "reply_status pending_error r =
     and_then (reply_put (reply_len r) (if pending_error \<noteq> [] then 1 else 0) r) (\<lambda>r'.
       Inr (r'\<lparr>reply_len := u32 (reply_len r' + 1)\<rparr>))"

function reply_uleb128_loop :: "nat \<Rightarrow> 64 word \<Rightarrow> reply \<Rightarrow> (nat \<times> reply) res" where
  "reply_uleb128_loop pos value r =
     and_then (reply_put (u32 (reply_len r + pos))
         (if 0x80 \<le> value then (ucast value AND 0x7f) OR 0x80 else ucast value AND 0x7f) r) (\<lambda>r'.
       let value' = drop_bit 7 value
       in if value' \<noteq> 0 then reply_uleb128_loop (pos + 1) value' r' else Inr (pos + 1, r'))"
  by pat_completeness auto
termination
  by (relation "measure (\<lambda>(pos, value, r). unat value)") (simp_all add: drop_bit_7_less)

declare reply_uleb128_loop.simps [simp del]

definition reply_uleb128 :: "64 word \<Rightarrow> reply \<Rightarrow> reply res" where
  "reply_uleb128 value r =
     and_then (reply_uleb128_loop 0 value r) (\<lambda>(pos, r').
       Inr (r'\<lparr>reply_len := u32 (reply_len r' + pos)\<rparr>))"

section \<open>What the operations do to the buffer\<close>

text \<open>The bytes a \<open>send_packet\<close> would transmit.\<close>

definition reply_bytes :: "reply \<Rightarrow> byte list" where
  "reply_bytes r = take (reply_len r) (reply_buf r)"

lemma reply_put_frame [frame_dests]:
  assumes "reply_put off b r = Inr r'"
  shows "reply_len r' = reply_len r" "reply_max r' = reply_max r"
    "length (reply_buf r') = length (reply_buf r)"
  using assms by (auto simp: reply_put_def res_simps dest: length_dests split: if_splits)

lemma reply_put_ok: "reply_ready r \<Longrightarrow> \<exists>r'. reply_put off b r = Inr r'"
  by (auto simp: reply_put_def reply_ready_def reply_wf_def write_at_def)

lemma reply_append_frame [frame_dests]:
  assumes "reply_append bs r = Inr r'"
  shows "reply_max r' = reply_max r" "length (reply_buf r') = length (reply_buf r)"
    "reply_len r' = u32 (reply_len r + length bs)"
  using assms by (auto simp: reply_append_def res_simps dest: length_dests)

lemma reply_append_ok:
  "reply_wf r \<Longrightarrow> reply_len r + length bs \<le> reply_max r \<Longrightarrow>
   reply_append bs r = Inr (r\<lparr>
     reply_buf := take (reply_len r) (reply_buf r) @ bs @ drop (reply_len r + length bs) (reply_buf r),
     reply_len := reply_len r + length bs\<rparr>)"
  by (simp add: reply_append_def write_at_ok reply_wf_def)

lemma reply_append_bytes:
  assumes "reply_append bs r = Inr r'" "reply_wf r" "reply_len r \<le> reply_max r"
  shows "reply_bytes r' = reply_bytes r @ bs" "reply_len r' = reply_len r + length bs"
    "reply_len r' \<le> reply_max r'"
proof -
  have le: "reply_len r + length bs \<le> reply_max r"
    using assms by (auto simp: reply_append_def res_simps write_at_def reply_wf_def split: if_splits)
  show "reply_bytes r' = reply_bytes r @ bs" "reply_len r' = reply_len r + length bs"
    "reply_len r' \<le> reply_max r'"
    using assms(1) reply_append_ok [OF assms(2) le] le assms(2)
    by (auto simp: reply_bytes_def reply_wf_def)
qed

lemma reply_append_fault:
  "reply_append bs r = Inl e \<Longrightarrow> reply_wf r \<Longrightarrow>
     e = Out_of_bounds \<and> bs \<noteq> [] \<and> reply_max r < reply_len r + length bs"
  by (auto simp: reply_append_def res_simps reply_wf_def)

lemma reply_uleb128_loop_frame [frame_dests]:
  "reply_uleb128_loop pos v r = Inr (pos', r') \<Longrightarrow>
     reply_len r' = reply_len r \<and> reply_max r' = reply_max r \<and>
     length (reply_buf r') = length (reply_buf r) \<and> pos' = pos + length (uleb_bytes v)"
proof (induction pos v r arbitrary: pos' r' rule: reply_uleb128_loop.induct)
  case (1 pos v r)
  from "1.prems" obtain r1 where
    r1: "reply_put (u32 (reply_len r + pos))
           (if 0x80 \<le> v then (ucast v AND 0x7f) OR 0x80 else ucast v AND 0x7f) r = Inr r1"
    and rest: "if drop_bit 7 v \<noteq> 0 then reply_uleb128_loop (pos + 1) (drop_bit 7 v) r1 = Inr (pos', r')
               else pos' = pos + 1 \<and> r' = r1"
    by (subst (asm) reply_uleb128_loop.simps) (auto simp: res_simps Let_def split: if_splits)
  show ?case
  proof (cases "drop_bit 7 v = 0")
    case True
    with rest have "pos' = pos + 1" "r' = r1" by simp_all
    with True show ?thesis using reply_put_frame [OF r1] by (simp add: uleb_bytes.simps [of v])
  next
    case False
    with rest have "reply_uleb128_loop (pos + 1) (drop_bit 7 v) r1 = Inr (pos', r')" by simp
    from "1.IH" [OF r1 refl False this] show ?thesis
      using reply_put_frame [OF r1] False by (simp add: uleb_bytes.simps [of v])
  qed
qed

lemma reply_uleb128_frame [frame_dests]:
  assumes "reply_uleb128 v r = Inr r'"
  shows "reply_max r' = reply_max r" "length (reply_buf r') = length (reply_buf r)"
    "reply_len r' = u32 (reply_len r + length (uleb_bytes v))"
  using assms by (auto simp: reply_uleb128_def res_simps dest!: reply_uleb128_loop_frame)

lemma reply_uleb128_loop_ok: "reply_ready r \<Longrightarrow> \<exists>pos' r'. reply_uleb128_loop pos v r = Inr (pos', r')"
proof (induction pos v r rule: reply_uleb128_loop.induct)
  case (1 pos v r)
  obtain r1 where
    r1: "reply_put (u32 (reply_len r + pos))
           (if 0x80 \<le> v then (ucast v AND 0x7f) OR 0x80 else ucast v AND 0x7f) r = Inr r1"
    using reply_put_ok [OF "1.prems"] by blast
  then have "reply_ready r1"
    using "1.prems" reply_put_frame [OF r1] by (simp add: reply_ready_def reply_wf_def)
  with "1.IH" [OF r1 refl] r1 show ?case
    by (cases "drop_bit 7 v = 0") (auto simp: reply_uleb128_loop.simps [of pos v r] Let_def)
qed

lemma reply_uleb128_ok: "reply_ready r \<Longrightarrow> \<exists>r'. reply_uleb128 v r = Inr r'"
  using reply_uleb128_loop_ok [of r 0 v] by (auto simp: reply_uleb128_def)

lemma reply_status_frame [frame_dests]:
  assumes "reply_status e r = Inr r'"
  shows "reply_max r' = reply_max r" "length (reply_buf r') = length (reply_buf r)"
    "reply_len r' = u32 (reply_len r + 1)"
  using assms by (auto simp: reply_status_def res_simps dest: frame_dests)

lemma reply_status_ok: "reply_ready r \<Longrightarrow> \<exists>r'. reply_status e r = Inr r'"
  using reply_put_ok [of r "reply_len r" "if e \<noteq> [] then 1 else 0"] by (auto simp: reply_status_def)

lemma reply_status_append:
  "reply_ready r \<Longrightarrow> reply_len r < max_packet_len \<Longrightarrow>
   reply_status e r = reply_append [if e \<noteq> [] then 1 else 0] r"
  by (simp add: reply_status_def reply_put_def reply_append_def and_then_assoc)

lemma reply_ops_wf [wf_intros]:
  "reply_append bs r = Inr r' \<Longrightarrow> reply_wf r \<Longrightarrow> reply_wf r'"
  "reply_uleb128 v r = Inr r' \<Longrightarrow> reply_wf r \<Longrightarrow> reply_wf r'"
  "reply_status e r = Inr r' \<Longrightarrow> reply_wf r \<Longrightarrow> reply_wf r'"
  unfolding reply_wf_def by (metis reply_append_frame reply_uleb128_frame reply_status_frame)+

text \<open>Within the packet limit, the guarded loop appends exactly the ULEB128 form.\<close>

lemma drop_bit_7_eq_0: "drop_bit 7 v = 0 \<longleftrightarrow> v < (0x80 :: 64 word)"
proof -
  have "unat (drop_bit 7 v) = unat v div 128"
    using unat_drop_bit_eq [of 7 v] by (simp only: drop_bit_eq_div) simp
  moreover have "drop_bit 7 v = 0 \<longleftrightarrow> unat (drop_bit 7 v) = 0" by (simp only: unat_eq_zero)
  ultimately show ?thesis by (simp add: word_less_nat_alt div_eq_0_iff)
qed

lemma reply_uleb128_loop_append:
  assumes "reply_ready r" "reply_len r + pos + length (uleb_bytes v) \<le> max_packet_len"
  shows "reply_uleb128_loop pos v r = Inr (pos + length (uleb_bytes v),
           r\<lparr>reply_buf := take (reply_len r + pos) (reply_buf r) @ uleb_bytes v @
               drop (reply_len r + pos + length (uleb_bytes v)) (reply_buf r)\<rparr>)"
  using assms
proof (induction v arbitrary: pos r rule: uleb_bytes.induct)
  case (1 v)
  let ?b = "if 0x80 \<le> v then (ucast v AND 0x7f) OR 0x80 else ucast v AND 0x7f"
  let ?at = "reply_len r + pos"
  have at: "?at < max_packet_len" "u32 ?at = ?at"
    using "1.prems"(2) by (auto simp: max_packet_len_def Suc_le_eq
      intro: order.strict_trans2 [of _ "?at + length (uleb_bytes v)"] u32_id)
  have room: "?at + 1 \<le> length (reply_buf r)"
    using "1.prems"(1) at(1) by (simp add: reply_ready_def reply_wf_def)
  define r1 where "r1 = r\<lparr>reply_buf := take ?at (reply_buf r) @ ?b # drop (?at + 1) (reply_buf r)\<rparr>"
  have put: "reply_put (u32 ?at) ?b r = Inr r1"
    using at room by (simp add: reply_put_def write_at_ok r1_def)
  show ?case
  proof (cases "drop_bit 7 v = 0")
    case True
    with put show ?thesis
      by (simp add: reply_uleb128_loop.simps [of pos v r] uleb_bytes.simps [of v] r1_def
          drop_bit_7_eq_0 not_le [symmetric])
  next
    case False
    then have "0x80 \<le> v" by (simp only: drop_bit_7_eq_0 not_less)
    with False have u: "uleb_bytes v = ?b # uleb_bytes (drop_bit 7 v)"
      by (simp add: uleb_bytes.simps [of v])
    have r1: "reply_ready r1" "reply_len r1 = reply_len r"
      using "1.prems"(1) room by (simp_all add: reply_ready_def reply_wf_def r1_def)
    have "reply_uleb128_loop (pos + 1) (drop_bit 7 v) r1 =
        Inr (pos + 1 + length (uleb_bytes (drop_bit 7 v)),
          r1\<lparr>reply_buf := take (?at + 1) (reply_buf r1) @ uleb_bytes (drop_bit 7 v) @
             drop (?at + 1 + length (uleb_bytes (drop_bit 7 v))) (reply_buf r1)\<rparr>)"
      using "1.IH" [OF False r1(1), of "pos + 1"] "1.prems"(2) u r1(2) by (simp add: add.assoc)
    then show ?thesis
      using put False u room
      by (simp add: reply_uleb128_loop.simps [of pos v r] r1_def Let_def ac_simps)
  qed
qed

lemma reply_uleb128_append:
  assumes "reply_ready r" "reply_len r + length (uleb_bytes v) \<le> max_packet_len"
  shows "reply_uleb128 v r = reply_append (uleb_bytes v) r"
proof -
  have "reply_len r + length (uleb_bytes v) \<le> reply_max r" "reply_wf r"
    using assms by (simp_all add: reply_ready_def)
  then show ?thesis
    using reply_uleb128_loop_append [of r 0 v] assms
    by (simp add: reply_uleb128_def reply_append_ok max_packet_len_def)
qed

section \<open>Properties\<close>

text \<open>C17. What \<open>reply_uleb128\<close> appends to a reply that has room for it, \<open>get_uleb128\<close> reads back
  as the same 64-bit number, consuming exactly the appended bytes.\<close>

theorem uleb128_roundtrip:
  assumes "reply_ready r" "reply_len r + length (uleb_bytes v) \<le> max_packet_len"
  shows "\<exists>r'. reply_uleb128 v r = Inr r' \<and> reply_bytes r' = reply_bytes r @ uleb_bytes v \<and>
    get_uleb128 (reply_buf r') (reply_len r') (reply_len r) = Inr (v, reply_len r')"
proof -
  have l: "reply_wf r" "reply_len r + length (uleb_bytes v) \<le> reply_max r"
    using assms by (simp_all add: reply_ready_def)
  then have a: "reply_append (uleb_bytes v) r = Inr (r\<lparr>
     reply_buf := take (reply_len r) (reply_buf r) @ uleb_bytes v @ drop (reply_len r + length (uleb_bytes v)) (reply_buf r),
     reply_len := reply_len r + length (uleb_bytes v)\<rparr>)"
    by (rule reply_append_ok)
  with l show ?thesis
    unfolding reply_uleb128_append [OF assms]
    by (auto simp: reply_bytes_def reply_wf_def intro!: get_uleb128_bytes)
qed

theorem uleb128_roundtrip_witness:
  "\<exists>r'. reply_uleb128 300 \<lparr>reply_buf = replicate 16384 0, reply_max = 16384, reply_len = 0\<rparr> = Inr r' \<and>
    reply_bytes r' = uleb_bytes 300 \<and> get_uleb128 (reply_buf r') (reply_len r') 0 = Inr (300, reply_len r')"
  using uleb128_roundtrip [of "\<lparr>reply_buf = replicate 16384 0, reply_max = 16384, reply_len = 0\<rparr>" 300]
  by (simp add: reply_ready_def reply_wf_def max_packet_len_def uleb_bytes.simps reply_bytes_def)

text \<open>Growing the reply buffer ends for every size up to \<open>2 ^ 31\<close>, gives a block of at least
  that size, less than twice it or the old one, and keeps the bytes already in the reply.\<close>

lemma reply_buf_size_total:
  assumes "reply_wf r" "unat bytes \<le> 2 ^ 31"
  shows "\<exists>r'. reply_buf_size heap bytes r = Inr r' \<and> reply_wf r' \<and> unat bytes \<le> reply_max r' \<and>
    reply_max r' < max (reply_max r + 1) (2 * unat bytes + 1) \<and>
    take (length (reply_buf r)) (reply_buf r') = reply_buf r"
proof (cases "reply_max r < unat bytes")
  case False
  then have "\<not> word_of_nat (reply_max r) < bytes"
    using assms(1) by (simp add: word_less_nat_alt unat_word_of_nat_32 reply_wf_def)
  with False assms(1) show ?thesis by (auto simp: reply_buf_size_def reply_wf_def)
next
  case True
  let ?m = "if reply_max r = 0 then 1 else word_of_nat (reply_max r) :: 32 word"
  have um: "unat ?m = (if reply_max r = 0 then 1 else reply_max r)"
    using assms(1) by (simp add: unat_word_of_nat_32 reply_wf_def)
  have lt: "word_of_nat (reply_max r) < bytes"
    using True assms(1) by (simp add: word_less_nat_alt unat_word_of_nat_32 reply_wf_def)
  have "0 < unat ?m" by (simp only: um) simp
  from double_until_returns [OF this assms(2)] obtain m' where
    m': "double_until ?m bytes = Some m'" "bytes \<le> m'" "?m = m' \<or> unat m' < 2 * unat bytes" by blast
  have ge: "unat bytes \<le> unat m'" using m'(2) by (simp add: word_le_nat_alt)
  have up: "unat m' < 2 * unat bytes + 1"
    using m'(3)
  proof
    assume "?m = m'"
    then have "unat m' = (if reply_max r = 0 then 1 else reply_max r)" using um by simp
    with True show ?thesis by (simp split: if_split_asm)
  qed simp
  have "unat m' < 2 ^ 32" using unsigned_less [of m', where 'a = nat] by simp
  with True assms(1) lt m'(1) ge up show ?thesis
    by (auto simp: reply_buf_size_def Let_def reply_wf_def)
qed

end
