(* ===== verification/Xvc_Config.thy ===== *)
theory Xvc_Config
  imports Reply_Buffer
begin

text \<open>
  C strings inside the client's block and the parser of the \<open>configure:\<close> command, which
  cuts the payload into fields in place (\<open>get_field\<close>, \<open>xvcserver_set_error\<close> and the
  \<open>configure:\<close> loop of \<open>read_packet\<close> in \<open>mem/versal/src/xvcserver.c\<close>). The pure
  function \<open>conf_fold\<close> over the comma separated items is its specification.
\<close>

section \<open>C strings in a block\<close>

text \<open>\<open>while (*s != '\0' && *s != c) s++;\<close>\<close>

function scan_field :: "byte list \<Rightarrow> byte \<Rightarrow> nat \<Rightarrow> nat res" where
  "scan_field buf c s =
     and_then (read_at buf s) (\<lambda>b.
       if b \<noteq> 0 \<and> b \<noteq> c then scan_field buf c (s + 1) else Inr s)"
  by pat_completeness auto
termination
  by (relation "measure (\<lambda>(buf, c, s). length buf - s)") (auto simp: res_simps)

declare scan_field.simps [simp del]

definition get_field :: "byte list \<Rightarrow> nat \<Rightarrow> byte \<Rightarrow> (nat \<times> byte list \<times> nat) res" where
  "get_field buf sp c =
     and_then (scan_field buf c sp) (\<lambda>s.
       if buf ! s \<noteq> 0 then Inr (sp, buf[s := 0], s + 1) else Inr (sp, buf, s))"

definition strlen_at :: "byte list \<Rightarrow> nat \<Rightarrow> nat res" where
  "strlen_at buf s = and_then (scan_field buf 0 s) (\<lambda>e. Inr (e - s))"

definition strchr_at :: "byte list \<Rightarrow> nat \<Rightarrow> byte \<Rightarrow> nat option res" where
  "strchr_at buf s c =
     and_then (scan_field buf c s) (\<lambda>e. Inr (if buf ! e = c then Some e else None))"

definition string_at :: "byte list \<Rightarrow> nat \<Rightarrow> byte list res" where
  "string_at buf s = and_then (strlen_at buf s) (\<lambda>n. Inr (take n (drop s buf)))"

text \<open>The block holds the string \<open>bs\<close> (and its terminator) at offset \<open>s\<close>.\<close>

definition string_in :: "byte list \<Rightarrow> nat \<Rightarrow> byte list \<Rightarrow> bool" where
  "string_in buf s bs \<longleftrightarrow>
     s + length bs < length buf \<and> take (length bs) (drop s buf) = bs \<and>
     0 \<notin> set bs \<and> buf ! (s + length bs) = 0"

lemma string_in_Nil [simp]: "string_in buf s [] \<longleftrightarrow> s < length buf \<and> buf ! s = 0"
  by (simp add: string_in_def)

lemma string_in_Cons [simp]:
  "string_in buf s (b # bs) \<longleftrightarrow> s < length buf \<and> buf ! s = b \<and> b \<noteq> 0 \<and> string_in buf (Suc s) bs"
proof (cases "s < length buf")
  case True
  then have "drop s buf = buf ! s # drop (Suc s) buf" by (simp add: Cons_nth_drop_Suc)
  with True show ?thesis by (auto simp: string_in_def)
qed (auto simp: string_in_def)

lemma string_in_append:
  "string_in buf s (xs @ ys) \<Longrightarrow> string_in buf (s + length xs) ys"
proof (induction xs arbitrary: s)
  case (Cons x xs)
  then have "string_in buf (Suc s + length xs) ys" by (intro Cons.IH) simp
  then show ?case by simp
qed simp

lemma string_in_update_before:
  "string_in buf s bs \<Longrightarrow> i < s \<Longrightarrow> string_in (buf[i := x]) s bs"
  by (induction bs arbitrary: s) auto

lemma string_in_update_cut:
  "string_in buf s (xs @ y # ys) \<Longrightarrow> string_in (buf[s + length xs := 0]) s xs"
proof (induction xs arbitrary: s)
  case Nil
  then show ?case by simp
next
  case (Cons x xs)
  then have "string_in (buf[Suc s + length xs := 0]) (Suc s) xs" by (intro Cons.IH) simp
  with Cons.prems show ?case by auto
qed

lemma scan_field_string:
  "string_in buf s bs \<Longrightarrow> scan_field buf c s = Inr (s + length (takeWhile (\<lambda>b. b \<noteq> c) bs))"
  by (induction bs arbitrary: s) (auto simp: scan_field.simps [of buf c s for s])

lemma scan_field_bounds:
  "scan_field buf c s = Inr e \<Longrightarrow> s \<le> e \<and> e < length buf \<and> (buf ! e = 0 \<or> buf ! e = c)"
proof (induction buf c s rule: scan_field.induct)
  case (1 buf c s)
  from "1.prems" have lt: "s < length buf"
    by (subst (asm) scan_field.simps) (auto simp: res_simps)
  show ?case
  proof (cases "buf ! s \<noteq> 0 \<and> buf ! s \<noteq> c")
    case True
    then have "scan_field buf c (s + 1) = Inr e"
      using "1.prems" lt by (subst (asm) scan_field.simps) simp
    with "1.IH" [OF read_at_ok [OF lt] True] show ?thesis by auto
  next
    case False
    then have "e = s" using "1.prems" lt by (subst (asm) scan_field.simps) auto
    with lt False show ?thesis by auto
  qed
qed

lemma strlen_at_string: "string_in buf s bs \<Longrightarrow> strlen_at buf s = Inr (length bs)"
proof -
  assume *: "string_in buf s bs"
  then have t: "takeWhile (\<lambda>b. b \<noteq> 0) bs = bs" by (auto simp: string_in_def takeWhile_eq_all_conv)
  show ?thesis unfolding strlen_at_def scan_field_string [OF *] t by simp
qed

lemma string_at_string: "string_in buf s bs \<Longrightarrow> string_at buf s = Inr bs"
  by (simp add: string_at_def strlen_at_string) (simp add: string_in_def)

section \<open>The configuration state of a client\<close>

text \<open>The fields of \<open>struct XvcClient\<close> that \<open>configure:\<close> works on.\<close>

record conf =
  enable_locking :: int
  enable_status :: int
  pending_error :: "byte list" \<comment> \<open>the C string in \<open>char pending_error[1024]\<close>\<close>

text \<open>\<open>vsnprintf\<close> into the 1024 byte array; \<open>msg\<close> is the formatted text.\<close>

definition set_error :: "byte list \<Rightarrow> 'a conf_scheme \<Rightarrow> 'a conf_scheme" where
  "set_error msg c = c\<lparr>pending_error := take 1023 (cstring msg)\<rparr>"


lemma set_error_frame [simp]:
  "enable_locking (set_error msg c) = enable_locking c"
  "enable_status (set_error msg c) = enable_status c"
  "conf.more (set_error msg c) = conf.more c"
  by (simp_all add: set_error_def)

text \<open>What \<open>pending_error\<close> always is: a C string that fits the array.\<close>

definition error_ok :: "byte list \<Rightarrow> bool" where
  "error_ok e \<longleftrightarrow> length e < 1024 \<and> 0 \<notin> set e"

lemma error_ok_Nil [simp]: "error_ok []"
  by (simp add: error_ok_def)

lemma error_ok_stored [simp]: "error_ok (take 1023 (cstring msg))"
  by (auto simp: error_ok_def dest!: in_set_takeD cstring_no_nul [THEN notE])

lemma set_error_ok [wf_intros, simp]: "error_ok (pending_error (set_error msg c))"
  by (simp add: set_error_def)

lemma set_error_nonempty: "cstring msg \<noteq> [] \<Longrightarrow> pending_error (set_error msg c) \<noteq> []"
  by (simp add: set_error_def)

section \<open>One configuration item\<close>

text \<open>
  Cuts the item at \<open>=\<close>, or cuts the last character off an item of two or more characters;
  \<open>enable\<close> is 1 or 0 when that character is \<open>+\<close> or \<open>-\<close>, otherwise -1.
\<close>

definition config_cut :: "byte list \<Rightarrow> nat \<Rightarrow> (int \<times> byte list) res" where
  "config_cut buf config =
     and_then (strchr_at buf config 0x3D) (\<lambda>assign.
       case assign of
         Some a \<Rightarrow> Inr (-1, buf[a := 0])
       | None \<Rightarrow> and_then (strlen_at buf config) (\<lambda>config_len.
           if 1 < config_len then
             let last = config + config_len - 1;
                 enable = (if buf ! last = 0x2B then 1 else if buf ! last = 0x2D then 0 else -1)
             in Inr (enable, buf[last := 0])
           else Inr (-1, buf)))"

definition config_name :: "byte list \<Rightarrow> nat \<Rightarrow> (int \<times> byte list \<times> byte list) res" where
  "config_name buf config =
     and_then (config_cut buf config) (\<lambda>(enable, buf').
     and_then (string_at buf' config) (\<lambda>name. Inr (enable, buf', name)))"

definition err_locking_boolean :: "byte list" where
  "err_locking_boolean = bytes_of ''configuration \"locking\" requires boolean + or -''"

definition err_status_boolean :: "byte list" where
  "err_status_boolean = bytes_of ''configuration \"status\" requires boolean + or -''"

definition err_unexpected :: "byte list \<Rightarrow> byte list" where
  "err_unexpected name = bytes_of ''unexpected configuration: '' @ name"

text \<open>The result's flag is the \<open>break\<close> out of the loop.\<close>

definition config_apply :: "bool \<Rightarrow> int \<Rightarrow> byte list \<Rightarrow> 'a conf_scheme \<Rightarrow> 'a conf_scheme \<times> bool" where
  "config_apply can_lock enable name c =
     (if name = bytes_of ''locking'' \<and> can_lock then
        if enable < 0 then (set_error err_locking_boolean c, True)
        else (c\<lparr>enable_locking := enable\<rparr>, False)
      else if name = bytes_of ''status'' then
        if enable < 0 then (set_error err_status_boolean c, True)
        else (c\<lparr>enable_status := enable\<rparr>, False)
      else (set_error (err_unexpected name) c, True))"

lemma get_field_bounds:
  "get_field buf sp c = Inr (f, buf', s') \<Longrightarrow> sp < length buf \<Longrightarrow> buf ! sp \<noteq> 0 \<Longrightarrow>
     f = sp \<and> length buf' = length buf \<and> sp < s' \<and> s' \<le> length buf"
proof -
  assume g: "get_field buf sp c = Inr (f, buf', s')" and sp: "sp < length buf" "buf ! sp \<noteq> 0"
  from g obtain e where e: "scan_field buf c sp = Inr e"
    and r: "(if buf ! e \<noteq> 0 then (sp, buf[e := 0], e + 1) else (sp, buf, e)) = (f, buf', s')"
    by (auto simp: get_field_def res_simps split: if_splits)
  from scan_field_bounds [OF e] have "sp \<le> e" "e < length buf" by auto
  with r sp show ?thesis by (cases "e = sp") (auto split: if_splits)
qed

lemma config_cut_length:
  assumes "config_cut buf config = Inr (enable, buf')"
  shows "length buf' = length buf"
proof -
  from assms obtain assign where "strchr_at buf config 0x3D = Inr assign"
    and r: "(case assign of
         Some a \<Rightarrow> Inr (-1, buf[a := 0])
       | None \<Rightarrow> and_then (strlen_at buf config) (\<lambda>config_len.
           if 1 < config_len then
             let last = config + config_len - 1;
                 enable = (if buf ! last = 0x2B then 1 else if buf ! last = 0x2D then 0 else -1)
             in Inr (enable, buf[last := 0])
           else Inr (-1, buf))) = Inr (enable, buf')"
    unfolding config_cut_def and_then_eq_Inr by blast
  show ?thesis
  proof (cases assign)
    case None
    with r show ?thesis by (cases "strlen_at buf config") (auto simp: Let_def split: if_split_asm)
  qed (use r in auto)
qed

lemma config_name_length:
  "config_name buf config = Inr (enable, buf', name) \<Longrightarrow> length buf' = length buf"
  by (auto simp: config_name_def and_then_eq_Inr dest: config_cut_length)

section \<open>The loop over the payload\<close>

function config_loop :: "bool \<Rightarrow> byte list \<Rightarrow> nat \<Rightarrow> 'a conf_scheme \<Rightarrow> (byte list \<times> 'a conf_scheme) res" where
  "config_loop can_lock buf s c =
     and_then (read_at buf s) (\<lambda>b.
       if b \<noteq> 0 \<and> pending_error c = [] then
         and_then (get_field buf s 0x2C) (\<lambda>(config, buf1, s').
         and_then (config_name buf1 config) (\<lambda>(enable, buf2, name).
           (case config_apply can_lock enable name c of
              (c', brk) \<Rightarrow> if brk then Inr (buf2, c') else config_loop can_lock buf2 s' c')))
       else Inr (buf, c))"
  by pat_completeness auto
termination
proof (relation "measure (\<lambda>(can_lock, buf, s, c). length buf - s)", goal_cases)
  case 1
  show ?case by simp
next
  case (2 can_lock buf s c b x config y buf1 s' z enable w buf2 name c' brk)
  then have g: "get_field buf s 0x2C = Inr (config, buf1, s')"
    and n: "config_name buf1 config = Inr (enable, buf2, name)" by simp_all
  from 2(1,2) have s: "s < length buf" "buf ! s \<noteq> 0" by (simp_all add: res_simps)
  show ?case using get_field_bounds [OF g s] config_name_length [OF n] by auto
qed

declare config_loop.simps [simp del]


text \<open>One turn of the loop; and whatever \<open>config_apply\<close> keeps, the loop keeps.\<close>

lemma config_loop_step:
  assumes "config_loop can_lock buf s c = Inr (buf', c')"
  shows "(buf', c') = (buf, c) \<or>
    (\<exists>config buf1 s1 enable buf2 name.
        read_at buf s = Inr (buf ! s) \<and> buf ! s \<noteq> 0 \<and> pending_error c = [] \<and> get_field buf s 0x2C = Inr (config, buf1, s1) \<and>
        config_name buf1 config = Inr (enable, buf2, name) \<and>
        (case config_apply can_lock enable name c of (c1, brk) \<Rightarrow>
           if brk then buf' = buf2 \<and> c' = c1 else config_loop can_lock buf2 s1 c1 = Inr (buf', c')))"
proof (cases "s < length buf \<and> buf ! s \<noteq> 0 \<and> pending_error c = []")
  case True
  obtain config buf1 s1 where g: "get_field buf s 0x2C = Inr (config, buf1, s1)"
    using assms True by (cases "get_field buf s 0x2C") (auto simp: config_loop.simps [of can_lock buf s c])
  obtain enable buf2 name where n: "config_name buf1 config = Inr (enable, buf2, name)"
    using assms True g by (cases "config_name buf1 config") (auto simp: config_loop.simps [of can_lock buf s c])
  show ?thesis
    using assms True g n
    by (auto simp: config_loop.simps [of can_lock buf s c] split: prod.splits if_splits)
next
  case False
  with assms show ?thesis
    by (auto simp: config_loop.simps [of can_lock buf s c] and_then_eq_Inr read_at_eq_Inr split: if_splits)
qed

lemma config_loop_keeps:
  assumes "config_loop can_lock buf s c = Inr (buf', c')" "P c"
    and "\<And>enable name c. P c \<Longrightarrow> P (fst (config_apply can_lock enable name c))"
  shows "P c' \<and> length buf' = length buf"
  using assms(1,2)
proof (induction "length buf - s" arbitrary: buf s c rule: less_induct)
  case less
  from config_loop_step [OF less.prems(1)] show ?case
  proof (elim disjE exE conjE)
    assume "(buf', c') = (buf, c)"
    with less.prems(2) show ?thesis by simp
  next
    fix config buf1 s1 enable buf2 name
    assume s: "read_at buf s = Inr (buf ! s)" "buf ! s \<noteq> 0" and g: "get_field buf s 0x2C = Inr (config, buf1, s1)"
      and n: "config_name buf1 config = Inr (enable, buf2, name)"
      and r: "case config_apply can_lock enable name c of (c1, brk) \<Rightarrow>
           if brk then buf' = buf2 \<and> c' = c1 else config_loop can_lock buf2 s1 c1 = Inr (buf', c')"
    have lt: "s < length buf" using s(1) by (simp add: res_simps)
    have b: "length buf2 = length buf" "s < s1" "s1 \<le> length buf"
      using get_field_bounds [OF g lt s(2)] config_name_length [OF n] by simp_all
    obtain c1 brk where ap: "config_apply can_lock enable name c = (c1, brk)" by force
    have P1: "P c1" using assms(3) [OF less.prems(2), of enable name] ap by simp
    show ?thesis
    proof (cases brk)
      case True
      with r ap P1 b show ?thesis by simp
    next
      case False
      with r ap have "config_loop can_lock buf2 s1 c1 = Inr (buf', c')" by simp
      moreover have "length buf2 - s1 < length buf - s" using b lt by simp
      ultimately show ?thesis using less.hyps P1 b by metis
    qed
  qed
qed

section \<open>Specification: a fold over the comma separated items\<close>

function split_items :: "byte list \<Rightarrow> byte list list" where
  "split_items [] = []"
| "split_items (b # bs) =
     takeWhile (\<lambda>x. x \<noteq> 0x2C) (b # bs) # split_items (drop 1 (dropWhile (\<lambda>x. x \<noteq> 0x2C) (b # bs)))"
  by pat_completeness auto
termination
proof (relation "measure length", goal_cases)
  case (2 b bs)
  have "length (dropWhile (\<lambda>x. x \<noteq> 0x2C) bs) \<le> length bs" by (rule length_dropWhile_le)
  then show ?case by auto
qed simp

declare split_items.simps(2) [simp del]

definition item_parse :: "byte list \<Rightarrow> int \<times> byte list" where
  "item_parse it =
     (if 0x3D \<in> set it then (-1, takeWhile (\<lambda>x. x \<noteq> 0x3D) it)
      else if 1 < length it then
        (if last it = 0x2B then 1 else if last it = 0x2D then 0 else -1, butlast it)
      else (-1, it))"

fun conf_fold :: "bool \<Rightarrow> byte list list \<Rightarrow> 'a conf_scheme \<Rightarrow> 'a conf_scheme" where
  "conf_fold can_lock [] c = c"
| "conf_fold can_lock (it # its) c =
     (if pending_error c = [] then
        (case item_parse it of (enable, name) \<Rightarrow>
          case config_apply can_lock enable name c of
            (c', brk) \<Rightarrow> if brk then c' else conf_fold can_lock its c')
      else c)"

text \<open>Two blocks that agree outside of \<open>[s, e)\<close>.\<close>

definition same_outside :: "nat \<Rightarrow> nat \<Rightarrow> byte list \<Rightarrow> byte list \<Rightarrow> bool" where
  "same_outside s e xs ys \<longleftrightarrow>
     length ys = length xs \<and> (\<forall>i. i < s \<or> e \<le> i \<longrightarrow> ys ! i = xs ! i)"

lemma same_outside_refl [simp]: "same_outside s e xs xs"
  by (simp add: same_outside_def)

lemma same_outside_update: "s \<le> i \<Longrightarrow> i < e \<Longrightarrow> same_outside s e xs (xs[i := x])"
  by (auto simp: same_outside_def nth_list_update)

lemma same_outside_trans:
  "same_outside s e xs ys \<Longrightarrow> same_outside s' e' ys zs \<Longrightarrow> l \<le> s \<Longrightarrow> l \<le> s' \<Longrightarrow> e \<le> h \<Longrightarrow> e' \<le> h \<Longrightarrow>
   same_outside l h xs zs"
  by (auto simp: same_outside_def)

lemma string_in_same:
  assumes "string_in buf s bs" "same_outside l h buf buf'" "h \<le> s"
  shows "string_in buf' s bs"
proof -
  have len: "length buf' = length buf" using assms(2) by (simp add: same_outside_def)
  have eq: "buf' ! i = buf ! i" if "s \<le> i" for i using assms that by (simp add: same_outside_def)
  have "s + length bs < length buf" using assms(1) by (simp add: string_in_def)
  then have "take (length bs) (drop s buf') = take (length bs) (drop s buf)"
    using len eq by (intro nth_equalityI) simp_all
  with assms(1) len eq show ?thesis by (simp add: string_in_def)
qed

lemma takeWhile_neq_split:
  assumes "c \<in> set bs"
  shows "bs = takeWhile (\<lambda>x. x \<noteq> c) bs @ c # drop 1 (dropWhile (\<lambda>x. x \<noteq> c) bs)"
  using assms by (induction bs) auto

lemma takeWhile_neq_all: "c \<notin> set bs \<Longrightarrow> takeWhile (\<lambda>x. x \<noteq> c) bs = bs"
  by (induction bs) auto

lemma get_field_string:
  assumes "string_in buf s bs" "bs \<noteq> []"
  defines "f \<equiv> takeWhile (\<lambda>x. x \<noteq> 0x2C) bs" and "rest \<equiv> drop 1 (dropWhile (\<lambda>x. x \<noteq> 0x2C) bs)"
  shows "\<exists>buf1 s'. get_field buf s 0x2C = Inr (s, buf1, s') \<and> string_in buf1 s f \<and>
           string_in buf1 s' rest \<and> s + length f \<le> s' \<and> s' + length rest = s + length bs \<and>
           same_outside s (s + length bs) buf buf1"
proof (cases "(0x2C :: byte) \<in> set bs")
  case True
  then have bs: "bs = f @ 0x2C # rest" unfolding f_def rest_def by (rule takeWhile_neq_split)
  let ?e = "s + length f"
  have sc: "scan_field buf 0x2C s = Inr ?e" using scan_field_string [OF assms(1)] by (simp add: f_def)
  have whole: "string_in buf s (f @ 0x2C # rest)" using assms(1) bs by metis
  then have comma: "string_in buf ?e (0x2C # rest)" by (rule string_in_append)
  have g: "get_field buf s 0x2C = Inr (s, buf[?e := 0], ?e + 1)"
    using comma by (simp add: get_field_def sc)
  have r: "string_in (buf[?e := 0]) (?e + 1) rest"
    using comma by (intro string_in_update_before) simp_all
  have l: "length bs = length f + 1 + length rest" using arg_cong [OF bs, of length] by simp
  have "string_in (buf[?e := 0]) s f" using whole by (rule string_in_update_cut)
  moreover have "same_outside s (s + length bs) buf (buf[?e := 0])"
    using l by (intro same_outside_update) simp_all
  ultimately have "get_field buf s 0x2C = Inr (s, buf[?e := 0], ?e + 1) \<and>
      string_in (buf[?e := 0]) s f \<and> string_in (buf[?e := 0]) (?e + 1) rest \<and> ?e \<le> ?e + 1 \<and>
      ?e + 1 + length rest = s + length bs \<and> same_outside s (s + length bs) buf (buf[?e := 0])"
    using g r l by linarith
  then show ?thesis by blast
next
  case False
  have "dropWhile (\<lambda>x. x \<noteq> 0x2C) bs = []" using False by (auto simp: dropWhile_eq_Nil_conv)
  moreover have "takeWhile (\<lambda>x. x \<noteq> 0x2C) bs = bs" using False by (rule takeWhile_neq_all)
  ultimately have f: "f = bs" "rest = []" unfolding f_def rest_def by (simp_all only: drop_Nil)
  have sc: "scan_field buf 0x2C s = Inr (s + length bs)"
    by (simp only: scan_field_string [OF assms(1)] f [unfolded f_def])
  have z: "buf ! (s + length bs) = 0" "s + length bs < length buf"
    using assms(1) by (auto simp: string_in_def)
  have "get_field buf s 0x2C = Inr (s, buf, s + length bs)" using z by (simp add: get_field_def sc)
  then have "get_field buf s 0x2C = Inr (s, buf, s + length bs) \<and> string_in buf s f \<and>
      string_in buf (s + length bs) rest \<and> s + length f \<le> s + length bs \<and>
      s + length bs + length rest = s + length bs \<and> same_outside s (s + length bs) buf buf"
    unfolding f by (intro conjI) (simp_all only: assms(1) z string_in_Nil same_outside_refl list.size order_refl add_0_right)
  then show ?thesis by blast
qed


lemma config_name_string:
  assumes "string_in buf s it"
  shows "\<exists>buf'. config_name buf s = Inr (fst (item_parse it), buf', snd (item_parse it)) \<and>
           same_outside s (s + length it) buf buf'"
proof (cases "(0x3D :: byte) \<in> set it")
  case True
  define nm where "nm = takeWhile (\<lambda>x. x \<noteq> 0x3D) it"
  let ?a = "s + length nm"
  have it: "it = nm @ 0x3D # drop 1 (dropWhile (\<lambda>x. x \<noteq> 0x3D) it)"
    unfolding nm_def using True by (rule takeWhile_neq_split)
  have whole: "string_in buf s (nm @ 0x3D # drop 1 (dropWhile (\<lambda>x. x \<noteq> 0x3D) it))"
    using assms it by metis
  have eq: "buf ! ?a = 0x3D" using string_in_append [OF whole] by simp
  have "scan_field buf 0x3D s = Inr ?a" using scan_field_string [OF assms] by (simp add: nm_def)
  with eq have cut: "config_cut buf s = Inr (-1, buf[?a := 0])"
    by (simp add: config_cut_def strchr_at_def)
  have "string_at (buf[?a := 0]) s = Inr nm"
    using string_in_update_cut [OF whole] by (rule string_at_string)
  moreover have "length nm < length it" using arg_cong [OF it, of length] by simp
  ultimately show ?thesis
    using cut True by (simp add: config_name_def item_parse_def nm_def same_outside_update)
next
  case False
  have "scan_field buf 0x3D s = Inr (s + length it)"
    by (simp only: scan_field_string [OF assms] takeWhile_neq_all [OF False])
  moreover have "buf ! (s + length it) = 0" using assms by (simp add: string_in_def)
  ultimately have sc: "strchr_at buf s 0x3D = Inr None" by (simp add: strchr_at_def)
  show ?thesis
  proof (cases "1 < length it")
    case False
    with sc \<open>0x3D \<notin> set it\<close> show ?thesis
      by (simp add: config_name_def config_cut_def strlen_at_string [OF assms]
          string_at_string [OF assms] item_parse_def)
  next
    case True
    then have it: "it = butlast it @ [last it]" by (metis append_butlast_last_id list.size(3) not_one_less_zero)
    then have whole: "string_in buf s (butlast it @ last it # [])" using assms by metis
    let ?l = "s + length (butlast it)"
    have l: "s + length it - 1 = ?l" using True by simp
    have last: "buf ! ?l = last it" using string_in_append [OF whole] by simp
    have "string_at (buf[?l := 0]) s = Inr (butlast it)"
      using string_in_update_cut [OF whole] by (rule string_at_string)
    moreover have "same_outside s (s + length it) buf (buf[?l := 0])"
      using True by (intro same_outside_update) auto
    ultimately show ?thesis
      using sc True last l \<open>0x3D \<notin> set it\<close>
      by (simp add: config_name_def config_cut_def strlen_at_string [OF assms] item_parse_def Let_def)
  qed
qed

lemma config_loop_refines:
  assumes "string_in buf s bs"
  shows "\<exists>buf'. config_loop can_lock buf s c = Inr (buf', conf_fold can_lock (split_items bs) c) \<and>
           same_outside s (s + length bs) buf buf'"
  using assms
proof (induction bs arbitrary: buf s c rule: split_items.induct)
  case 1
  then show ?case by (auto simp: config_loop.simps [of can_lock buf s c])
next
  case (2 b bs)
  let ?f = "takeWhile (\<lambda>x. x \<noteq> 0x2C) (b # bs)"
  let ?rest = "drop 1 (dropWhile (\<lambda>x. x \<noteq> 0x2C) (b # bs))"
  have b: "read_at buf s = Inr b" "b \<noteq> 0" using "2.prems" by auto
  show ?case
  proof (cases "pending_error c = []")
    case False
    with b show ?thesis
      by (simp add: config_loop.simps [of can_lock buf s c] split_items.simps)
  next
    case True
    obtain buf1 s' where g: "get_field buf s 0x2C = Inr (s, buf1, s')"
      and f1: "string_in buf1 s ?f" and r1: "string_in buf1 s' ?rest"
      and s': "s + length ?f \<le> s'" "s' + length ?rest = s + length (b # bs)"
      and o1: "same_outside s (s + length (b # bs)) buf buf1"
      using get_field_string [OF "2.prems"] by blast
    obtain buf2 where n: "config_name buf1 s = Inr (fst (item_parse ?f), buf2, snd (item_parse ?f))"
      and o2: "same_outside s (s + length ?f) buf1 buf2"
      using config_name_string [OF f1] by blast
    obtain c' brk where ap: "config_apply can_lock (fst (item_parse ?f)) (snd (item_parse ?f)) c = (c', brk)"
      by force
    have o12: "same_outside s (s + length (b # bs)) buf buf2"
      using o1 o2 s' by (rule_tac same_outside_trans) auto
    have step: "config_loop can_lock buf s c =
        (if brk then Inr (buf2, c') else config_loop can_lock buf2 s' c')"
      using b True g n ap by (simp add: config_loop.simps [of can_lock buf s c])
    have fold: "conf_fold can_lock (split_items (b # bs)) c =
        (if brk then c' else conf_fold can_lock (split_items ?rest) c')"
      using True ap by (simp add: split_items.simps case_prod_beta del: takeWhile.simps dropWhile.simps)
    show ?thesis
    proof (cases brk)
      case True
      with step fold o12 show ?thesis by auto
    next
      case False
      have "string_in buf2 s' ?rest" using r1 o2 s'(1) by (rule string_in_same)
      then obtain buf' where
        "config_loop can_lock buf2 s' c' = Inr (buf', conf_fold can_lock (split_items ?rest) c')"
        and o3: "same_outside s' (s' + length ?rest) buf2 buf'"
        using "2.IH" by blast
      moreover have "same_outside s (s + length (b # bs)) buf buf'"
        using o12 o3 s' by (rule_tac same_outside_trans) auto
      ultimately show ?thesis using step fold False by auto
    qed
  qed
qed

section \<open>Properties\<close>

text \<open>C16. The in-place parser of \<open>configure:\<close>, which cuts the received block with terminators and
  reads it through C strings, computes the fold of \<open>config_apply\<close> over the comma separated items,
  stops at the first error, and writes to no byte outside of the configuration string.\<close>

theorem configure_parses_items:
  assumes "string_in buf s bs"
  shows "\<exists>buf'. config_loop can_lock buf s c = Inr (buf', conf_fold can_lock (split_items bs) c) \<and>
    length buf' = length buf \<and> (\<forall>i. i < s \<or> s + length bs \<le> i \<longrightarrow> buf' ! i = buf ! i)"
  using config_loop_refines [OF assms, of can_lock c] by (auto simp: same_outside_def)

theorem configure_parses_items_witness:
  "\<exists>buf'. config_loop False (bytes_of ''status+'' @ [0, 7]) 0
      \<lparr>enable_locking = 0, enable_status = 0, pending_error = []\<rparr> =
    Inr (buf', \<lparr>enable_locking = 0, enable_status = 1, pending_error = []\<rparr>) \<and> buf' ! 8 = 7"
proof -
  have "string_in (bytes_of ''status+'' @ [0, 7]) 0 (bytes_of ''status+'')"
    by (simp add: bytes_of_def)
  moreover have "split_items (bytes_of ''status+'') = [bytes_of ''status+'']"
    by (simp add: bytes_of_def split_items.simps)
  moreover have "(bytes_of ''status+'' @ [0, 7]) ! 8 = 7" by (simp add: bytes_of_def)
  ultimately show ?thesis
    using configure_parses_items [of "bytes_of ''status+'' @ [0, 7]" 0 "bytes_of ''status+''" False
        "\<lparr>enable_locking = 0, enable_status = 0, pending_error = []\<rparr>"]
    by (auto simp: item_parse_def config_apply_def bytes_of_def)
qed

text \<open>An item without \<open>=\<close> that does not end in \<open>+\<close> or \<open>-\<close> loses its last byte all the same, so
  the error that reports it names another option: \<open>status\<close> is refused as \<open>statu\<close>.\<close>

lemma configure_reports_cut_name:
  assumes "string_in buf s it" "1 < length it" "0x2C \<notin> set it" "0x3D \<notin> set it"
    "last it \<noteq> 0x2B" "last it \<noteq> 0x2D" "butlast it \<noteq> bytes_of ''locking''" "butlast it \<noteq> bytes_of ''status''"
    "pending_error c = []"
  shows "\<exists>buf'. config_loop can_lock buf s c = Inr (buf', set_error (err_unexpected (butlast it)) c)"
proof -
  obtain b bs where it: "it = b # bs" using assms(2) by (cases it) auto
  have tw: "takeWhile (\<lambda>x. x \<noteq> 0x2C) it = it" using assms(3) by (rule takeWhile_neq_all)
  have "dropWhile (\<lambda>x. x \<noteq> 0x2C) it = []" using assms(3) by (auto simp: dropWhile_eq_Nil_conv)
  then have "split_items it = [it]"
    using tw unfolding it split_items.simps(2) by (simp only: drop_Nil split_items.simps(1))
  moreover have "item_parse it = (-1, butlast it)"
    using assms(2,4-6) by (simp add: item_parse_def)
  ultimately have "conf_fold can_lock (split_items it) c = set_error (err_unexpected (butlast it)) c"
    using assms(7-9) by (simp add: config_apply_def)
  with config_loop_refines [OF assms(1), of can_lock c] show ?thesis by auto
qed

end
