(* ===== verification/Mem_Server.thy ===== *)
theory Mem_Server
  imports Xvc_Config
begin

unbundle bit_operations_syntax

text \<open>
  The XVC 1.1 protocol engine of \<open>mem/versal/src/xvcserver.c\<close>: the client record, the
  callback table of \<open>xvcserver.h\<close>, one definition per command of \<open>read_packet\<close>, the
  command loop, and the loop that sends replies and receives more bytes.

  Pointers into \<open>c->buf\<close> are offsets; \<open>buf_addr\<close> is the block's address, used where the
  source adds a number from the wire to a pointer (\<open>ptr_add\<close>). A callback that gets a pointer
  gets the rest of the block from that pointer on and returns its new content; it reports an
  error (\<open>xvcserver_set_error\<close>) as \<open>Some msg\<close>.
\<close>

section \<open>State\<close>

record client = conf +
  buf_len :: nat
  buf_max :: nat
  rx_buf :: "byte list"   \<comment> \<open>\<open>uint8_t * buf\<close>, the whole block\<close>
  buf_addr :: nat         \<comment> \<open>the address \<open>malloc\<close> returned\<close>
  locked :: int

type_synonym err = "byte list option"

record 'd handlers =
  h_open_port :: "'d \<Rightarrow> (int \<times> 'd \<times> err) res"
  h_close_port :: "'d \<Rightarrow> 'd"
  h_set_tck :: "'d \<Rightarrow> 64 word \<Rightarrow> 64 word \<times> 'd \<times> err"
  h_shift_tms_tdi :: "'d \<Rightarrow> 64 word \<Rightarrow> byte list \<Rightarrow> byte list \<Rightarrow> byte list \<Rightarrow> (byte list \<times> 'd \<times> err) res"
  h_lock :: "('d \<Rightarrow> 32 word \<Rightarrow> 'd \<times> err) option"
  h_unlock :: "('d \<Rightarrow> 'd \<times> err) option"
  h_register_shift :: "('d \<Rightarrow> bool \<Rightarrow> 32 word \<Rightarrow> 32 word \<Rightarrow> 64 word \<Rightarrow> byte list option \<Rightarrow>
     byte list option \<Rightarrow> (byte list option \<times> 'd \<times> err) res) option"
  h_state :: "('d \<Rightarrow> 32 word \<Rightarrow> 32 word \<Rightarrow> 64 word \<Rightarrow> 'd \<times> err) option"
  h_flush :: "('d \<Rightarrow> byte list \<Rightarrow> int \<times> byte list \<times> 'd \<times> err) option"
  h_mrd :: "('d \<Rightarrow> 32 word \<Rightarrow> 64 word \<Rightarrow> 64 word \<Rightarrow> byte list \<Rightarrow> (byte list \<times> 'd \<times> err) res) option"
  h_mwr :: "('d \<Rightarrow> 32 word \<Rightarrow> 64 word \<Rightarrow> 64 word \<Rightarrow> byte list \<Rightarrow> ('d \<times> err) res) option"

record 'd srv =
  cl :: client
  rp :: reply
  dev :: 'd

definition xvc_version :: nat where \<comment> \<open>\<open>XVC_VERSION\<close>\<close>
  "xvc_version = 11"

definition report :: "err \<Rightarrow> 'd srv \<Rightarrow> 'd srv" where
  "report e s = (case e of None \<Rightarrow> s | Some msg \<Rightarrow> s\<lparr>cl := set_error msg (cl s)\<rparr>)"

definition ok :: "'d srv \<Rightarrow> bool" where \<comment> \<open>\<open>!c->pending_error[0]\<close>\<close>
  "ok s \<longleftrightarrow> pending_error (cl s) = []"

definition ptr_add :: "'d srv \<Rightarrow> nat \<Rightarrow> nat \<Rightarrow> nat res" where
  "ptr_add s p n = (if buf_addr (cl s) + p + n < 2 ^ 64 then Inr (p + n) else Inl Pointer_wrap)"

definition memset0_at :: "byte list \<Rightarrow> nat \<Rightarrow> nat \<Rightarrow> byte list res" where
  "memset0_at xs off n =
     (if n = 0 \<or> off + n \<le> length xs
      then Inr (take off xs @ replicate n 0 @ drop (off + n) xs) else Inl Out_of_bounds)"

text \<open>The labels of the source a command jumps to, or its way out of the loop.\<close>

datatype 'd step =
    Reply "'d srv" nat
  | Reply_with_status "'d srv" nat
  | Reply_with_optional_status "'d srv" nat
  | Break "'d srv" bool       \<comment> \<open>\<open>break\<close>, with \<open>fill\<close>\<close>
  | Protocol_error "'d srv"   \<comment> \<open>\<open>goto error\<close>\<close>

text \<open>\<open>assert(q - cbuf <= c->buf_max); fill = 1; break;\<close>\<close>

definition need_more :: "'d srv \<Rightarrow> nat \<Rightarrow> nat \<Rightarrow> 'd step res" where
  "need_more s cbuf q =
     and_then (ensure (q - cbuf \<le> buf_max (cl s)) Assert_failed) (\<lambda>_. Inr (Break s True))"

text \<open>The rest of the reply block, as passed to a callback, and putting it back.\<close>

definition reply_rest :: "'d srv \<Rightarrow> byte list" where
  "reply_rest s = drop (reply_len (rp s)) (reply_buf (rp s))"

definition set_reply_rest :: "byte list \<Rightarrow> 'd srv \<Rightarrow> 'd srv" where
  "set_reply_rest bs s =
     s\<lparr>rp := (rp s)\<lparr>reply_buf := take (reply_len (rp s)) (reply_buf (rp s)) @ bs\<rparr>\<rparr>"

text \<open>\<open>if (c->pending_error[0]) memset(reply_buf + reply_len, 0, n); reply_len += n;\<close>\<close>

definition reply_data :: "nat \<Rightarrow> 'd srv \<Rightarrow> 'd srv res" where
  "reply_data n s =
     and_then (if ok s then Inr (reply_buf (rp s))
               else memset0_at (reply_buf (rp s)) (reply_len (rp s)) n) (\<lambda>b.
       Inr (s\<lparr>rp := (rp s)\<lparr>reply_buf := b, reply_len := u32 (reply_len (rp s) + n)\<rparr>\<rparr>))"

section \<open>The commands\<close>

definition getinfo_text :: "nat \<Rightarrow> byte list" where
  "getinfo_text bmax = bytes_of ''xvcServer_v'' @ fmt_u (xvc_version div 10) @ bytes_of ''.'' @
     fmt_u (xvc_version mod 10) @ bytes_of '':'' @ fmt_u bmax @ [0x0A]"

text \<open>\<open>snprintf\<close> with size 100 stores at most 99 characters and the terminator.\<close>

definition cmd_getinfo :: "'d srv \<Rightarrow> nat \<Rightarrow> 'd step res" where
  "cmd_getinfo s p =
     (let t = take 99 (getinfo_text (buf_max (cl s)))
      in and_then (write_at (reply_buf (rp s)) (reply_len (rp s)) (t @ [0])) (\<lambda>b.
           Inr (Reply (s\<lparr>rp := (rp s)\<lparr>reply_buf := b,
                          reply_len := u32 (reply_len (rp s) + length t)\<rparr>\<rparr>) p)))"

definition capabilities :: "'d handlers \<Rightarrow> byte list" where
  "capabilities h =
     (if h_lock h \<noteq> None \<and> h_unlock h \<noteq> None then bytes_of ''locking,'' else []) @
     (if h_register_shift h \<noteq> None \<and> h_state h \<noteq> None then bytes_of ''state-aware,'' else []) @
     bytes_of ''memory,'' @ bytes_of ''idcode=2315268243,'' @ bytes_of ''status''"

definition cmd_capabilities :: "'d handlers \<Rightarrow> 'd srv \<Rightarrow> nat \<Rightarrow> 'd step res" where
  "cmd_capabilities h s p =
     and_then (reply_uleb128 (word_of_nat (length (capabilities h))) (rp s)) (\<lambda>r1.
     and_then (reply_append (capabilities h) r1) (\<lambda>r2. Inr (Reply (s\<lparr>rp := r2\<rparr>) p)))"

text \<open>\<open>bytes\<close> is an \<open>unsigned\<close>: the decoded length loses its high half.\<close>

definition cmd_configure :: "'d handlers \<Rightarrow> 'd srv \<Rightarrow> nat \<Rightarrow> nat \<Rightarrow> 'd step res" where
  "cmd_configure h s cbuf p =
     and_then (get_uleb128 (rx_buf (cl s)) (buf_len (cl s)) p) (\<lambda>(v, p1).
     and_then (ptr_add s p1 (unat (ucast v :: 32 word))) (\<lambda>pktend.
       if buf_len (cl s) < pktend then
         and_then (ensure (pktend - cbuf < buf_max (cl s)) Assert_failed) (\<lambda>_. Inr (Break s True))
       else
         and_then (read_at (rx_buf (cl s)) pktend) (\<lambda>oldc.
         and_then (write_at (rx_buf (cl s)) pktend [0]) (\<lambda>buf1.
         and_then (config_loop (h_lock h \<noteq> None \<and> h_unlock h \<noteq> None) buf1 p1 (cl s)) (\<lambda>(buf2, c).
         and_then (write_at buf2 pktend [oldc]) (\<lambda>buf3.
           Inr (Reply_with_status (s\<lparr>cl := c\<lparr>rx_buf := buf3\<rparr>\<rparr>) pktend)))))))"

definition cmd_error :: "'d srv \<Rightarrow> nat \<Rightarrow> 'd step res" where
  "cmd_error s p =
     (let len = length (pending_error (cl s));
          lim = u32 (buf_max (cl s) + 2 ^ 32 - (len + 127) div 128);
          bytes = (if lim < len then lim else len)
      in and_then (reply_uleb128 (word_of_nat bytes) (rp s)) (\<lambda>r1.
         and_then (reply_append (take bytes (pending_error (cl s))) r1) (\<lambda>r2.
           Inr (Reply (s\<lparr>rp := r2, cl := (cl s)\<lparr>pending_error := []\<rparr>\<rparr>) p))))"

definition err_locking_disabled :: "byte list" where
  "err_locking_disabled = bytes_of ''locking is disabled''"

definition err_already_locked :: "byte list" where
  "err_already_locked = bytes_of ''already locked''"

definition err_already_unlocked :: "byte list" where
  "err_already_unlocked = bytes_of ''already unlocked''"

definition do_lock :: "'d handlers \<Rightarrow> 32 word \<Rightarrow> 'd srv \<Rightarrow> 'd srv res" where
  "do_lock h timeout s =
     (if \<not> ok s then Inr s
      else if enable_locking (cl s) = 0 then Inr (report (Some err_locking_disabled) s)
      else if locked (cl s) \<noteq> 0 then Inr (report (Some err_already_locked) s)
      else case h_lock h of
        None \<Rightarrow> Inl Null_call
      | Some f \<Rightarrow>
          (case f (dev s) timeout of (d, e) \<Rightarrow>
             let s' = report e (s\<lparr>dev := d\<rparr>)
             in Inr (if ok s' then s'\<lparr>cl := (cl s')\<lparr>locked := 1\<rparr>\<rparr> else s')))"

definition cmd_lock :: "'d handlers \<Rightarrow> 'd srv \<Rightarrow> nat \<Rightarrow> nat \<Rightarrow> 'd step res" where
  "cmd_lock h s cbuf p =
     and_then (get_uleb128 (rx_buf (cl s)) (buf_len (cl s)) p) (\<lambda>(timeout, p1).
       if buf_len (cl s) < p1 then need_more s cbuf p1
       else if 0 < reply_len (rp s) then Inr (Break s False)
       else and_then (do_lock h (ucast timeout) s) (\<lambda>s'. Inr (Reply_with_status s' p1)))"

definition do_unlock :: "'d handlers \<Rightarrow> 'd srv \<Rightarrow> 'd srv res" where
  "do_unlock h s =
     (if \<not> ok s then Inr s
      else if enable_locking (cl s) = 0 then Inr (report (Some err_locking_disabled) s)
      else if locked (cl s) = 0 then Inr (report (Some err_already_unlocked) s)
      else case h_unlock h of
        None \<Rightarrow> Inl Null_call
      | Some f \<Rightarrow>
          (case f (dev s) of (d, e) \<Rightarrow>
             let s' = report e (s\<lparr>dev := d\<rparr>)
             in Inr (if ok s' then s'\<lparr>cl := (cl s')\<lparr>locked := 0\<rparr>\<rparr> else s')))"

definition cmd_unlock :: "'d handlers \<Rightarrow> 'd srv \<Rightarrow> nat \<Rightarrow> 'd step res" where
  "cmd_unlock h s p = and_then (do_unlock h s) (\<lambda>s'. Inr (Reply_with_status s' p))"

definition call_shift :: "'d handlers \<Rightarrow> 32 word \<Rightarrow> nat \<Rightarrow> nat \<Rightarrow> 'd srv \<Rightarrow> 'd srv res" where
  "call_shift h bits p bytes s =
     (if \<not> ok s then Inr s
      else and_then (h_shift_tms_tdi h (dev s) (ucast bits) (drop p (rx_buf (cl s)))
             (drop (p + bytes) (rx_buf (cl s))) (reply_rest s)) (\<lambda>(tdo, d, e).
        Inr (report e (set_reply_rest tdo (s\<lparr>dev := d\<rparr>)))))"

text \<open>\<open>bits + 7\<close> and \<open>bytes * 2\<close> are \<open>unsigned\<close> operations and wrap.\<close>

definition cmd_shift :: "'d handlers \<Rightarrow> 'd srv \<Rightarrow> nat \<Rightarrow> nat \<Rightarrow> 'd step res" where
  "cmd_shift h s cbuf p =
     (if buf_len (cl s) < p + 4 then Inr (Break s True)
      else and_then (get_uint_le (rx_buf (cl s)) p 4) (\<lambda>bits.
        let bytes = (bits + 7) div 8 in
        and_then (ptr_add s (p + 4) (unat (bytes * 2))) (\<lambda>q.
          if buf_len (cl s) < q then need_more s cbuf q
          else
            and_then (call_shift h bits (p + 4) (unat bytes) s) (\<lambda>s1.
            and_then (reply_data (unat bytes) s1) (\<lambda>s2.
              Inr (Reply_with_optional_status s2 q))))))"

definition call_set_tck :: "'d handlers \<Rightarrow> 32 word \<Rightarrow> 'd srv \<Rightarrow> 64 word \<times> 'd srv" where
  "call_set_tck h nsperiod s =
     (if \<not> ok s then (ucast nsperiod, s)
      else case h_set_tck h (dev s) (ucast nsperiod) of
        (res, d, e) \<Rightarrow>
          let s' = report e (s\<lparr>dev := d\<rparr>)
          in (if ok s' then res else ucast nsperiod, s'))"

text \<open>\<open>set_uint_le\<close> takes an \<open>unsigned\<close>: the 64-bit period loses its high half.\<close>

definition cmd_settck :: "'d handlers \<Rightarrow> 'd srv \<Rightarrow> nat \<Rightarrow> 'd step res" where
  "cmd_settck h s p =
     (if buf_len (cl s) < p + 4 then Inr (Break s True)
      else and_then (get_uint_le (rx_buf (cl s)) p 4) (\<lambda>nsperiod.
        case call_set_tck h nsperiod s of (res, s1) \<Rightarrow>
          and_then (set_uint_le (reply_buf (rp s1)) (reply_len (rp s1)) 4 (ucast res)) (\<lambda>b.
            Inr (Reply_with_optional_status
              (s1\<lparr>rp := (rp s1)\<lparr>reply_buf := b, reply_len := u32 (reply_len (rp s1) + 4)\<rparr>\<rparr>) (p + 4)))))"

definition get3_uleb128 ::
    "'d srv \<Rightarrow> nat \<Rightarrow> (64 word \<times> 64 word \<times> 64 word \<times> nat) res" where \<comment> \<open>three in a row\<close>
  "get3_uleb128 s p =
     and_then (get_uleb128 (rx_buf (cl s)) (buf_len (cl s)) p) (\<lambda>(a, p1).
     and_then (get_uleb128 (rx_buf (cl s)) (buf_len (cl s)) p1) (\<lambda>(b, p2).
     and_then (get_uleb128 (rx_buf (cl s)) (buf_len (cl s)) p2) (\<lambda>(c, p3). Inr (a, b, c, p3))))"

definition call_register_shift ::
    "'d handlers \<Rightarrow> bool \<Rightarrow> 32 word \<Rightarrow> 32 word \<Rightarrow> 64 word \<Rightarrow> nat \<Rightarrow> 64 word \<Rightarrow> 64 word \<Rightarrow> 'd srv \<Rightarrow> 'd srv res" where
  "call_register_shift h instruction flags st count p tdibytes tdobytes s =
     (case h_register_shift h of
        None \<Rightarrow> Inl Null_call
      | Some f \<Rightarrow>
         if \<not> ok s then Inr s
         else and_then (f (dev s) instruction flags st count
                (if tdibytes \<noteq> 0 then Some (drop p (rx_buf (cl s))) else None)
                (if tdobytes \<noteq> 0 then Some (reply_rest s) else None)) (\<lambda>(tdo, d, e).
           let s1 = s\<lparr>dev := d\<rparr>
           in Inr (report e (case tdo of Some bs \<Rightarrow> set_reply_rest bs s1 | None \<Rightarrow> s1))))"

definition cmd_register_shift :: "'d handlers \<Rightarrow> 'd srv \<Rightarrow> nat \<Rightarrow> nat \<Rightarrow> 'd step res" where
  "cmd_register_shift h s cbuf p =
     and_then (get3_uleb128 s p) (\<lambda>(flags, st, count, p1).
       let tdibytes = (if flags AND 3 = 0 then (count + 7) div 8 else 0);
           tdobytes = (if flags AND 4 \<noteq> 0 then (count + 7) div 8 else 0)
       in and_then (ptr_add s p1 (unat tdibytes)) (\<lambda>q.
          if buf_len (cl s) < q then need_more s cbuf q
          else
            and_then (call_register_shift h (rx_buf (cl s) ! cbuf = of_char (CHR ''i''))
              (ucast flags) (ucast st) count p1 tdibytes tdobytes s) (\<lambda>s1.
            and_then (reply_data (unat tdobytes) s1) (\<lambda>s2. Inr (Reply_with_status s2 q)))))"

definition call_state :: "'d handlers \<Rightarrow> 32 word \<Rightarrow> 32 word \<Rightarrow> 64 word \<Rightarrow> 'd srv \<Rightarrow> 'd srv res" where
  "call_state h flags st count s =
     (case h_state h of
        None \<Rightarrow> Inl Null_call
      | Some f \<Rightarrow>
         if \<not> ok s then Inr s
         else case f (dev s) flags st count of (d, e) \<Rightarrow> Inr (report e (s\<lparr>dev := d\<rparr>)))"

definition cmd_state :: "'d handlers \<Rightarrow> 'd srv \<Rightarrow> nat \<Rightarrow> nat \<Rightarrow> 'd step res" where
  "cmd_state h s cbuf p =
     and_then (get3_uleb128 s p) (\<lambda>(flags, st, count, p1).
       if buf_len (cl s) < p1 then need_more s cbuf p1
       else and_then (call_state h (ucast flags) (ucast st) count s) (\<lambda>s1.
         Inr (Reply_with_status s1 p1)))"

definition call_mrd :: "'d handlers \<Rightarrow> 32 word \<Rightarrow> 64 word \<Rightarrow> 64 word \<Rightarrow> 'd srv \<Rightarrow> 'd srv res" where
  "call_mrd h flags addr num_bytes s =
     (case h_mrd h of
        None \<Rightarrow> Inl Null_call
      | Some f \<Rightarrow>
         if \<not> ok s then Inr s
         else and_then (f (dev s) flags addr num_bytes (reply_rest s)) (\<lambda>(bs, d, e).
           Inr (report e (set_reply_rest bs (s\<lparr>dev := d\<rparr>)))))"

definition cmd_mrd :: "'d handlers \<Rightarrow> 'd srv \<Rightarrow> nat \<Rightarrow> nat \<Rightarrow> 'd step res" where
  "cmd_mrd h s cbuf p =
     and_then (get3_uleb128 s p) (\<lambda>(flags, addr, num_bytes, p1).
       if buf_len (cl s) < p1 then need_more s cbuf p1
       else and_then (call_mrd h (ucast flags) addr num_bytes s) (\<lambda>s1.
            and_then (reply_data (unat num_bytes) s1) (\<lambda>s2. Inr (Reply_with_status s2 p1))))"

definition call_mwr :: "'d handlers \<Rightarrow> 32 word \<Rightarrow> 64 word \<Rightarrow> 64 word \<Rightarrow> nat \<Rightarrow> 'd srv \<Rightarrow> 'd srv res" where
  "call_mwr h flags addr num_bytes p s =
     (case h_mwr h of
        None \<Rightarrow> Inl Null_call
      | Some f \<Rightarrow>
         if \<not> ok s then Inr s
         else and_then (f (dev s) flags addr num_bytes (drop p (rx_buf (cl s)))) (\<lambda>(d, e).
           Inr (report e (s\<lparr>dev := d\<rparr>))))"

definition cmd_mwr :: "'d handlers \<Rightarrow> 'd srv \<Rightarrow> nat \<Rightarrow> nat \<Rightarrow> 'd step res" where
  "cmd_mwr h s cbuf p =
     and_then (get3_uleb128 s p) (\<lambda>(flags, addr, num_bytes, p1).
     and_then (ptr_add s p1 (unat num_bytes)) (\<lambda>q.
       if buf_len (cl s) < q then need_more s cbuf q
       else and_then (call_mwr h (ucast flags) addr num_bytes p1 s) (\<lambda>s1.
         Inr (Reply_with_status s1 q))))"

section \<open>Dispatch\<close>

text \<open>
  \<open>while (p < e && *p != ':') p++;\<close> and the length test and \<open>memcmp\<close> against a command
  name; \<open>hdr\<close> is \<open>cbuf[0..len)\<close>, the colon included.
\<close>

function find_colon :: "byte list \<Rightarrow> nat \<Rightarrow> nat \<Rightarrow> nat res" where
  "find_colon buf e p =
     (if p < e then and_then (read_at buf p) (\<lambda>b.
        if b \<noteq> of_char (CHR '':'') then find_colon buf e (p + 1) else Inr p)
      else Inr p)"
  by pat_completeness auto
termination
  by (relation "measure (\<lambda>(buf, e, p). e - p)") auto

declare find_colon.simps [simp del]

definition dispatch :: "'d handlers \<Rightarrow> 'd srv \<Rightarrow> nat \<Rightarrow> nat \<Rightarrow> byte list \<Rightarrow> 'd step res" where
  "dispatch h s cbuf p hdr =
     (if hdr = bytes_of ''getinfo:'' then cmd_getinfo s p
      else if hdr = bytes_of ''capabilities:'' then cmd_capabilities h s p
      else if hdr = bytes_of ''configure:'' then cmd_configure h s cbuf p
      else if hdr = bytes_of ''error:'' then cmd_error s p
      else if hdr = bytes_of ''lock:'' then cmd_lock h s cbuf p
      else if hdr = bytes_of ''unlock:'' then cmd_unlock h s p
      else if hdr = bytes_of ''shift:'' then cmd_shift h s cbuf p
      else if hdr = bytes_of ''settck:'' then cmd_settck h s p
      else if (hdr = bytes_of ''irshift:'' \<or> hdr = bytes_of ''drshift:'') \<and> h_register_shift h \<noteq> None
        then cmd_register_shift h s cbuf p
      else if hdr = bytes_of ''state:'' \<and> h_state h \<noteq> None then cmd_state h s cbuf p
      else if hdr = bytes_of ''mrd:'' \<and> h_mrd h \<noteq> None then cmd_mrd h s cbuf p
      else if hdr = bytes_of ''mwr:'' \<and> h_mwr h \<noteq> None then cmd_mwr h s cbuf p
      else Inr (Protocol_error s))"

definition one_command :: "'d handlers \<Rightarrow> 'd srv \<Rightarrow> nat \<Rightarrow> 'd step res" where
  "one_command h s cbuf =
     (let e = min (cbuf + 30) (buf_len (cl s)) in
      and_then (find_colon (rx_buf (cl s)) e cbuf) (\<lambda>p.
        if e \<le> p then
          Inr (if 30 \<le> p - cbuf then Protocol_error s else Break s True)
        else dispatch h s cbuf (p + 1) (take (p + 1 - cbuf) (drop cbuf (rx_buf (cl s))))))"

text \<open>The labels \<open>reply_with_optional_status\<close>, \<open>reply_with_status\<close> and \<open>reply\<close>.\<close>

definition with_status :: "'d srv \<Rightarrow> 'd srv res" where
  "with_status s = and_then (reply_status (pending_error (cl s)) (rp s)) (\<lambda>r. Inr (s\<lparr>rp := r\<rparr>))"

datatype 'd loop_end =
    Next "'d srv" nat
  | Broke "'d srv" nat bool
  | Errored "'d srv"

definition finish :: "nat \<Rightarrow> 'd step \<Rightarrow> 'd loop_end res" where
  "finish cbuf st =
     (case st of
        Reply s p \<Rightarrow> Inr (Next s p)
      | Reply_with_status s p \<Rightarrow> and_then (with_status s) (\<lambda>s'. Inr (Next s' p))
      | Reply_with_optional_status s p \<Rightarrow>
          if enable_status (cl s) = 0 then Inr (Next s p)
          else and_then (with_status s) (\<lambda>s'. Inr (Next s' p))
      | Break s fill \<Rightarrow> Inr (Broke s cbuf fill)
      | Protocol_error s \<Rightarrow> Inr (Errored s))"

definition iteration :: "'d handlers \<Rightarrow> 'd srv \<Rightarrow> nat \<Rightarrow> 'd loop_end res" where
  "iteration h s cbuf = and_then (one_command h s cbuf) (finish cbuf)"

section \<open>Progress of the command loop\<close>

definition client_frame :: "client \<Rightarrow> client \<Rightarrow> bool" where
  "client_frame c c' \<longleftrightarrow>
     buf_len c' = buf_len c \<and> buf_max c' = buf_max c \<and> buf_addr c' = buf_addr c \<and>
     length (rx_buf c') = length (rx_buf c)"

lemma client_frame_refl [simp]: "client_frame c c"
  by (simp add: client_frame_def)

lemma client_frame_trans: "client_frame a b \<Longrightarrow> client_frame b c \<Longrightarrow> client_frame a c"
  by (simp add: client_frame_def)

text \<open>A command that jumps to a reply label has consumed bytes, and no more than there are.\<close>

definition step_ok :: "nat \<Rightarrow> 'd srv \<Rightarrow> 'd step \<Rightarrow> bool" where
  "step_ok cbuf s st \<longleftrightarrow>
     (case st of
        Reply s' p \<Rightarrow> client_frame (cl s) (cl s') \<and> cbuf < p \<and> p \<le> buf_len (cl s)
      | Reply_with_status s' p \<Rightarrow> client_frame (cl s) (cl s') \<and> cbuf < p \<and> p \<le> buf_len (cl s)
      | Reply_with_optional_status s' p \<Rightarrow> client_frame (cl s) (cl s') \<and> cbuf < p \<and> p \<le> buf_len (cl s)
      | Break s' fill \<Rightarrow> s' = s
      | Protocol_error s' \<Rightarrow> s' = s)"

lemma client_frame_set_error [simp]: "client_frame c (set_error m c') \<longleftrightarrow> client_frame c c'"
  by (simp add: client_frame_def set_error_def)

lemma client_frame_locked [simp]: "client_frame c (c'\<lparr>locked := x\<rparr>) \<longleftrightarrow> client_frame c c'"
  by (simp add: client_frame_def)

lemma report_frame [simp]:
  "client_frame c (cl (report e s)) \<longleftrightarrow> client_frame c (cl s)"
  "rp (report e s) = rp s" "dev (report e s) = dev s"
  by (simp_all add: report_def split: option.splits)

lemma set_reply_rest_frame [simp]: "cl (set_reply_rest bs s) = cl s" "dev (set_reply_rest bs s) = dev s"
  by (simp_all add: set_reply_rest_def)

lemma reply_data_frame [frame_dests]: "reply_data n s = Inr s' \<Longrightarrow> cl s' = cl s \<and> dev s' = dev s"
  by (auto simp: reply_data_def res_simps)

lemma call_frame [frame_dests]:
  "call_shift h bits p bytes s = Inr s1 \<Longrightarrow> client_frame (cl s) (cl s1)"
  "call_register_shift h i flags st count p a b s = Inr s1 \<Longrightarrow> client_frame (cl s) (cl s1)"
  "call_state h flags st count s = Inr s1 \<Longrightarrow> client_frame (cl s) (cl s1)"
  "call_mrd h flags addr n s = Inr s1 \<Longrightarrow> client_frame (cl s) (cl s1)"
  "call_mwr h flags addr n p s = Inr s1 \<Longrightarrow> client_frame (cl s) (cl s1)"
  "do_lock h t s = Inr s1 \<Longrightarrow> client_frame (cl s) (cl s1)"
  "do_unlock h s = Inr s1 \<Longrightarrow> client_frame (cl s) (cl s1)"
  by (auto simp: call_shift_def call_register_shift_def call_state_def call_mrd_def call_mwr_def
      do_lock_def do_unlock_def and_then_eq_Inr Let_def split: if_split_asm option.split_asm prod.split_asm)

lemma call_set_tck_frame: "client_frame (cl s) (cl (snd (call_set_tck h n s)))"
  by (simp add: call_set_tck_def Let_def split: prod.splits)

lemma get3_uleb128_bounds:
  assumes "get3_uleb128 s p = Inr (a, b, c, p')"
  shows "p < p'"
  using assms by (auto simp: get3_uleb128_def res_simps dest!: get_uleb128_bounds)

lemma need_more_frame [frame_dests]: "need_more s cbuf q = Inr st \<Longrightarrow> st = Break s True"
  by (auto simp: need_more_def res_simps)

lemma ptr_add_frame [frame_dests]: "ptr_add s p n = Inr q \<Longrightarrow> q = p + n"
  by (simp add: ptr_add_def split: if_splits)

lemma config_loop_client_frame:
  assumes "config_loop can_lock b s c = Inr (b', c')"
  shows "client_frame c c' \<and> rx_buf c' = rx_buf c \<and> locked c' = locked c \<and> length b' = length b"
proof -
  have "(client_frame c c' \<and> rx_buf c' = rx_buf c \<and> locked c' = locked c) \<and> length b' = length b"
    using assms
    by (rule config_loop_keeps)
      (auto simp: config_apply_def client_frame_def set_error_def split: if_splits)
  then show ?thesis by simp
qed

lemma step_ok_simple:
  assumes "cbuf < p" "p \<le> buf_len (cl s)"
  shows "cmd_getinfo s p = Inr st \<Longrightarrow> step_ok cbuf s st"
    and "cmd_capabilities h s p = Inr st \<Longrightarrow> step_ok cbuf s st"
    and "cmd_error s p = Inr st \<Longrightarrow> step_ok cbuf s st"
    and "cmd_unlock h s p = Inr st \<Longrightarrow> step_ok cbuf s st"
  using assms
  by (auto simp: cmd_getinfo_def cmd_capabilities_def cmd_error_def cmd_unlock_def res_simps Let_def
      step_ok_def client_frame_def[of c "c\<lparr>pending_error := e\<rparr>" for c e] dest: call_frame)

lemma step_ok_lock:
  assumes "cbuf < p" "cmd_lock h s cbuf p = Inr st"
  shows "step_ok cbuf s st"
  using assms
  by (auto simp: cmd_lock_def and_then_eq_Inr step_ok_def split: if_splits
      dest!: need_more_frame call_frame get_uleb128_bounds)

lemma step_ok_state_mem:
  assumes "cbuf < p"
  shows "cmd_state h s cbuf p = Inr st \<Longrightarrow> step_ok cbuf s st"
    and "cmd_mrd h s cbuf p = Inr st \<Longrightarrow> step_ok cbuf s st"
  using assms
  by (auto simp: cmd_state_def cmd_mrd_def and_then_eq_Inr step_ok_def split: if_splits
      dest!: need_more_frame call_frame get3_uleb128_bounds reply_data_frame)

lemma step_ok_mwr:
  assumes "cbuf < p"
  shows "cmd_mwr h s cbuf p = Inr st \<Longrightarrow> step_ok cbuf s st"
    and "cmd_register_shift h s cbuf p = Inr st \<Longrightarrow> step_ok cbuf s st"
  using assms
  by (auto simp: cmd_mwr_def cmd_register_shift_def and_then_eq_Inr Let_def step_ok_def split: if_split_asm
      dest!: need_more_frame call_frame get3_uleb128_bounds reply_data_frame ptr_add_frame)

lemma step_ok_shift:
  assumes "cbuf < p" "cmd_shift h s cbuf p = Inr st"
  shows "step_ok cbuf s st"
  using assms
  by (auto simp: cmd_shift_def and_then_eq_Inr Let_def step_ok_def split: if_split_asm
      dest!: need_more_frame call_frame reply_data_frame ptr_add_frame)

lemma step_ok_settck:
  assumes "cbuf < p" "cmd_settck h s p = Inr st"
  shows "step_ok cbuf s st"
proof (cases "buf_len (cl s) < p + 4")
  case True
  with assms show ?thesis by (auto simp: cmd_settck_def step_ok_def)
next
  case False
  with assms(2) obtain n b where
    "st = Reply_with_optional_status
       ((snd (call_set_tck h n s))\<lparr>rp := (rp (snd (call_set_tck h n s)))\<lparr>reply_buf := b,
          reply_len := u32 (reply_len (rp (snd (call_set_tck h n s))) + 4)\<rparr>\<rparr>) (p + 4)"
    by (auto simp: cmd_settck_def and_then_eq_Inr case_prod_beta)
  with False assms(1) call_set_tck_frame [of s h n] show ?thesis by (simp add: step_ok_def)
qed

lemma step_ok_configure:
  assumes "cbuf < p" "cmd_configure h s cbuf p = Inr st"
  shows "step_ok cbuf s st"
  using assms
  by (auto simp: cmd_configure_def and_then_eq_Inr step_ok_def split: if_split_asm
      dest!: get_uleb128_bounds ptr_add_frame config_loop_client_frame length_write_at)
    (auto simp: client_frame_def)

lemma dispatch_cases:
  assumes "dispatch h s cbuf p hdr = Inr st"
  shows "cmd_getinfo s p = Inr st \<or> cmd_capabilities h s p = Inr st \<or>
     cmd_configure h s cbuf p = Inr st \<or> cmd_error s p = Inr st \<or>
     cmd_lock h s cbuf p = Inr st \<or> cmd_unlock h s p = Inr st \<or>
     cmd_shift h s cbuf p = Inr st \<or> cmd_settck h s p = Inr st \<or>
     (cmd_register_shift h s cbuf p = Inr st \<and> h_register_shift h \<noteq> None) \<or>
     (cmd_state h s cbuf p = Inr st \<and> h_state h \<noteq> None) \<or>
     (cmd_mrd h s cbuf p = Inr st \<and> h_mrd h \<noteq> None) \<or>
     (cmd_mwr h s cbuf p = Inr st \<and> h_mwr h \<noteq> None) \<or>
     st = Protocol_error s"
  using assms unfolding dispatch_def
  by (simp only: sum.inject split: if_split_asm) blast+

lemma step_ok_dispatch:
  assumes "cbuf < p" "p \<le> buf_len (cl s)" "dispatch h s cbuf p hdr = Inr st"
  shows "step_ok cbuf s st"
proof -
  have "step_ok cbuf s (Protocol_error s)" by (simp add: step_ok_def)
  then show ?thesis
    using dispatch_cases [OF assms(3)]
    by (elim disjE conjE)
       (blast intro: step_ok_simple [OF assms(1,2)] step_ok_configure [OF assms(1)]
          step_ok_lock [OF assms(1)] step_ok_shift [OF assms(1)] step_ok_settck [OF assms(1)]
          step_ok_mwr [OF assms(1)] step_ok_state_mem [OF assms(1)])+
qed

lemma find_colon_bounds: "find_colon buf e p = Inr q \<Longrightarrow> p \<le> q \<and> (p \<le> e \<longrightarrow> q \<le> e)"
proof (induction buf e p rule: find_colon.induct)
  case (1 buf e p)
  show ?case
  proof (cases "p < e \<and> p < length buf \<and> buf ! p \<noteq> of_char (CHR '':'')")
    case True
    then have "find_colon buf e (p + 1) = Inr q"
      using "1.prems" by (subst (asm) find_colon.simps) simp
    with "1.IH" [OF _ read_at_ok] True show ?thesis by auto
  next
    case False
    with "1.prems" have "q = p"
      by (subst (asm) find_colon.simps) (auto simp: res_simps split: if_split_asm)
    then show ?thesis by simp
  qed
qed

lemma step_ok_one_command:
  assumes "one_command h s cbuf = Inr st"
  shows "step_ok cbuf s st"
proof -
  let ?e = "min (cbuf + 30) (buf_len (cl s))"
  from assms obtain p where p: "find_colon (rx_buf (cl s)) ?e cbuf = Inr p"
    and r: "(if ?e \<le> p then Inr (if 30 \<le> p - cbuf then Protocol_error s else Break s True)
       else dispatch h s cbuf (p + 1) (take (p + 1 - cbuf) (drop cbuf (rx_buf (cl s))))) = Inr st"
    unfolding one_command_def Let_def and_then_eq_Inr by blast
  show ?thesis
  proof (cases "?e \<le> p")
    case True
    with r have "st = (if 30 \<le> p - cbuf then Protocol_error s else Break s True)" by simp
    then show ?thesis by (simp add: step_ok_def)
  next
    case False
    then have "cbuf < p + 1" "p + 1 \<le> buf_len (cl s)" using find_colon_bounds [OF p] by auto
    moreover from False r have
      "dispatch h s cbuf (p + 1) (take (p + 1 - cbuf) (drop cbuf (rx_buf (cl s)))) = Inr st" by simp
    ultimately show ?thesis by (rule step_ok_dispatch)
  qed
qed

lemma with_status_frame: "with_status s = Inr s' \<Longrightarrow> cl s' = cl s \<and> dev s' = dev s"
  by (auto simp: with_status_def res_simps)

text \<open>What an iteration of the loop leaves: fewer unread bytes, or the end of the loop.\<close>

lemma iteration_progress:
  assumes "iteration h s cbuf = Inr r"
  shows "case r of
       Next s' p \<Rightarrow> client_frame (cl s) (cl s') \<and> cbuf < p \<and> p \<le> buf_len (cl s)
     | Broke s' q fill \<Rightarrow> s' = s \<and> q = cbuf
     | Errored s' \<Rightarrow> s' = s"
proof -
  from assms obtain st where st: "one_command h s cbuf = Inr st" and f: "finish cbuf st = Inr r"
    by (auto simp: iteration_def and_then_eq_Inr)
  from step_ok_one_command [OF st] f show ?thesis
    by (auto simp: finish_def step_ok_def and_then_eq_Inr dest!: with_status_frame
        split: step.split_asm if_split_asm)
qed

section \<open>The command loop\<close>

function command_loop :: "'d handlers \<Rightarrow> 'd srv \<Rightarrow> nat \<Rightarrow> 'd loop_end res" where
  "command_loop h s cbuf =
     and_then (iteration h s cbuf) (\<lambda>r.
       case r of
         Next s' p \<Rightarrow> command_loop h s' p
       | Broke s' q fill \<Rightarrow> Inr (Broke s' q fill)
       | Errored s' \<Rightarrow> Inr (Errored s'))"
  by pat_completeness auto
termination
  by (relation "measure (\<lambda>(h, s, cbuf). buf_len (cl s) - cbuf)")
     (auto dest!: iteration_progress simp: client_frame_def)

declare command_loop.simps [simp del]

text \<open>The loop ends only by \<open>break\<close> or \<open>goto error\<close>, at most at the end of the bytes.\<close>

lemma command_loop_end:
  "command_loop h s cbuf = Inr r \<Longrightarrow> cbuf \<le> buf_len (cl s) \<Longrightarrow>
   (\<exists>s' q fill. r = Broke s' q fill \<and> client_frame (cl s) (cl s') \<and> cbuf \<le> q \<and> q \<le> buf_len (cl s)) \<or>
   (\<exists>s'. r = Errored s' \<and> client_frame (cl s) (cl s'))"
proof (induction h s cbuf rule: command_loop.induct)
  case (1 h s cbuf)
  from "1.prems"(1) obtain x where it: "iteration h s cbuf = Inr x"
    and r: "(case x of Next s' p \<Rightarrow> command_loop h s' p
       | Broke s' q fill \<Rightarrow> Inr (Broke s' q fill) | Errored s' \<Rightarrow> Inr (Errored s')) = Inr r"
    by (subst (asm) command_loop.simps) (auto simp: and_then_eq_Inr)
  show ?case
  proof (cases x)
    case (Next s' p)
    with iteration_progress [OF it] have f: "client_frame (cl s) (cl s')" "cbuf < p" "p \<le> buf_len (cl s')"
      by (auto simp: client_frame_def)
    from r Next have "command_loop h s' p = Inr r" by simp
    from "1.IH" [OF it Next this f(3)] f show ?thesis
      by (auto simp: client_frame_def)
  qed (use r iteration_progress [OF it] "1.prems"(2) in auto)
qed

section \<open>A pending error stops the device\<close>

text \<open>The part of the client a command with a pending error leaves alone.\<close>

definition same_conf :: "client \<Rightarrow> client \<Rightarrow> bool" where
  "same_conf c c' \<longleftrightarrow> pending_error c' = pending_error c \<and> enable_locking c' = enable_locking c \<and>
     enable_status c' = enable_status c \<and> locked c' = locked c"

lemma same_conf_refl [simp]: "same_conf c c" "same_conf c (c\<lparr>rx_buf := b\<rparr>)"
  by (simp_all add: same_conf_def)

definition quiet_step :: "'d srv \<Rightarrow> 'd step \<Rightarrow> bool" where
  "quiet_step s st \<longleftrightarrow>
     (case st of
        Reply s' p \<Rightarrow> dev s' = dev s \<and> same_conf (cl s) (cl s')
      | Reply_with_status s' p \<Rightarrow> dev s' = dev s \<and> same_conf (cl s) (cl s')
      | Reply_with_optional_status s' p \<Rightarrow> dev s' = dev s \<and> same_conf (cl s) (cl s')
      | Break s' fill \<Rightarrow> s' = s
      | Protocol_error s' \<Rightarrow> s' = s)"

lemma calls_quiet [simp]:
  assumes "\<not> ok s"
  shows "do_lock h t s = Inr s" "do_unlock h s = Inr s" "call_shift h b p n s = Inr s"
    "call_set_tck h m s = (ucast m, s)"
    "call_register_shift h i f st c q x y s = Inr s' \<longleftrightarrow> h_register_shift h \<noteq> None \<and> s' = s"
    "call_state h f st c s = Inr s' \<longleftrightarrow> h_state h \<noteq> None \<and> s' = s"
    "call_mrd h f a' c s = Inr s' \<longleftrightarrow> h_mrd h \<noteq> None \<and> s' = s"
    "call_mwr h f a' c q s = Inr s' \<longleftrightarrow> h_mwr h \<noteq> None \<and> s' = s"
  using assms
  by (auto simp: do_lock_def do_unlock_def call_shift_def call_set_tck_def call_register_shift_def
      call_state_def call_mrd_def call_mwr_def split: option.split option.split_asm)

lemma config_loop_quiet:
  "config_loop b buf i c = Inr (buf', c') \<Longrightarrow> pending_error c \<noteq> [] \<Longrightarrow> buf' = buf \<and> c' = c"
  by (auto simp: config_loop.simps [of b buf i c] and_then_eq_Inr split: if_split_asm)

lemma commands_quiet:
  assumes "\<not> ok s"
  shows "cmd_getinfo s p = Inr st \<Longrightarrow> quiet_step s st"
    "cmd_capabilities h s p = Inr st \<Longrightarrow> quiet_step s st"
    "cmd_lock h s cbuf p = Inr st \<Longrightarrow> quiet_step s st"
    "cmd_unlock h s p = Inr st \<Longrightarrow> quiet_step s st"
    "cmd_shift h s cbuf p = Inr st \<Longrightarrow> quiet_step s st"
    "cmd_settck h s p = Inr st \<Longrightarrow> quiet_step s st"
    "cmd_register_shift h s cbuf p = Inr st \<Longrightarrow> quiet_step s st"
    "cmd_state h s cbuf p = Inr st \<Longrightarrow> quiet_step s st"
    "cmd_mrd h s cbuf p = Inr st \<Longrightarrow> quiet_step s st"
    "cmd_mwr h s cbuf p = Inr st \<Longrightarrow> quiet_step s st"
  using assms
  by (auto simp: cmd_getinfo_def cmd_capabilities_def cmd_lock_def cmd_unlock_def cmd_shift_def
      cmd_settck_def cmd_register_shift_def cmd_state_def cmd_mrd_def cmd_mwr_def and_then_eq_Inr
      Let_def quiet_step_def split: if_split_asm dest!: reply_data_frame need_more_frame)

lemma configure_quiet:
  assumes "\<not> ok s" "cmd_configure h s cbuf p = Inr st"
  shows "quiet_step s st"
  using assms
  by (auto simp: cmd_configure_def and_then_eq_Inr quiet_step_def ok_def same_conf_def
      split: if_split_asm dest!: config_loop_quiet)

lemma error_cleared:
  "cmd_error s p = Inr st \<Longrightarrow> \<exists>s'. st = Reply s' p \<and> dev s' = dev s \<and> pending_error (cl s') = []"
  by (auto simp: cmd_error_def Let_def and_then_eq_Inr)

lemma dispatch_error_only:
  assumes "dispatch h s cbuf p hdr = Inr st" "\<not> ok s"
  shows "quiet_step s st \<or> hdr = bytes_of ''error:'' \<and> cmd_error s p = Inr st"
proof (cases "hdr = bytes_of ''error:''")
  case True
  with assms(1) show ?thesis by (simp add: dispatch_def bytes_of_def)
next
  case False
  note quiet = commands_quiet [OF assms(2)] configure_quiet [OF assms(2)]
  have pe: "quiet_step s (Protocol_error s)" by (simp add: quiet_step_def)
  from False assms(1) show ?thesis
    unfolding dispatch_def by (simp only: if_False sum.inject split: if_split_asm) (blast intro: quiet pe)+
qed

section \<open>Properties\<close>

text \<open>C7. While an error is pending, no command reaches the device or changes the configuration: every
  command that is answered leaves the device, the configuration and the pending error as they
  were, except \<open>error:\<close>, which reports the error and clears it. This holds for every table of
  callbacks.\<close>

theorem pending_error_stops_device:
  assumes "iteration h s cbuf = Inr (Next s' p)" "pending_error (cl s) \<noteq> []"
  shows "dev s' = dev s \<and>
    (same_conf (cl s) (cl s') \<or>
     pending_error (cl s') = [] \<and> take 6 (drop cbuf (rx_buf (cl s))) = bytes_of ''error:'')"
proof -
  have nok: "\<not> ok s" using assms(2) by (simp add: ok_def)
  from assms(1) obtain st where one: "one_command h s cbuf = Inr st" and f: "finish cbuf st = Inr (Next s' p)"
    by (auto simp: iteration_def and_then_eq_Inr)
  have fin: "dev s' = dev s \<and> same_conf (cl s) (cl s')" if "quiet_step s st"
    using that f by (auto simp: quiet_step_def finish_def and_then_eq_Inr split: step.split_asm if_split_asm
        dest!: with_status_frame)
  let ?e = "min (cbuf + 30) (buf_len (cl s))"
  from one obtain q where q: "find_colon (rx_buf (cl s)) ?e cbuf = Inr q"
    and r: "(if ?e \<le> q then Inr (if 30 \<le> q - cbuf then Protocol_error s else Break s True)
       else dispatch h s cbuf (q + 1) (take (q + 1 - cbuf) (drop cbuf (rx_buf (cl s))))) = Inr st"
    unfolding one_command_def Let_def and_then_eq_Inr by blast
  show ?thesis
  proof (cases "?e \<le> q")
    case True
    with r have "st = (if 30 \<le> q - cbuf then Protocol_error s else Break s True)" by simp
    then have "quiet_step s st" by (simp add: quiet_step_def)
    with fin show ?thesis by blast
  next
    case False
    let ?hdr = "take (q + 1 - cbuf) (drop cbuf (rx_buf (cl s)))"
    from False r have "dispatch h s cbuf (q + 1) ?hdr = Inr st" by simp
    from dispatch_error_only [OF this nok] show ?thesis
    proof (elim disjE conjE)
      assume "quiet_step s st" with fin show ?thesis by blast
    next
      assume hdr: "?hdr = bytes_of ''error:''" and c: "cmd_error s (q + 1) = Inr st"
      from error_cleared [OF c] f have d: "dev s' = dev s" "pending_error (cl s') = []"
        by (auto simp: finish_def)
      have "length ?hdr \<le> q + 1 - cbuf" by simp
      then have "6 \<le> q + 1 - cbuf" by (simp only: hdr) simp
      then have "take 6 (drop cbuf (rx_buf (cl s))) = take 6 ?hdr" by (simp only: take_take min_absorb1)
      also have "take 6 ?hdr = bytes_of ''error:''" unfolding hdr by (simp add: bytes_of_def)
      finally show ?thesis using d by simp
    qed
  qed
qed

text \<open>The loop that gives up after \<open>n\<close> iterations.\<close>

primrec command_loop_for :: "nat \<Rightarrow> 'd handlers \<Rightarrow> 'd srv \<Rightarrow> nat \<Rightarrow> 'd loop_end res option" where
  "command_loop_for 0 h s cbuf = None"
| "command_loop_for (Suc n) h s cbuf =
     (case iteration h s cbuf of
        Inl f \<Rightarrow> Some (Inl f)
      | Inr (Next s' p) \<Rightarrow> command_loop_for n h s' p
      | Inr (Broke s' q fill) \<Rightarrow> Some (Inr (Broke s' q fill))
      | Inr (Errored s') \<Rightarrow> Some (Inr (Errored s')))"

lemma command_loop_for_enough:
  "buf_len (cl s) - cbuf < n \<Longrightarrow> command_loop_for n h s cbuf = Some (command_loop h s cbuf)"
proof (induction n arbitrary: s cbuf)
  case (Suc n)
  show ?case
  proof (cases "iteration h s cbuf")
    case (Inr x)
    show ?thesis
    proof (cases x)
      case (Next s' p)
      with iteration_progress [OF Inr] Suc.prems have "buf_len (cl s') - p < n"
        by (auto simp: client_frame_def)
      from Suc.IH [OF this] Inr Next show ?thesis by (simp add: command_loop.simps [of h s cbuf])
    qed (use Inr in \<open>simp_all add: command_loop.simps [of h s cbuf]\<close>)
  qed (simp add: command_loop.simps [of h s cbuf])
qed simp

text \<open>C19. The command loop always ends, whatever the bytes and the callbacks are: with \<open>n\<close> received
  bytes the loop that gives up after \<open>n + 1\<close> iterations never gives up, and has the result of the
  loop. That result is a fault of a callback or of a command, a \<open>break\<close> at a place inside the received
  bytes, or the protocol error; the sizes and the place of the receive buffer never change.\<close>

theorem command_loop_ends:
  "command_loop_for (Suc (buf_len (cl s))) h s 0 = Some (command_loop h s 0) \<and>
   (case command_loop h s 0 of
      Inl f \<Rightarrow> True
    | Inr (Next s' p) \<Rightarrow> False
    | Inr (Broke s' q fill) \<Rightarrow> client_frame (cl s) (cl s') \<and> q \<le> buf_len (cl s)
    | Inr (Errored s') \<Rightarrow> client_frame (cl s) (cl s'))"
  using command_loop_for_enough [of s 0 "Suc (buf_len (cl s))" h] command_loop_end [of h s 0]
  by (auto split: sum.split loop_end.split)

definition sample_handlers :: "unit handlers" where
  "sample_handlers = \<lparr>h_open_port = (\<lambda>d. Inr (0, d, None)), h_close_port = id,
     h_set_tck = (\<lambda>d n. (n, d, None)), h_shift_tms_tdi = (\<lambda>d n tms tdi tdo. Inr (tdo, d, None)),
     h_lock = Some (\<lambda>d t. (d, None)), h_unlock = Some (\<lambda>d. (d, None)), h_register_shift = None,
     h_state = None, h_flush = None, h_mrd = None, h_mwr = None\<rparr>"

definition sample_srv :: "byte list \<Rightarrow> unit srv" where
  "sample_srv cmd = \<lparr>cl = \<lparr>enable_locking = 1, enable_status = 0, pending_error = [0x41],
     buf_len = length cmd, buf_max = 16, rx_buf = cmd @ replicate (16 - length cmd) 0, buf_addr = 4096, locked = 1\<rparr>,
     rp = \<lparr>reply_buf = [9, 9], reply_max = 2, reply_len = 0\<rparr>, dev = ()\<rparr>"

lemma sample_unlock: "iteration sample_handlers (sample_srv (bytes_of ''unlock:'')) 0 =
   Inr (Next ((sample_srv (bytes_of ''unlock:''))\<lparr>rp := \<lparr>reply_buf = [1, 9], reply_max = 2, reply_len = 1\<rparr>\<rparr>) 7)"
  by (simp add: iteration_def one_command_def Let_def find_colon.simps dispatch_def cmd_unlock_def
      do_unlock_def finish_def with_status_def reply_status_def reply_put_def write_at_def max_packet_len_def
      sample_srv_def ok_def bytes_of_def)

theorem pending_error_stops_device_witness:
  "same_conf (cl (sample_srv (bytes_of ''unlock:'')))
     (cl ((sample_srv (bytes_of ''unlock:''))\<lparr>rp := \<lparr>reply_buf = [1, 9], reply_max = 2, reply_len = 1\<rparr>\<rparr>))"
  using pending_error_stops_device [OF sample_unlock] by (simp add: sample_srv_def same_conf_def)

theorem command_loop_ends_witness:
  "command_loop_for 8 sample_handlers (sample_srv (bytes_of ''unlock:'')) 0 =
     Some (Inr (Broke ((sample_srv (bytes_of ''unlock:''))\<lparr>rp := \<lparr>reply_buf = [1, 9], reply_max = 2, reply_len = 1\<rparr>\<rparr>) 7 True))"
proof -
  let ?s = "sample_srv (bytes_of ''unlock:'')"
  let ?s' = "?s\<lparr>rp := \<lparr>reply_buf = [1, 9], reply_max = 2, reply_len = 1\<rparr>\<rparr>"
  have "iteration sample_handlers ?s' 7 = Inr (Broke ?s' 7 True)"
    by (simp add: iteration_def one_command_def Let_def find_colon.simps finish_def sample_srv_def bytes_of_def)
  then have "command_loop sample_handlers ?s 0 = Inr (Broke ?s' 7 True)"
    by (simp add: command_loop.simps [of sample_handlers] sample_unlock)
  moreover have "Suc (buf_len (cl ?s)) = 8" by (simp add: sample_srv_def bytes_of_def)
  ultimately show ?thesis using command_loop_ends [of ?s sample_handlers] by simp
qed

end
