(* ===== verification/Sock.thy ===== *)
theory Sock
  imports Xvc_Prelude
begin

text \<open>
  A connected TCP socket as the servers use it. \<open>rx\<close> lists the segments that will still
  arrive, in order; when they are used up, \<open>recv\<close> returns 0 (the peer closed) or, with
  \<open>rx_error\<close>, fails. A segment that does not fit is delivered in pieces. \<open>sends_ok\<close> is how many
  more sends succeed; each takes the whole buffer, as a blocking socket does.
\<close>

record sock =
  rx :: "byte list list"
  rx_error :: bool
  tx :: "byte list list"
  sends_ok :: nat

datatype received = Got "byte list" | Eof | Recv_error

definition sock_recv :: "nat \<Rightarrow> sock \<Rightarrow> received \<times> sock" where
  "sock_recv n k =
     (if n = 0 then (Eof, k)
      else case rx k of
        [] \<Rightarrow> (if rx_error k then Recv_error else Eof, k)
      | seg # segs \<Rightarrow>
          if seg = [] then (Eof, k\<lparr>rx := segs\<rparr>)
          else (Got (take n seg),
                k\<lparr>rx := (if length seg \<le> n then segs else drop n seg # segs)\<rparr>))"

definition sock_send :: "byte list \<Rightarrow> sock \<Rightarrow> bool \<times> sock" where
  "sock_send bs k =
     (if sends_ok k = 0 then (False, k)
      else (True, k\<lparr>tx := tx k @ [bs], sends_ok := sends_ok k - 1\<rparr>))"

definition rx_total :: "sock \<Rightarrow> nat" where
  "rx_total k = sum_list (map length (rx k))"

lemma sock_recv_Got:
  assumes "sock_recv n k = (Got bs, k')"
  shows "0 < length bs \<and> length bs \<le> n \<and> rx_total k = rx_total k' + length bs \<and>
    concat (rx k) = bs @ concat (rx k') \<and> tx k' = tx k \<and> sends_ok k' = sends_ok k \<and>
    rx_error k' = rx_error k"
  using assms by (auto simp: sock_recv_def rx_total_def split: if_split_asm list.split_asm)

lemma sock_send_frame:
  assumes "sock_send bs k = (b, k')"
  shows "rx k' = rx k \<and> rx_error k' = rx_error k \<and> rx_total k' = rx_total k \<and>
    (if b then tx k' = tx k @ [bs] else k' = k)"
  using assms by (auto simp: sock_send_def rx_total_def split: if_split_asm)

end
