(* ===== verification/Mem_Session.thy ===== *)
theory Mem_Session
  imports Mem_Server Sock
begin

text \<open>
  The rest of \<open>read_packet\<close> and of \<open>xvcserver_start\<close> in \<open>mem/versal/src/xvcserver.c\<close>:
  what follows the command loop (flush, \<open>send_packet\<close>, \<open>consume_packet\<close>, \<open>recv\<close> and the jumps
  to \<open>read_more\<close>), and the life of a connection.
\<close>

section \<open>After the command loop\<close>

datatype ended = Returned | Terminated \<comment> \<open>\<open>return\<close>, or through the label \<open>error\<close>\<close>

datatype 'd turn = Read_more "'d srv" sock | Finished "'d srv" sock ended

definition do_flush :: "'d handlers \<Rightarrow> 'd srv \<Rightarrow> int \<times> 'd srv" where
  "do_flush h s =
     (case h_flush h of
        None \<Rightarrow> (0, s)
      | Some f \<Rightarrow>
          (case f (dev s) (reply_buf (rp s)) of
             (rv, b, d, e) \<Rightarrow> (rv, report e (s\<lparr>dev := d, rp := (rp s)\<lparr>reply_buf := b\<rparr>\<rparr>))))"

definition send_packet :: "'d srv \<Rightarrow> sock \<Rightarrow> (bool \<times> sock) res" where
  "send_packet s k =
     and_then (read_range (reply_buf (rp s)) 0 (reply_len (rp s))) (\<lambda>bs. Inr (sock_send bs k))"

definition consume_packet :: "nat \<Rightarrow> 'd srv \<Rightarrow> 'd srv res" where
  "consume_packet len s =
     and_then (ensure (len \<le> buf_len (cl s)) Assert_failed) (\<lambda>_.
     let n = buf_len (cl s) - len in
     and_then (read_range (rx_buf (cl s)) len n) (\<lambda>bs.
     and_then (write_at (rx_buf (cl s)) 0 bs) (\<lambda>b.
       Inr (s\<lparr>cl := (cl s)\<lparr>rx_buf := b, buf_len := n\<rparr>\<rparr>))))"

definition receive :: "'d srv \<Rightarrow> sock \<Rightarrow> 'd turn res" where
  "receive s k =
     (case sock_recv (buf_max (cl s) - buf_len (cl s)) k of
        (Got bs, k') \<Rightarrow>
          and_then (write_at (rx_buf (cl s)) (buf_len (cl s)) bs) (\<lambda>b.
            Inr (Read_more (s\<lparr>cl := (cl s)\<lparr>rx_buf := b, buf_len := buf_len (cl s) + length bs\<rparr>\<rparr>) k'))
      | (Eof, k') \<Rightarrow> Inr (Finished s k' Returned)
      | (Recv_error, k') \<Rightarrow> Inr (Finished s k' Terminated))"

definition after_commands :: "'d handlers \<Rightarrow> 'd loop_end \<Rightarrow> sock \<Rightarrow> 'd turn res" where
  "after_commands h r k =
     (case r of
        Errored s \<Rightarrow> Inr (Finished s k Terminated)
      | Next s cbuf \<Rightarrow> Inl Hang \<comment> \<open>never the end of the loop\<close>
      | Broke s cbuf fill \<Rightarrow>
          if 0 < cbuf then
            (case do_flush h s of (rv, s1) \<Rightarrow>
               if rv < 0 then Inr (Finished s1 k Terminated)
               else and_then (send_packet s1 k) (\<lambda>(sent, k1).
                 if \<not> sent then Inr (Finished s1 k1 Terminated)
                 else and_then (consume_packet cbuf s1) (\<lambda>s2.
                   if buf_len (cl s2) \<noteq> 0 \<and> \<not> fill then Inr (Read_more s2 k1)
                   else receive s2 k1)))
          else receive s k)"

text \<open>From the label \<open>read_more\<close> to the next jump to it, or to the end.\<close>

definition turn :: "'d handlers \<Rightarrow> 'd srv \<Rightarrow> sock \<Rightarrow> 'd turn res" where
  "turn h s k =
     and_then (command_loop h (s\<lparr>rp := (rp s)\<lparr>reply_len := 0\<rparr>\<rparr>) 0) (\<lambda>r. after_commands h r k)"

lemma do_flush_frame: "client_frame c (cl (snd (do_flush h s))) \<longleftrightarrow> client_frame c (cl s)"
  by (simp add: do_flush_def split: option.split prod.split)

lemma send_packet_frame:
  "send_packet s k = Inr (b, k') \<Longrightarrow> rx k' = rx k \<and> rx_error k' = rx_error k \<and> rx_total k' = rx_total k"
  by (auto simp: send_packet_def and_then_eq_Inr dest!: sock_send_frame)

lemma consume_packet_frame:
  assumes "consume_packet len s = Inr s'"
  shows "len \<le> buf_len (cl s)" "buf_len (cl s') = buf_len (cl s) - len"
    "buf_max (cl s') = buf_max (cl s)" "buf_addr (cl s') = buf_addr (cl s)"
    "length (rx_buf (cl s')) = length (rx_buf (cl s))" "rp s' = rp s" "dev s' = dev s"
  using assms
  by (auto simp: consume_packet_def res_simps Let_def dest!: length_write_at)

lemma receive_progress:
  assumes "receive s k = Inr (Read_more s' k')"
  shows "rx_total k' < rx_total k"
  using assms
  by (auto simp: receive_def and_then_eq_Inr dest!: sock_recv_Got
      split: prod.split_asm received.split_asm)

lemma turn_progress:
  assumes "turn h s k = Inr (Read_more s' k')"
  shows "rx_total k' < rx_total k \<or>
    rx_total k' = rx_total k \<and> buf_len (cl s') < buf_len (cl s)"
proof -
  from assms obtain r where r: "command_loop h (s\<lparr>rp := (rp s)\<lparr>reply_len := 0\<rparr>\<rparr>) 0 = Inr r"
    and a: "after_commands h r k = Inr (Read_more s' k')"
    by (auto simp: turn_def and_then_eq_Inr)
  from command_loop_end [OF r] a obtain s1 cbuf fill where
    r1: "r = Broke s1 cbuf fill" and f1: "client_frame (cl s) (cl s1)"
    by (auto simp: after_commands_def)
  show ?thesis
  proof (cases "0 < cbuf")
    case False
    with a r1 have "receive s1 k = Inr (Read_more s' k')" by (simp add: after_commands_def)
    then show ?thesis by (blast dest: receive_progress)
  next
    case True
    obtain rv s2 where fl: "do_flush h s1 = (rv, s2)" by force
    with a r1 True obtain k1 s3 where k1: "send_packet s2 k = Inr (True, k1)"
      and s3: "consume_packet cbuf s2 = Inr s3"
      and e: "(if buf_len (cl s3) \<noteq> 0 \<and> \<not> fill then Inr (Read_more s3 k1) else receive s3 k1) =
                Inr (Read_more s' k')"
      by (auto simp: after_commands_def and_then_eq_Inr split: if_split_asm)
    have "client_frame (cl s) (cl s2)" using do_flush_frame [of "cl s" h s1] f1 fl by simp
    then have "buf_len (cl s3) < buf_len (cl s)"
      using consume_packet_frame(1,2) [OF s3] True by (simp add: client_frame_def)
    then show ?thesis
      using e receive_progress send_packet_frame [OF k1] by (fastforce split: if_split_asm)
  qed
qed

function read_more :: "'d handlers \<Rightarrow> 'd srv \<Rightarrow> sock \<Rightarrow> ('d srv \<times> sock \<times> ended) res" where
  "read_more h s k =
     and_then (turn h s k) (\<lambda>t.
       case t of
         Read_more s' k' \<Rightarrow> read_more h s' k'
       | Finished s' k' e \<Rightarrow> Inr (s', k', e))"
  by pat_completeness auto
termination
  by (relation "measures [\<lambda>(h, s, k). rx_total k, \<lambda>(h, s, k). buf_len (cl s)]")
     (auto dest!: turn_progress)

declare read_more.simps [simp del]

definition read_packet ::
    "'d handlers \<Rightarrow> (nat \<Rightarrow> byte) \<Rightarrow> 'd srv \<Rightarrow> sock \<Rightarrow> ('d srv \<times> sock \<times> ended) res" where
  "read_packet h heap s k =
     and_then (reply_buf_size heap (word_of_nat max_packet_len) (rp s)) (\<lambda>r.
       read_more h (s\<lparr>rp := r\<rparr>) k)"

end
