(* ===== verification/Mem_Start.thy ===== *)
theory Mem_Start
  imports Mem_Session
begin

text \<open>
  \<open>xvcserver_start\<close> of \<open>mem/versal/src/xvcserver.c\<close>: the url, the listening socket
  (\<open>open_server\<close>) and the accept loop. What the operating system answers is data: the results of
  the socket calls per address, and the connections \<open>accept\<close> will return before it fails.
  Open descriptors are counted.
\<close>

section \<open>The url\<close>

definition err_transport_type :: int where "err_transport_type = 3"
definition err_url_field :: int where "err_url_field = 4"
definition err_socket_creation :: int where "err_socket_creation = 5"
definition err_gethostname :: int where "err_gethostname = 6"

text \<open>\<open>(t[0] == 'T' || t[0] == 't') && ... && t[3] == '\0'\<close>\<close>

definition is_tcp :: "byte list \<Rightarrow> nat \<Rightarrow> bool res" where
  "is_tcp buf t =
     and_then (read_at buf t) (\<lambda>b0. if b0 \<noteq> 0x54 \<and> b0 \<noteq> 0x74 then Inr False else
     and_then (read_at buf (t + 1)) (\<lambda>b1. if b1 \<noteq> 0x43 \<and> b1 \<noteq> 0x63 then Inr False else
     and_then (read_at buf (t + 2)) (\<lambda>b2. if b2 \<noteq> 0x50 \<and> b2 \<noteq> 0x70 then Inr False else
     and_then (read_at buf (t + 3)) (\<lambda>b3. Inr (b3 = 0)))))"

text \<open>The strings host and port, or the error code the function returns.\<close>

definition url_port :: "byte list \<Rightarrow> nat \<Rightarrow> nat \<Rightarrow> (int + byte list \<times> byte list) res" where
  "url_port buf host p =
     and_then (get_field buf p 0x3A) (\<lambda>(port, buf1, p1).
     and_then (read_at buf1 p1) (\<lambda>b.
       if b \<noteq> 0 then Inr (Inl err_url_field)
       else and_then (string_at buf1 host) (\<lambda>hs.
            and_then (string_at buf1 port) (\<lambda>ps. Inr (Inr (hs, ps))))))"

definition parse_url :: "byte list \<Rightarrow> (int + byte list \<times> byte list) res" where
  "parse_url url =
     and_then (get_field (url @ [0]) 0 0x3A) (\<lambda>(transport, buf1, p1).
     and_then (is_tcp buf1 transport) (\<lambda>tcp.
       if tcp then and_then (get_field buf1 p1 0x3A) (\<lambda>(host, buf2, p2). url_port buf2 host p2)
       else and_then (strchr_at buf1 p1 0x3A) (\<lambda>colon.
         if colon = None then url_port buf1 transport p1
         else Inr (Inl err_transport_type))))"

section \<open>The listening socket\<close>

record addr_result = \<comment> \<open>per entry of \<open>getaddrinfo\<close>'s list\<close>
  a_socket :: bool
  a_reuseaddr :: bool
  a_bind :: bool
  a_listen :: bool

fun open_each :: "addr_result list \<Rightarrow> int \<Rightarrow> bool \<times> int" where
  "open_each [] fds = (False, fds)"
| "open_each (a # as) fds =
     (if \<not> a_socket a then open_each as fds
      else let fds1 = fds + 1;
               e1 = (\<not> a_reuseaddr a);
               e2 = (e1 \<or> \<not> a_bind a);
               e3 = (e2 \<or> \<not> a_listen a)
           in if \<not> e3 then (True, fds1) else open_each as (fds1 - 1))"

record 'd connection =
  peer_ok :: bool         \<comment> \<open>\<open>getpeername\<close> succeeds\<close>
  c_block :: "byte list"  \<comment> \<open>what \<open>malloc(c->buf_max)\<close> returns: its content\<close>
  c_addr :: nat           \<comment> \<open>and its address\<close>
  c_sock :: sock

record net =
  gai_fails :: bool
  addrs :: "addr_result list"
  hostname_ok :: bool

definition open_server :: "net \<Rightarrow> int \<Rightarrow> bool \<times> int" where
  "open_server w fds = (if gai_fails w then (False, fds) else open_each (addrs w) fds)"

section \<open>Connections\<close>

datatype outcome = Peer_failed | Open_failed | Served sock ended

definition client0 :: "nat \<Rightarrow> byte list \<Rightarrow> client" where \<comment> \<open>after \<open>memset\<close> and \<open>malloc\<close>\<close>
  "client0 addr block = \<lparr>enable_locking = 0, enable_status = 0, pending_error = [], buf_len = 0,
     buf_max = max_packet_len, rx_buf = block, buf_addr = addr, locked = 0\<rparr>"

text \<open>One turn of \<open>while ((fd = accept(...)) >= 0)\<close>; note the \<open>continue\<close> that keeps \<open>fd\<close> open.\<close>

definition serve ::
    "'d handlers \<Rightarrow> (nat \<Rightarrow> byte) \<Rightarrow> 'd connection \<Rightarrow> 'd \<Rightarrow> reply \<Rightarrow> int \<Rightarrow>
     (outcome \<times> 'd \<times> reply \<times> int) res" where
  "serve h heap k d r fds =
     (let fds1 = fds + 1 in
      if \<not> peer_ok k then Inr (Peer_failed, d, r, fds1)
      else
        and_then (h_open_port h d) (\<lambda>(rv, d1, e).
          if rv < 0 then Inr (Open_failed, d1, r, fds1 - 1)
          else
            and_then (read_packet h heap
                (report e \<lparr>cl = client0 (c_addr k) (c_block k), rp = r, dev = d1\<rparr>) (c_sock k)) (\<lambda>(s, k', en).
              Inr (Served k' en, h_close_port h (dev s), rp s, fds1 - 1))))"

primrec accept_loop ::
    "'d handlers \<Rightarrow> (nat \<Rightarrow> byte) \<Rightarrow> 'd connection list \<Rightarrow> 'd \<Rightarrow> reply \<Rightarrow> int \<Rightarrow>
     (outcome list \<times> 'd \<times> reply \<times> int) res" where
  "accept_loop h heap [] d r fds = Inr ([], d, r, fds)"
| "accept_loop h heap (k # ks) d r fds =
     and_then (serve h heap k d r fds) (\<lambda>(o1, d1, r1, fds1).
     and_then (accept_loop h heap ks d1 r1 fds1) (\<lambda>(os, d2, r2, fds2).
       Inr (o1 # os, d2, r2, fds2)))"

definition xvcserver_start ::
    "'d handlers \<Rightarrow> (nat \<Rightarrow> byte) \<Rightarrow> net \<Rightarrow> 'd connection list \<Rightarrow> byte list \<Rightarrow> 'd \<Rightarrow> reply \<Rightarrow> int \<Rightarrow>
     (int \<times> outcome list \<times> 'd \<times> reply \<times> int) res" where
  "xvcserver_start h heap w conns url d r fds =
     and_then (parse_url url) (\<lambda>u.
       case u of
         Inl ret \<Rightarrow> Inr (ret, [], d, r, fds)
       | Inr (host, port) \<Rightarrow>
           (case open_server w fds of
              (opened, fds1) \<Rightarrow>
                if \<not> opened then Inr (err_socket_creation, [], d, r, fds1)
                else if host = [] \<and> \<not> hostname_ok w then Inr (err_gethostname, [], d, r, fds1 - 1)
                else and_then (accept_loop h heap conns d r fds1) (\<lambda>(os, d', r', fds2).
                  Inr (0, os, d', r', fds2 - 1))))"

section \<open>Descriptors\<close>

lemma open_each_fds: "open_each as fds = (opened, fds') \<Longrightarrow> fds' = (if opened then fds + 1 else fds)"
  by (induction as arbitrary: fds) (auto simp: Let_def split: if_split_asm)

lemma open_server_fds: "open_server w fds = (opened, fds') \<Longrightarrow> fds' = (if opened then fds + 1 else fds)"
  by (auto simp: open_server_def dest: open_each_fds split: if_split_asm)

lemma open_server_first:
  "\<not> gai_fails w \<Longrightarrow>
   fst (open_server w fds) \<longleftrightarrow> (\<exists>a \<in> set (addrs w). a_socket a \<and> a_reuseaddr a \<and> a_bind a \<and> a_listen a)"
proof -
  have "fst (open_each as fds) \<longleftrightarrow> (\<exists>a \<in> set as. a_socket a \<and> a_reuseaddr a \<and> a_bind a \<and> a_listen a)" for as
    by (induction as arbitrary: fds) (auto simp: Let_def)
  then show "\<not> gai_fails w \<Longrightarrow> ?thesis" by (simp add: open_server_def)
qed

lemma serve_fds:
  "serve h heap k d r fds = Inr (o1, d', r', fds') \<Longrightarrow>
     fds' = fds + (if o1 = Peer_failed then 1 else 0) \<and> (o1 = Peer_failed \<longleftrightarrow> \<not> peer_ok k)"
  by (auto simp: serve_def Let_def and_then_eq_Inr split: if_split_asm)

lemma accept_loop_fds:
  "accept_loop h heap ks d r fds = Inr (os, d', r', fds') \<Longrightarrow>
     fds' = fds + int (length (filter (\<lambda>k. \<not> peer_ok k) ks)) \<and> length os = length ks"
proof (induction ks arbitrary: d r fds os)
  case (Cons k ks)
  then obtain o1 d1 r1 fds1 os1 where s: "serve h heap k d r fds = Inr (o1, d1, r1, fds1)"
    and a: "accept_loop h heap ks d1 r1 fds1 = Inr (os1, d', r', fds')" and os: "os = o1 # os1"
    by (auto simp: and_then_eq_Inr)
  from serve_fds [OF s] Cons.IH [OF a] show ?case by (auto simp: os)
qed simp

lemma xvcserver_start_fds:
  assumes "xvcserver_start h heap w conns url d r fds = Inr (ret, os, d', r', fds')"
  shows "fds' = fds + int (length (filter (\<lambda>k. \<not> peer_ok k) (take (length os) conns)))"
proof -
  obtain u where u: "parse_url url = Inr u"
    using assms by (auto simp: xvcserver_start_def and_then_eq_Inr)
  show ?thesis
  proof (cases u)
    case (Inl ret')
    with assms u show ?thesis by (simp add: xvcserver_start_def)
  next
    case (Inr hp)
    obtain host port where hp: "hp = (host, port)" by (cases hp)
    obtain opened fds1 where o1: "open_server w fds = (opened, fds1)" by force
    note f1 = open_server_fds [OF o1]
    show ?thesis
    proof (cases "opened \<and> (host = [] \<longrightarrow> hostname_ok w)")
      case False
      with assms u Inr hp o1 f1 show ?thesis by (auto simp: xvcserver_start_def split: if_split_asm)
    next
      case True
      with assms u Inr hp o1 obtain fds2 where
        a: "accept_loop h heap conns d r fds1 = Inr (os, d', r', fds2)" and "fds' = fds2 - 1"
        by (auto simp: xvcserver_start_def and_then_eq_Inr)
      with accept_loop_fds [OF a] f1 True show ?thesis by simp
    qed
  qed
qed

section \<open>Urls\<close>

lemma field_at:
  assumes "string_in buf s (f @ c # rest)" "c \<notin> set f" "c \<noteq> 0"
  shows "get_field buf s c = Inr (s, buf[s + length f := 0], s + length f + 1)"
    "string_in (buf[s + length f := 0]) s f"
    "string_in (buf[s + length f := 0]) (s + length f + 1) rest"
proof -
  have "takeWhile (\<lambda>b. b \<noteq> c) (f @ c # rest) = f"
    using assms(2) by (simp add: takeWhile_tail takeWhile_neq_all)
  then have sc: "scan_field buf c s = Inr (s + length f)"
    using scan_field_string [OF assms(1), of c] by simp
  have "string_in buf (s + length f) (c # rest)" using assms(1) by (rule string_in_append)
  then show "get_field buf s c = Inr (s, buf[s + length f := 0], s + length f + 1)"
    "string_in (buf[s + length f := 0]) (s + length f + 1) rest"
    using assms(3) sc by (auto simp: get_field_def intro: string_in_update_before)
  show "string_in (buf[s + length f := 0]) s f" using assms(1) by (rule string_in_update_cut)
qed

lemma last_field_at:
  assumes "string_in buf s f" "c \<notin> set f"
  shows "get_field buf s c = Inr (s, buf, s + length f)" "strchr_at buf s c = Inr (if c = 0 then Some (s + length f) else None)"
proof -
  have "scan_field buf c s = Inr (s + length f)"
    using scan_field_string [OF assms(1), of c] by (simp only: takeWhile_neq_all [OF assms(2)])
  moreover have "buf ! (s + length f) = 0" using assms(1) by (simp add: string_in_def)
  ultimately show "get_field buf s c = Inr (s, buf, s + length f)"
    "strchr_at buf s c = Inr (if c = 0 then Some (s + length f) else None)"
    by (simp_all add: get_field_def strchr_at_def)
qed

definition tcp_name :: "byte list \<Rightarrow> bool" where
  "tcp_name t \<longleftrightarrow> length t = 3 \<and> t ! 0 \<in> {0x54, 0x74} \<and> t ! 1 \<in> {0x43, 0x63} \<and> t ! 2 \<in> {0x50, 0x70}"

lemma is_tcp_string:
  assumes "string_in buf s t"
  shows "is_tcp buf s = Inr (tcp_name t)"
proof -
  have n: "s + 1 = Suc s" "s + 2 = Suc (Suc s)" "s + 3 = Suc (Suc (Suc s))" by simp_all
  consider "t = []" | a where "t = [a]" | a b where "t = [a, b]" | a b c where "t = [a, b, c]"
    | a b c d u where "t = a # b # c # d # u"
    by (metis neq_Nil_conv)
  then show ?thesis
    by cases (use assms in \<open>auto simp: is_tcp_def tcp_name_def n\<close>)
qed

text \<open>The three forms of url the code accepts or refuses.\<close>

lemma url_port_string:
  assumes "string_in buf h host" "string_in buf p port" "h + length host < p" "0x3A \<notin> set port"
  shows "url_port buf h p = Inr (Inr (host, port))"
proof -
  have "buf ! (p + length port) = 0" "p + length port < length buf"
    using assms(2) by (simp_all add: string_in_def)
  then show ?thesis
    using last_field_at(1) [OF assms(2,4)] string_at_string [OF assms(1)] string_at_string [OF assms(2)]
    by (simp add: url_port_def)
qed

lemma string_in_self: "0 \<notin> set bs \<Longrightarrow> string_in (bs @ [0]) 0 bs"
  by (simp add: string_in_def)

lemma parse_url_host_port:
  assumes "0x3A \<notin> set host" "0x3A \<notin> set port" "0 \<notin> set host" "0 \<notin> set port" "\<not> tcp_name host"
  shows "parse_url (host @ 0x3A # port) = Inr (Inr (host, port))"
proof -
  let ?buf = "(host @ 0x3A # port) @ [0]"
  have s: "string_in ?buf 0 (host @ 0x3A # port)" using assms by (intro string_in_self) auto
  note f = field_at [OF s assms(1), simplified]
  have "strchr_at (?buf[length host := 0]) (length host + 1) 0x3A = Inr None"
    using last_field_at(2) [of "?buf[length host := 0]" "length host + 1" port "0x3A"] f(3) assms(2) by simp
  then show ?thesis
    using f assms(5) url_port_string [of "?buf[length host := 0]" 0 host "length host + 1" port] assms(2)
    by (simp add: parse_url_def is_tcp_string [OF f(2)])
qed

lemma parse_url_tcp:
  assumes "tcp_name t" "0x3A \<notin> set t" "0 \<notin> set t"
    and "0x3A \<notin> set host" "0x3A \<notin> set port" "0 \<notin> set host" "0 \<notin> set port"
  shows "parse_url (t @ 0x3A # host @ 0x3A # port) = Inr (Inr (host, port))"
proof -
  let ?buf = "(t @ 0x3A # host @ 0x3A # port) @ [0]"
  have s: "string_in ?buf 0 (t @ 0x3A # host @ 0x3A # port)" using assms by (intro string_in_self) auto
  note f = field_at [OF s assms(2), simplified]
  let ?buf1 = "?buf[length t := 0]"
  note g = field_at [OF f(3) assms(4), simplified]
  let ?h = "length t + 1"
  let ?buf2 = "?buf1[length t + 1 + length host := 0]"
  show ?thesis
    using f g assms(1,5) url_port_string [OF g(2,3)]
    by (simp add: parse_url_def is_tcp_string [OF f(2)])
qed

lemma parse_url_bad_transport:
  assumes "\<not> tcp_name t" "0x3A \<notin> set t" "0 \<notin> set t" "0x3A \<in> set rest" "0 \<notin> set rest"
  shows "parse_url (t @ 0x3A # rest) = Inr (Inl err_transport_type)"
proof -
  let ?buf = "(t @ 0x3A # rest) @ [0]"
  have s: "string_in ?buf 0 (t @ 0x3A # rest)" using assms by (intro string_in_self) auto
  note f = field_at [OF s assms(2), simplified]
  obtain a b where rest: "rest = a @ 0x3A # b" "0x3A \<notin> set a" using split_list_first [OF assms(4)] by blast
  have sc: "scan_field (?buf[length t := 0]) 0x3A (length t + 1) = Inr (length t + 1 + length a)"
    using scan_field_string [OF f(3), of "0x3A"] rest by (simp add: takeWhile_tail takeWhile_neq_all)
  have "string_in (?buf[length t := 0]) (length t + 1 + length a) (0x3A # b)"
    using string_in_append [OF f(3) [unfolded rest(1)]] by (simp add: rest(1))
  then have "(?buf[length t := 0]) ! (length t + 1 + length a) = 0x3A" by simp
  with sc have "strchr_at (?buf[length t := 0]) (length t + 1) 0x3A = Inr (Some (length t + 1 + length a))"
    by (simp add: strchr_at_def)
  then show ?thesis using f assms(1) by (simp add: parse_url_def is_tcp_string [OF f(2)])
qed

section \<open>Properties\<close>

text \<open>\<open>parse_url\<close> accepts \<open>tcp:host:port\<close> in any case of the letters, reads two fields without
  a transport as \<open>host:port\<close>, and refuses every other transport.\<close>

lemma url_forms:
  assumes "0x3A \<notin> set t" "0 \<notin> set t" "0x3A \<notin> set port" "0 \<notin> set port"
    and "0x3A \<notin> set host" "0 \<notin> set host"
  shows "parse_url (t @ 0x3A # host @ 0x3A # port) =
      Inr (if tcp_name t then Inr (host, port) else Inl err_transport_type) \<and>
    (\<not> tcp_name host \<longrightarrow> parse_url (host @ 0x3A # port) = Inr (Inr (host, port)))"
  using assms parse_url_tcp [of t host port] parse_url_bad_transport [of t "host @ 0x3A # port"]
    parse_url_host_port [of host port]
  by auto

text \<open>C20. Descriptors: when \<open>xvcserver_start\<close> returns, it has closed the listening socket and every
  connection, but for the connections whose peer address could not be read, which the accept loop
  abandons without closing them.\<close>

theorem xvcserver_start_descriptors:
  assumes "xvcserver_start h heap w conns url d r fds = Inr (ret, os, d', r', fds')"
  shows "fds' = fds + int (length (filter (\<lambda>k. \<not> peer_ok k) (take (length os) conns)))"
  by (rule xvcserver_start_fds [OF assms])

definition lost_peer :: "unit connection" where
  "lost_peer = \<lparr>peer_ok = False, c_block = [], c_addr = 4096,
     c_sock = \<lparr>rx = [], rx_error = False, tx = [], sends_ok = 0\<rparr>\<rparr>"

definition good_net :: net where
  "good_net = \<lparr>gai_fails = False, addrs = [\<lparr>a_socket = True, a_reuseaddr = True, a_bind = True, a_listen = True\<rparr>],
     hostname_ok = True\<rparr>"

theorem xvcserver_start_descriptors_witness:
  "\<exists>ret os d' r' fds'. xvcserver_start sample_handlers (\<lambda>_. 0) good_net [lost_peer]
       (bytes_of ''h'' @ 0x3A # bytes_of ''1'') () reply0 0 = Inr (ret, os, d', r', fds') \<and> fds' = 1"
proof -
  have "parse_url (bytes_of ''h'' @ 0x3A # bytes_of ''1'') = Inr (Inr (bytes_of ''h'', bytes_of ''1''))"
    by (rule parse_url_host_port) (simp_all add: bytes_of_def tcp_name_def)
  then have "xvcserver_start sample_handlers (\<lambda>_. 0) good_net [lost_peer]
       (bytes_of ''h'' @ 0x3A # bytes_of ''1'') () reply0 0 = Inr (0, [Peer_failed], (), reply0, 1)"
    by (simp add: xvcserver_start_def open_server_def good_net_def serve_def lost_peer_def bytes_of_def)
  from xvcserver_start_descriptors [OF this] this show ?thesis by (auto simp: lost_peer_def)
qed

end
