(* ===== verification/Mem_Hub.thy ===== *)
theory Mem_Hub
  imports Mem_Server
begin

text \<open>
  The debug hub behind the server, \<open>mem/versal/src/xvc_mem.c\<close>: the mapped region
  and the callbacks \<open>open_port\<close>, \<open>close_port\<close>, \<open>set_tck\<close>, \<open>shift_tms_tdi\<close>, \<open>mrd\<close> and \<open>mwr\<close>, in
  the configuration of the source (\<open>ENABLE_SINGLE_WORD_RW\<close> defined). The mapped registers are
  a block of bytes; an access through an unmapped pointer or past the mapping is
  \<open>Out_of_bounds\<close>. Alignment faults of the bus are not modelled.
\<close>

section \<open>State\<close>

text \<open>\<open>devmem_ok\<close> and \<open>mmap_ok\<close> say whether \<open>open\<close> and \<open>mmap\<close> will succeed.\<close>

record xvc_mem =
  hub_addr :: "64 word"
  hub_size :: "64 word"
  hub_mem :: "byte list"    \<comment> \<open>the registers at \<open>hub_addr\<close>, \<open>hub_size\<close> bytes\<close>
  hub_mapped :: bool        \<comment> \<open>\<open>hub.buf\<close> points to them\<close>
  devmem_ok :: bool
  mmap_ok :: bool

definition default_hub_addr :: "64 word" where
  "default_hub_addr = 0xA4000000"

definition default_hub_size :: "64 word" where
  "default_hub_size = 0x200000"

definition hub_block :: "xvc_mem \<Rightarrow> byte list" where
  "hub_block x = (if hub_mapped x then hub_mem x else [])"

section \<open>Callbacks\<close>

definition open_port :: "xvc_mem \<Rightarrow> (int \<times> xvc_mem \<times> err) res" where
  "open_port x =
     (if \<not> devmem_ok x then Inl (Exit 1)
      else if \<not> mmap_ok x then Inl (Exit 1)
      else Inr (0, x\<lparr>hub_mapped := True\<rparr>, None))"

definition close_port :: "xvc_mem \<Rightarrow> xvc_mem" where
  "close_port x = x\<lparr>hub_mapped := False\<rparr>"

definition set_tck :: "xvc_mem \<Rightarrow> 64 word \<Rightarrow> 64 word \<times> xvc_mem \<times> err" where
  "set_tck x nsperiod = (nsperiod, x, None)"

text \<open>The callback of the source only prints: it never stores to \<open>tdo_buf\<close>.\<close>

definition shift_tms_tdi ::
    "xvc_mem \<Rightarrow> 64 word \<Rightarrow> byte list \<Rightarrow> byte list \<Rightarrow> byte list \<Rightarrow> (byte list \<times> xvc_mem \<times> err) res" where
  "shift_tms_tdi x bitcount tms_buf tdi_buf tdo_buf = Inr (tdo_buf, x, None)"

text \<open>\<open>addr + num_bytes\<close> and \<open>hub.addr + hub.size\<close> are \<open>size_t\<close> sums and wrap.\<close>

definition out_of_hub :: "xvc_mem \<Rightarrow> 64 word \<Rightarrow> 64 word \<Rightarrow> bool" where
  "out_of_hub x addr num_bytes \<longleftrightarrow>
     addr < hub_addr x \<or> hub_addr x + hub_size x < addr + num_bytes"

definition err_invalid :: "64 word \<Rightarrow> 64 word \<Rightarrow> byte list" where
  "err_invalid addr num_bytes =
     bytes_of ''Invalid arguments addr 0x'' @ fmt_08X (unat addr) @ bytes_of '' num_bytes '' @
     fmt_u (unat num_bytes) @ [0x0A]"

text \<open>
  \<open>for (i = 0; i < n; i += 4) *(uint32_t *)(dst + d + i) = *(uint32_t *)(src + s + i);\<close>
\<close>

function copy_words :: "byte list \<Rightarrow> nat \<Rightarrow> byte list \<Rightarrow> nat \<Rightarrow> nat \<Rightarrow> nat \<Rightarrow> byte list res" where
  "copy_words src s dst d n i =
     (if i < n then
        and_then (read_range src (s + i) 4) (\<lambda>w.
        and_then (write_at dst (d + i) w) (\<lambda>dst'.
          copy_words src s dst' d n (i + 4)))
      else Inr dst)"
  by pat_completeness auto
termination
  by (relation "measure (\<lambda>(src, s, dst, d, n, i). n - i)") auto

declare copy_words.simps [simp del]

definition mrd ::
    "xvc_mem \<Rightarrow> 32 word \<Rightarrow> 64 word \<Rightarrow> 64 word \<Rightarrow> byte list \<Rightarrow> (byte list \<times> xvc_mem \<times> err) res" where
  "mrd x flags addr num_bytes buf =
     (if out_of_hub x addr num_bytes then Inr (buf, x, Some (err_invalid addr num_bytes))
      else and_then (copy_words (hub_block x) (unat (addr - hub_addr x)) buf 0 (unat num_bytes) 0)
             (\<lambda>buf'. Inr (buf', x, None)))"

definition mwr :: "xvc_mem \<Rightarrow> 32 word \<Rightarrow> 64 word \<Rightarrow> 64 word \<Rightarrow> byte list \<Rightarrow> (xvc_mem \<times> err) res" where
  "mwr x flags addr num_bytes buf =
     (if out_of_hub x addr num_bytes then Inr (x, Some (err_invalid addr num_bytes))
      else and_then (copy_words buf 0 (hub_block x) (unat (addr - hub_addr x)) (unat num_bytes) 0)
             (\<lambda>m. Inr (if hub_mapped x then x\<lparr>hub_mem := m\<rparr> else x, None)))"

definition mem_handlers :: "xvc_mem handlers" where
  "mem_handlers = \<lparr>
     h_open_port = open_port, h_close_port = close_port, h_set_tck = set_tck,
     h_shift_tms_tdi = shift_tms_tdi, h_lock = None, h_unlock = None, h_register_shift = None,
     h_state = None, h_flush = None, h_mrd = Some mrd, h_mwr = Some mwr\<rparr>"

section \<open>What the word loop copies\<close>

definition round4 :: "nat \<Rightarrow> nat" where \<comment> \<open>the bytes the loop touches for a count of \<open>n\<close>\<close>
  "round4 n = 4 * ((n + 3) div 4)"

lemma round4_bounds: "n \<le> round4 n" "round4 n < n + 4"
  by (simp_all add: round4_def)

lemma round4_dvd: "4 dvd n \<Longrightarrow> round4 n = n"
  by (auto simp: round4_def)

lemma copy_words_loop:
  assumes "s + round4 n \<le> length src" "d + round4 n \<le> length dst" "4 dvd i" "i \<le> round4 n"
  shows "copy_words src s dst d n i =
    Inr (take (d + i) dst @ take (round4 n - i) (drop (s + i) src) @ drop (d + round4 n) dst)"
  using assms
proof (induction src s dst d n i rule: copy_words.induct)
  case (1 src s dst d n i)
  show ?case
  proof (cases "i < n")
    case False
    then have "i = round4 n" using "1.prems"(3,4) round4_bounds(2) [of n] by (auto simp: round4_def)
    with False show ?thesis by (subst copy_words.simps) simp
  next
    case True
    then have i4: "i + 4 \<le> round4 n"
      using "1.prems"(3) unfolding round4_def by presburger
    let ?w = "take 4 (drop (s + i) src)"
    let ?dst = "take (d + i) dst @ ?w @ drop (d + i + 4) dst"
    have r: "read_range src (s + i) 4 = Inr ?w" using "1.prems" i4 by (intro read_range_ok) simp
    have lw: "length ?w = 4" using "1.prems" i4 by simp
    have w: "write_at dst (d + i) ?w = Inr ?dst" using "1.prems" i4 lw by (simp add: write_at_ok)
    have ld: "length ?dst = length dst" using "1.prems" i4 lw by simp
    have step: "copy_words src s dst d n i = copy_words src s ?dst d n (i + 4)"
      unfolding copy_words.simps [of src s dst d n i] r w by (simp add: True r w)
    have rest: "copy_words src s ?dst d n (i + 4) = Inr (take (d + (i + 4)) ?dst @
        take (round4 n - (i + 4)) (drop (s + (i + 4)) src) @ drop (d + round4 n) ?dst)"
      using "1.IH" [OF True r w] "1.prems" i4 ld by simp
    have t1: "take (d + (i + 4)) ?dst = take (d + i) dst @ ?w"
      using "1.prems" i4 lw by simp
    have t2: "drop (d + round4 n) ?dst = drop (d + round4 n) dst"
      using "1.prems" i4 lw by (simp add: add.commute)
    have t3: "?w @ take (round4 n - (i + 4)) (drop (s + (i + 4)) src) =
        take (round4 n - i) (drop (s + i) src)"
      using i4 take_add [of 4 "round4 n - (i + 4)" "drop (s + i) src"] by (simp add: ac_simps)
    show ?thesis
      unfolding step rest t1 t2 t3 [symmetric] append_assoc ..
  qed
qed

lemma copy_words_ok:
  "s + round4 n \<le> length src \<Longrightarrow> d + round4 n \<le> length dst \<Longrightarrow>
   copy_words src s dst d n 0 =
     Inr (take d dst @ take (round4 n) (drop s src) @ drop (d + round4 n) dst)"
  using copy_words_loop [of s n src d dst 0] by simp

lemma copy_words_length: "copy_words src s dst d n i = Inr dst' \<Longrightarrow> length dst' = length dst"
proof (induction src s dst d n i arbitrary: dst' rule: copy_words.induct)
  case (1 src s dst d n i)
  show ?case
  proof (cases "i < n")
    case True
    with "1.prems" obtain w d1 where w: "read_range src (s + i) 4 = Inr w"
      and d1: "write_at dst (d + i) w = Inr d1" and r: "copy_words src s d1 d n (i + 4) = Inr dst'"
      by (subst (asm) copy_words.simps) (auto simp: and_then_eq_Inr)
    from "1.IH" [OF True w d1 r] length_write_at [OF d1] show ?thesis by simp
  next
    case False
    with "1.prems" show ?thesis by (subst (asm) copy_words.simps) simp
  qed
qed

text \<open>And it stops with a fault exactly when the rounded range leaves one of the blocks.\<close>

lemma copy_words_in_range:
  assumes "copy_words src s dst d n i = Inr dst'" "i < n" "4 dvd i"
  shows "s + round4 n \<le> length src \<and> d + round4 n \<le> length dst"
  using assms
proof (induction src s dst d n i arbitrary: dst' rule: copy_words.induct)
  case (1 src s dst d n i)
  from "1.prems"(1,2) obtain w d1 where w: "read_range src (s + i) 4 = Inr w"
    and d1: "write_at dst (d + i) w = Inr d1" and r: "copy_words src s d1 d n (i + 4) = Inr dst'"
    by (subst (asm) copy_words.simps) (auto simp: and_then_eq_Inr)
  have b: "s + i + 4 \<le> length src" using w by (simp add: res_simps)
  have lw: "length w = 4" using w by (rule length_read_range)
  then have b': "d + i + 4 \<le> length dst" using d1 by (auto simp: write_at_def split: if_split_asm)
  show ?case
  proof (cases "i + 4 < n")
    case True
    with "1.IH" [OF "1.prems"(2) w d1 r] "1.prems"(3) length_write_at [OF d1] show ?thesis by simp
  next
    case False
    obtain k where k: "i = 4 * k" using "1.prems"(3) by (rule dvdE)
    then have "(n + 3) div 4 = k + 1" using False "1.prems"(2) by linarith
    then have "round4 n = i + 4" by (simp add: round4_def k)
    with b b' show ?thesis by simp
  qed
qed

lemma copy_words_fault: "copy_words src s dst d n i = Inl e \<Longrightarrow> e = Out_of_bounds"
proof (induction src s dst d n i rule: copy_words.induct)
  case (1 src s dst d n i)
  show ?case
  proof (cases "i < n")
    case False
    with "1.prems" show ?thesis by (simp add: copy_words.simps [of src s dst d n i])
  next
    case True
    then have eq: "copy_words src s dst d n i =
        and_then (read_range src (s + i) 4) (\<lambda>w. and_then (write_at dst (d + i) w) (\<lambda>dst'.
          copy_words src s dst' d n (i + 4)))"
      by (simp add: copy_words.simps [of src s dst d n i])
    from "1.prems" [unfolded eq and_then_eq_Inl] show ?thesis
      using "1.IH" [OF True]
      by (elim disjE exE conjE) (auto simp: read_range_def write_at_eq_Inl split: if_split_asm)
  qed
qed

section \<open>Properties\<close>

text \<open>The word loop of \<open>mrd\<close> and \<open>mwr\<close> copies the count rounded up to whole words and nothing
  else, and it is safe exactly when that rounded range lies in both blocks.\<close>

lemma copy_words_total:
  "copy_words src s dst d n 0 =
     (if n = 0 then Inr dst
      else if s + round4 n \<le> length src \<and> d + round4 n \<le> length dst
      then Inr (take d dst @ take (round4 n) (drop s src) @ drop (d + round4 n) dst)
      else Inl Out_of_bounds)"
proof (cases "n = 0")
  case True
  then show ?thesis by (simp add: copy_words.simps)
next
  case False
  show ?thesis
  proof (cases "s + round4 n \<le> length src \<and> d + round4 n \<le> length dst")
    case True
    with False show ?thesis by (simp add: copy_words_ok)
  next
    case out: False
    show ?thesis
    proof (cases "copy_words src s dst d n 0")
      case (Inl e)
      with copy_words_fault [OF Inl] False out show ?thesis by auto
    next
      case (Inr dst')
      with copy_words_in_range [OF Inr] False out show ?thesis by simp
    qed
  qed
qed

end
