(* ===== verification/Mem_Contract.thy ===== *)
theory Mem_Contract
  imports Mem_Session
begin

text \<open>
  What the protocol engine promises to whoever implements the callbacks, and what it needs from
  them. The locale \<open>xvc_callbacks\<close> states the contract of \<open>XvcServerHandlers\<close>: a callback never
  changes the size of a block it is lent, keeps the device invariant, and stops the program only
  by a memory fault. Under it every state the server reaches is well formed, and no call goes
  through a null pointer.
\<close>

section \<open>Well-formed servers\<close>

definition client_ok :: "'d handlers \<Rightarrow> client \<Rightarrow> bool" where
  "client_ok h c \<longleftrightarrow>
     length (rx_buf c) = buf_max c \<and> buf_len c \<le> buf_max c \<and> error_ok (pending_error c) \<and>
     (enable_locking c \<noteq> 0 \<longrightarrow> h_lock h \<noteq> None \<and> h_unlock h \<noteq> None)"

definition srv_ok :: "'d handlers \<Rightarrow> ('d \<Rightarrow> bool) \<Rightarrow> 'd srv \<Rightarrow> bool" where
  "srv_ok h dev_ok s \<longleftrightarrow> client_ok h (cl s) \<and> reply_wf (rp s) \<and> dev_ok (dev s)"

text \<open>The faults the engine's own code can run into.\<close>

definition engine_fault :: "fault \<Rightarrow> bool" where
  "engine_fault f \<longleftrightarrow> f \<in> {Out_of_bounds, Shift_too_wide, Pointer_wrap, Assert_failed}"

primrec step_srv :: "'d step \<Rightarrow> 'd srv" where
  "step_srv (Reply s p) = s"
| "step_srv (Reply_with_status s p) = s"
| "step_srv (Reply_with_optional_status s p) = s"
| "step_srv (Break s f) = s"
| "step_srv (Protocol_error s) = s"

primrec end_srv :: "'d loop_end \<Rightarrow> 'd srv" where
  "end_srv (Next s p) = s"
| "end_srv (Broke s p f) = s"
| "end_srv (Errored s) = s"

primrec turn_srv :: "'d turn \<Rightarrow> 'd srv" where
  "turn_srv (Read_more s k) = s"
| "turn_srv (Finished s k e) = s"

lemma report_ok [simp]: "srv_ok h D s \<Longrightarrow> srv_ok h D (report e s)"
  by (auto simp: srv_ok_def client_ok_def report_def set_error_def split: option.splits)

lemma srv_ok_dev: "srv_ok h D s \<Longrightarrow> D d \<Longrightarrow> srv_ok h D (s\<lparr>dev := d\<rparr>)"
  by (simp add: srv_ok_def)

lemma srv_ok_locked: "srv_ok h D s \<Longrightarrow> srv_ok h D (s\<lparr>cl := (cl s)\<lparr>locked := x\<rparr>\<rparr>)"
  by (simp add: srv_ok_def client_ok_def)

lemma srv_ok_rp: "srv_ok h D s \<Longrightarrow> reply_wf r \<Longrightarrow> srv_ok h D (s\<lparr>rp := r\<rparr>)"
  by (simp add: srv_ok_def)

lemma set_reply_rest_ok:
  "srv_ok h D s \<Longrightarrow> length bs = length (reply_rest s) \<Longrightarrow> srv_ok h D (set_reply_rest bs s)"
  by (auto simp: srv_ok_def reply_wf_def set_reply_rest_def reply_rest_def)

lemma reply_data_ok: "srv_ok h D s \<Longrightarrow> reply_data n s = Inr s' \<Longrightarrow> srv_ok h D s'"
  by (auto simp: reply_data_def memset0_at_def and_then_eq_Inr srv_ok_def reply_wf_def
      split: if_split_asm)

lemma with_status_ok: "srv_ok h D s \<Longrightarrow> with_status s = Inr s' \<Longrightarrow> srv_ok h D s'"
  by (auto simp: with_status_def and_then_eq_Inr srv_ok_def intro: wf_intros)

lemma config_loop_client_ok:
  assumes "client_ok h c"
    and "config_loop (h_lock h \<noteq> None \<and> h_unlock h \<noteq> None) b s c = Inr (b', c')"
  shows "client_ok h c'"
proof -
  have "client_ok h c' \<and> length b' = length b"
    using assms(2,1)
    by (rule config_loop_keeps)
       (auto simp: config_apply_def client_ok_def set_error_def split: if_splits)
  then show ?thesis ..
qed


section \<open>Faults of the building blocks\<close>

lemma scan_field_fault: "scan_field buf c s = Inl e \<Longrightarrow> e = Out_of_bounds"
proof (induction buf c s rule: scan_field.induct)
  case (1 buf c s)
  show ?case
  proof (cases "s < length buf")
    case False
    with "1.prems" show ?thesis by (simp add: scan_field.simps [of buf c s] read_at_def)
  next
    case True
    with "1.prems" "1.IH" [OF read_at_ok [OF True]] show ?thesis
      by (simp add: scan_field.simps [of buf c s] split: if_split_asm)
  qed
qed

lemma config_name_fault: "config_name buf s = Inl e \<Longrightarrow> e = Out_of_bounds"
  by (auto simp: config_name_def config_cut_def string_at_def strlen_at_def strchr_at_def
      and_then_eq_Inl and_then_eq_Inr Let_def dest: scan_field_fault
      split: option.split_asm if_split_asm)

lemma get_field_fault: "get_field buf s c = Inl e \<Longrightarrow> e = Out_of_bounds"
  by (auto simp: get_field_def and_then_eq_Inl dest: scan_field_fault split: if_split_asm)

lemma config_loop_fault: "config_loop can_lock buf s c = Inl e \<Longrightarrow> e = Out_of_bounds"
proof (induction "length buf - s" arbitrary: buf s c rule: less_induct)
  case less
  show ?case
  proof (cases "s < length buf \<and> buf ! s \<noteq> 0 \<and> pending_error c = []")
    case False
    with less.prems show ?thesis
      by (auto simp: config_loop.simps [of can_lock buf s c] and_then_eq_Inl read_at_def split: if_split_asm)
  next
    case True
    then have lt: "s < length buf" "buf ! s \<noteq> 0" by simp_all
    show ?thesis
    proof (cases "get_field buf s 0x2C")
      case (Inl f)
      with True less.prems show ?thesis
        by (simp add: config_loop.simps [of can_lock buf s c] get_field_fault)
    next
      case (Inr x)
      obtain config buf1 s1 where x: "x = (config, buf1, s1)" by (cases x)
      note g = Inr [unfolded x]
      show ?thesis
      proof (cases "config_name buf1 config")
        case (Inl f)
        with True less.prems g show ?thesis
          by (simp add: config_loop.simps [of can_lock buf s c] config_name_fault)
      next
        case (Inr y)
        obtain enable buf2 name where y: "y = (enable, buf2, name)" by (cases y)
        note n = Inr [unfolded y]
        obtain c1 brk where ap: "config_apply can_lock enable name c = (c1, brk)" by force
        have "config_loop can_lock buf2 s1 c1 = Inl e"
          using True less.prems g n ap
          by (simp add: config_loop.simps [of can_lock buf s c] split: if_split_asm)
        moreover have "length buf2 - s1 < length buf - s"
          using get_field_bounds [OF g lt] config_name_length [OF n] lt by auto
        ultimately show ?thesis using less.hyps by blast
      qed
    qed
  qed
qed

text \<open>
  The faults of the engine's primitives are its own; \<open>srv_ok\<close> gives \<open>buf_len \<le> length rx_buf\<close>.
\<close>

lemma primitive_faults:
  "ensure b Assert_failed = Inl e \<Longrightarrow> engine_fault e"
  "ptr_add s p n = Inl e \<Longrightarrow> engine_fault e"
  "read_at xs i = Inl e \<Longrightarrow> engine_fault e"
  "read_range xs i n = Inl e \<Longrightarrow> engine_fault e"
  "write_at xs i ys = Inl e \<Longrightarrow> engine_fault e"
  "memset0_at xs i n = Inl e \<Longrightarrow> engine_fault e"
  "need_more s cbuf q = Inl e \<Longrightarrow> engine_fault e"
  by (auto simp: engine_fault_def ensure_def ptr_add_def read_at_def read_range_def write_at_def
      memset0_at_def need_more_def and_then_eq_Inl split: if_split_asm)

lemma reply_put_fault: "reply_put off b r = Inl e \<Longrightarrow> engine_fault e"
  by (auto simp: reply_put_def and_then_eq_Inl split: if_split_asm dest: primitive_faults)

lemma reply_uleb128_loop_fault: "reply_uleb128_loop pos v r = Inl e \<Longrightarrow> engine_fault e"
proof (induction pos v r rule: reply_uleb128_loop.induct)
  case (1 pos v r)
  let ?b = "if 0x80 \<le> v then (ucast v AND 0x7f) OR 0x80 else ucast v AND 0x7f"
  show ?case
  proof (cases "reply_put (u32 (reply_len r + pos)) ?b r")
    case (Inl f)
    with "1.prems" have "f = e" by (simp add: reply_uleb128_loop.simps [of pos v r])
    with Inl show ?thesis by (auto dest: reply_put_fault)
  next
    case (Inr r1)
    with "1.prems" "1.IH" [OF Inr refl] show ?thesis
      by (simp add: reply_uleb128_loop.simps [of pos v r] Let_def split: if_split_asm)
  qed
qed

lemma reply_faults:
  "reply_append bs r = Inl e \<Longrightarrow> engine_fault e"
  "reply_uleb128 v r = Inl e \<Longrightarrow> engine_fault e"
  "reply_status x r = Inl e \<Longrightarrow> engine_fault e"
  by (auto simp: reply_append_def reply_uleb128_def reply_status_def and_then_eq_Inl
      dest: primitive_faults reply_put_fault reply_uleb128_loop_fault)

lemma reply_data_fault: "reply_data n s = Inl e \<Longrightarrow> engine_fault e"
  by (auto simp: reply_data_def and_then_eq_Inl split: if_split_asm dest: primitive_faults)

lemma config_loop_engine: "config_loop b buf s c = Inl e \<Longrightarrow> engine_fault e"
  by (auto simp: engine_fault_def dest: config_loop_fault)

lemma get_uleb128_engine:
  "get_uleb128 buf bufend p = Inl e \<Longrightarrow> bufend \<le> length buf \<Longrightarrow> engine_fault e"
  by (auto simp: engine_fault_def dest: get_uleb128_fault)

lemma srv_ok_len: "srv_ok h D s \<Longrightarrow> buf_len (cl s) \<le> length (rx_buf (cl s))"
  by (simp add: srv_ok_def client_ok_def)

lemma get3_uleb128_engine:
  "get3_uleb128 s p = Inl e \<Longrightarrow> srv_ok h D s \<Longrightarrow> engine_fault e"
  by (auto simp: get3_uleb128_def and_then_eq_Inl dest!: get_uleb128_engine srv_ok_len)

lemma get_uint_le_engine: "get_uint_le buf p n = Inl e \<Longrightarrow> engine_fault e"
proof -
  have "get_uint_le_loop buf p n v = Inl e \<Longrightarrow> engine_fault e" for v
    by (induction n arbitrary: v) (auto simp: and_then_eq_Inl dest: primitive_faults)
  then show "get_uint_le buf p n = Inl e \<Longrightarrow> engine_fault e" by (simp add: get_uint_le_def)
qed

lemma set_uint_le_engine: "set_uint_le buf p n v = Inl e \<Longrightarrow> engine_fault e"
  by (induction n arbitrary: buf p v) (auto simp: and_then_eq_Inl dest: primitive_faults)

lemma find_colon_engine: "find_colon buf e p = Inl f \<Longrightarrow> engine_fault f"
proof (induction buf e p rule: find_colon.induct)
  case (1 buf e p)
  show ?case
  proof (cases "p < e \<and> p < length buf")
    case True
    with "1.prems" "1.IH" [OF _ read_at_ok] show ?thesis
      by (auto simp: find_colon.simps [of buf e p] split: if_split_asm)
  next
    case False
    with "1.prems" show ?thesis
      by (auto simp: find_colon.simps [of buf e p] read_at_def engine_fault_def split: if_split_asm)
  qed
qed


text \<open>A result that is no fault, or one of these; and the rules to read a definition with.\<close>

definition engine :: "'a res \<Rightarrow> bool" where
  "engine m \<longleftrightarrow> (\<forall>e. m = Inl e \<longrightarrow> engine_fault e)"

named_theorems engine_intros

lemma engineI: "(\<And>e. m = Inl e \<Longrightarrow> engine_fault e) \<Longrightarrow> engine m"
  by (simp add: engine_def)

lemma engine_control [engine_intros]:
  "engine (Inr x)"
  "(b \<Longrightarrow> engine m) \<Longrightarrow> (\<not> b \<Longrightarrow> engine m') \<Longrightarrow> engine (if b then m else m')"
  by (simp_all add: engine_def)

lemma engine_and_then [engine_intros]:
  "engine m \<Longrightarrow> (\<And>x. m = Inr x \<Longrightarrow> engine (f x)) \<Longrightarrow> engine (and_then m f)"
  by (auto simp: engine_def and_then_eq_Inl)

lemma engine_prod [engine_intros]:
  "(\<And>a b. x = (a, b) \<Longrightarrow> engine (f a b)) \<Longrightarrow> engine (case x of (a, b) \<Rightarrow> f a b)"
  by (cases x) simp

lemma engine_primitives [engine_intros]:
  "engine (ensure b Assert_failed)" "engine (ptr_add s p n)" "engine (read_at xs i)"
  "engine (read_range xs i n)" "engine (write_at xs i ys)" "engine (need_more s q q')"
  "engine (reply_append bs r)" "engine (reply_uleb128 v r)" "engine (reply_status x r)"
  "engine (reply_data n s)" "engine (config_loop b buf i c)" "engine (get_uint_le buf p n)"
  "engine (set_uint_le buf p n w)" "engine (find_colon buf e p)"
  by (auto intro!: engineI dest: primitive_faults reply_faults reply_data_fault config_loop_engine
      get_uint_le_engine set_uint_le_engine find_colon_engine)

lemma engine_get_uleb128:
  "srv_ok h D s \<Longrightarrow> engine (get_uleb128 (rx_buf (cl s)) (buf_len (cl s)) p)"
  by (auto intro!: engineI get_uleb128_engine dest: srv_ok_len)

lemma engine_get3: "srv_ok h D s \<Longrightarrow> engine (get3_uleb128 s p)"
  by (auto intro!: engineI dest: get3_uleb128_engine)

lemma engine_with_status [engine_intros]: "engine (with_status s)"
  unfolding with_status_def by (intro engine_intros)

lemma engine_send_packet [engine_intros]: "engine (send_packet s k)"
  unfolding send_packet_def by (intro engine_intros)

lemma engine_consume_packet [engine_intros]: "engine (consume_packet n s)"
  unfolding consume_packet_def Let_def by (intro engine_intros)

lemma engine_receive [engine_intros]: "engine (receive s k)"
  unfolding receive_def by (auto split: prod.split received.split intro!: engine_intros)


section \<open>The callback contract\<close>

locale xvc_callbacks =
  fixes h :: "'d handlers" and dev_ok :: "'d \<Rightarrow> bool"
  assumes set_tck_keeps:
      "dev_ok d \<Longrightarrow> h_set_tck h d n = (res, d', e) \<Longrightarrow> dev_ok d'"
    and shift_keeps:
      "dev_ok d \<Longrightarrow> h_shift_tms_tdi h d n tms tdi tdo = Inr (tdo', d', e) \<Longrightarrow>
       length tdo' = length tdo \<and> dev_ok d'"
    and shift_fault:
      "dev_ok d \<Longrightarrow> h_shift_tms_tdi h d n tms tdi tdo = Inl f \<Longrightarrow> engine_fault f"
    and lock_keeps: "dev_ok d \<Longrightarrow> h_lock h = Some lck \<Longrightarrow> lck d t = (d', e) \<Longrightarrow> dev_ok d'"
    and unlock_keeps: "dev_ok d \<Longrightarrow> h_unlock h = Some ulck \<Longrightarrow> ulck d = (d', e) \<Longrightarrow> dev_ok d'"
    and register_shift_keeps:
      "dev_ok d \<Longrightarrow> h_register_shift h = Some rs \<Longrightarrow> rs d i fl st n otdi otdo = Inr (otdo', d', e) \<Longrightarrow>
       map_option length otdo' = map_option length otdo \<and> dev_ok d'"
    and register_shift_fault:
      "dev_ok d \<Longrightarrow> h_register_shift h = Some rs \<Longrightarrow> rs d i fl st n otdi otdo = Inl f \<Longrightarrow> engine_fault f"
    and state_keeps:
      "dev_ok d \<Longrightarrow> h_state h = Some stt \<Longrightarrow> stt d fl st n = (d', e) \<Longrightarrow> dev_ok d'"
    and flush_keeps:
      "dev_ok d \<Longrightarrow> h_flush h = Some fls \<Longrightarrow> fls d b = (rv, b', d', e) \<Longrightarrow>
       length b' = length b \<and> dev_ok d'"
    and mrd_keeps:
      "dev_ok d \<Longrightarrow> h_mrd h = Some rd \<Longrightarrow> rd d fl a n b = Inr (b', d', e) \<Longrightarrow>
       length b' = length b \<and> dev_ok d'"
    and mrd_fault: "dev_ok d \<Longrightarrow> h_mrd h = Some rd \<Longrightarrow> rd d fl a n b = Inl f \<Longrightarrow> engine_fault f"
    and mwr_keeps: "dev_ok d \<Longrightarrow> h_mwr h = Some wr \<Longrightarrow> wr d fl a n b = Inr (d', e) \<Longrightarrow> dev_ok d'"
    and mwr_fault: "dev_ok d \<Longrightarrow> h_mwr h = Some wr \<Longrightarrow> wr d fl a n b = Inl f \<Longrightarrow> engine_fault f"
begin

abbreviation sok :: "'d srv \<Rightarrow> bool" where
  "sok \<equiv> srv_ok h dev_ok"

lemma sok_dev: "sok s \<Longrightarrow> dev_ok (dev s)"
  by (simp add: srv_ok_def)

lemma reply_rest_dev [simp]: "reply_rest (s\<lparr>dev := d\<rparr>) = reply_rest s"
  by (simp add: reply_rest_def)

lemma do_lock_ok: "sok s \<Longrightarrow> do_lock h t s = Inr s' \<Longrightarrow> sok s'"
  by (auto simp: do_lock_def Let_def split: if_split_asm option.split_asm prod.split_asm
      intro!: report_ok srv_ok_locked srv_ok_dev dest: sok_dev intro: lock_keeps)

lemma do_unlock_ok: "sok s \<Longrightarrow> do_unlock h s = Inr s' \<Longrightarrow> sok s'"
  by (auto simp: do_unlock_def Let_def split: if_split_asm option.split_asm prod.split_asm
      intro!: report_ok srv_ok_locked srv_ok_dev dest: sok_dev intro: unlock_keeps)

lemma do_lock_fault: "sok s \<Longrightarrow> do_lock h t s \<noteq> Inl f" "sok s \<Longrightarrow> do_unlock h s \<noteq> Inl f"
  by (auto simp: do_lock_def do_unlock_def Let_def srv_ok_def client_ok_def
      split: option.split prod.split)

lemma call_shift_ok:
  assumes "sok s" "call_shift h bits p bytes s = Inr s'"
  shows "sok s'"
proof (cases "ok s")
  case False
  with assms show ?thesis by (simp add: call_shift_def)
next
  case True
  with assms(2) obtain tdo d e where
    r: "h_shift_tms_tdi h (dev s) (ucast bits) (drop p (rx_buf (cl s)))
          (drop (p + bytes) (rx_buf (cl s))) (reply_rest s) = Inr (tdo, d, e)"
    and s': "s' = report e (set_reply_rest tdo (s\<lparr>dev := d\<rparr>))"
    by (auto simp: call_shift_def and_then_eq_Inr)
  from shift_keeps [OF sok_dev [OF assms(1)] r] assms(1) show ?thesis
    by (simp add: s' set_reply_rest_ok srv_ok_dev)
qed

lemma call_shift_fault: "sok s \<Longrightarrow> call_shift h bits p bytes s = Inl f \<Longrightarrow> engine_fault f"
  by (auto simp: call_shift_def and_then_eq_Inl split: if_split_asm
      dest!: shift_fault [OF sok_dev])

lemma call_set_tck_ok:
  assumes "sok s"
  shows "sok (snd (call_set_tck h n s))"
proof -
  obtain res d e where r: "h_set_tck h (dev s) (ucast n) = (res, d, e)" by (cases rule: prod_cases3)
  from set_tck_keeps [OF sok_dev [OF assms] r] assms show ?thesis
    by (simp add: call_set_tck_def r Let_def srv_ok_dev)
qed

lemma call_state_ok:
  assumes "sok s" "call_state h fl st n s = Inr s'"
  shows "sok s'"
proof -
  obtain stt where stt: "h_state h = Some stt"
    using assms(2) by (auto simp: call_state_def split: option.split_asm)
  obtain d e where r: "stt (dev s) fl st n = (d, e)" by force
  from state_keeps [OF sok_dev [OF assms(1)] stt r] assms show ?thesis
    by (auto simp: call_state_def stt r srv_ok_dev split: if_split_asm)
qed

lemma call_register_shift_ok:
  assumes "sok s" "call_register_shift h i fl st n p a b s = Inr s'"
  shows "sok s'"
proof -
  obtain rs where rs: "h_register_shift h = Some rs"
    using assms(2) by (auto simp: call_register_shift_def split: option.split_asm)
  show ?thesis
  proof (cases "ok s")
    case False
    with assms rs show ?thesis by (simp add: call_register_shift_def)
  next
    case True
    let ?tdo = "if b \<noteq> 0 then Some (reply_rest s) else None"
    from assms(2) rs True obtain tdo d e where
      r: "rs (dev s) i fl st n (if a \<noteq> 0 then Some (drop p (rx_buf (cl s))) else None) ?tdo = Inr (tdo, d, e)"
      and s': "s' = report e (case tdo of Some bs \<Rightarrow> set_reply_rest bs (s\<lparr>dev := d\<rparr>) | None \<Rightarrow> s\<lparr>dev := d\<rparr>)"
      by (auto simp: call_register_shift_def and_then_eq_Inr Let_def)
    from register_shift_keeps [OF sok_dev [OF assms(1)] rs r]
    have k: "map_option length tdo = map_option length ?tdo" "dev_ok d" by auto
    have "sok (s\<lparr>dev := d\<rparr>)" using assms(1) k(2) by (rule srv_ok_dev)
    with k(1) show ?thesis
      unfolding s' by (auto split: option.split if_split_asm intro!: report_ok set_reply_rest_ok)
  qed
qed

lemma call_register_shift_fault:
  "sok s \<Longrightarrow> h_register_shift h \<noteq> None \<Longrightarrow> call_register_shift h i fl st n p a b s = Inl f \<Longrightarrow> engine_fault f"
  by (auto simp: call_register_shift_def and_then_eq_Inl Let_def split: if_split_asm
      dest!: register_shift_fault [OF sok_dev])

lemma call_mrd_ok:
  assumes "sok s" "call_mrd h fl a n s = Inr s'"
  shows "sok s'"
proof -
  obtain rd where rd: "h_mrd h = Some rd"
    using assms(2) by (auto simp: call_mrd_def split: option.split_asm)
  show ?thesis
  proof (cases "ok s")
    case False
    with assms rd show ?thesis by (simp add: call_mrd_def)
  next
    case True
    with assms(2) rd obtain b d e where r: "rd (dev s) fl a n (reply_rest s) = Inr (b, d, e)"
      and s': "s' = report e (set_reply_rest b (s\<lparr>dev := d\<rparr>))"
      by (auto simp: call_mrd_def and_then_eq_Inr)
    from mrd_keeps [OF sok_dev [OF assms(1)] rd r] assms(1) show ?thesis
      by (simp add: s' set_reply_rest_ok srv_ok_dev)
  qed
qed

lemma call_mwr_ok:
  assumes "sok s" "call_mwr h fl a n p s = Inr s'"
  shows "sok s'"
proof -
  obtain wr where wr: "h_mwr h = Some wr"
    using assms(2) by (auto simp: call_mwr_def split: option.split_asm)
  show ?thesis
  proof (cases "ok s")
    case False
    with assms wr show ?thesis by (simp add: call_mwr_def)
  next
    case True
    with assms(2) wr obtain d e where
      r: "wr (dev s) fl a n (drop p (rx_buf (cl s))) = Inr (d, e)"
      and s': "s' = report e (s\<lparr>dev := d\<rparr>)"
      by (auto simp: call_mwr_def and_then_eq_Inr)
    from mwr_keeps [OF sok_dev [OF assms(1)] wr r] assms(1) show ?thesis
      by (simp add: s' srv_ok_dev)
  qed
qed

lemma call_mrd_fault:
  "sok s \<Longrightarrow> h_mrd h \<noteq> None \<Longrightarrow> call_mrd h fl a n s = Inl f \<Longrightarrow> engine_fault f"
  by (auto simp: call_mrd_def and_then_eq_Inl split: if_split_asm dest!: mrd_fault [OF sok_dev])

lemma call_mwr_fault:
  "sok s \<Longrightarrow> h_mwr h \<noteq> None \<Longrightarrow> call_mwr h fl a n p s = Inl f \<Longrightarrow> engine_fault f"
  by (auto simp: call_mwr_def and_then_eq_Inl split: if_split_asm dest!: mwr_fault [OF sok_dev])

lemma call_state_fault: "h_state h \<noteq> None \<Longrightarrow> call_state h fl st n s \<noteq> Inl f"
  by (auto simp: call_state_def split: prod.splits if_split_asm)

section \<open>Every command keeps the server well formed\<close>

lemma cmd_getinfo_ok: "sok s \<Longrightarrow> cmd_getinfo s p = Inr st \<Longrightarrow> sok (step_srv st)"
  by (auto simp: cmd_getinfo_def Let_def and_then_eq_Inr srv_ok_def reply_wf_def
      dest!: length_write_at)

lemma cmd_capabilities_ok: "sok s \<Longrightarrow> cmd_capabilities h s p = Inr st \<Longrightarrow> sok (step_srv st)"
  by (auto simp: cmd_capabilities_def and_then_eq_Inr srv_ok_def intro: wf_intros)

lemma cmd_configure_ok:
  assumes "sok s" "cmd_configure h s cbuf p = Inr st"
  shows "sok (step_srv st)"
proof -
  obtain v p1 where v: "get_uleb128 (rx_buf (cl s)) (buf_len (cl s)) p = Inr (v, p1)"
    using assms(2) by (auto simp: cmd_configure_def and_then_eq_Inr)
  obtain q where q: "ptr_add s p1 (unat (ucast v :: 32 word)) = Inr q"
    using assms(2) v by (auto simp: cmd_configure_def and_then_eq_Inr)
  show ?thesis
  proof (cases "buf_len (cl s) < q")
    case True
    with assms v q show ?thesis by (auto simp: cmd_configure_def and_then_eq_Inr)
  next
    case False
    with assms(2) v q obtain b0 b1 b2 c b3 where
      b1: "write_at (rx_buf (cl s)) q [0] = Inr b1"
      and b2: "config_loop (h_lock h \<noteq> None \<and> h_unlock h \<noteq> None) b1 p1 (cl s) = Inr (b2, c)"
      and b3: "write_at b2 q [b0] = Inr b3"
      and st: "st = Reply_with_status (s\<lparr>cl := c\<lparr>rx_buf := b3\<rparr>\<rparr>) q"
      by (auto simp: cmd_configure_def and_then_eq_Inr)
    have c: "client_ok h (cl s)" using assms(1) by (simp add: srv_ok_def)
    have "length b3 = length (rx_buf (cl s))"
      using length_write_at [OF b1] config_loop_client_frame [OF b2] length_write_at [OF b3] by simp
    then have "length b3 = length (rx_buf c)" using config_loop_client_frame [OF b2] by simp
    with config_loop_client_ok [OF c b2] assms(1) show ?thesis
      by (simp add: st srv_ok_def client_ok_def)
  qed
qed

lemma cmd_error_ok: "sok s \<Longrightarrow> cmd_error s p = Inr st \<Longrightarrow> sok (step_srv st)"
  by (auto simp: cmd_error_def Let_def and_then_eq_Inr srv_ok_def client_ok_def error_ok_def
      intro: wf_intros)

lemma cmd_lock_ok: "sok s \<Longrightarrow> cmd_lock h s cbuf p = Inr st \<Longrightarrow> sok (step_srv st)"
  by (auto simp: cmd_lock_def and_then_eq_Inr split: if_split_asm dest: need_more_frame do_lock_ok)

lemma cmd_unlock_ok: "sok s \<Longrightarrow> cmd_unlock h s p = Inr st \<Longrightarrow> sok (step_srv st)"
  by (auto simp: cmd_unlock_def and_then_eq_Inr dest: do_unlock_ok)

lemma cmd_shift_ok: "sok s \<Longrightarrow> cmd_shift h s cbuf p = Inr st \<Longrightarrow> sok (step_srv st)"
  by (auto simp: cmd_shift_def and_then_eq_Inr Let_def split: if_split_asm dest!: need_more_frame)
     (blast intro: reply_data_ok call_shift_ok)

lemma cmd_settck_ok:
  assumes "sok s" "cmd_settck h s p = Inr st"
  shows "sok (step_srv st)"
proof -
  have "length b = length (reply_buf (rp s'))"
    if "set_uint_le (reply_buf (rp s')) (reply_len (rp s')) 4 v = Inr b" for b v and s' :: "'d srv"
    using that by (rule length_set_uint_le)
  moreover obtain n where "sok (snd (call_set_tck h n s))" using call_set_tck_ok [OF assms(1)] by blast
  ultimately show ?thesis
    using assms call_set_tck_ok [OF assms(1)]
    by (auto simp: cmd_settck_def and_then_eq_Inr case_prod_beta reply_wf_def srv_ok_def
        split: if_split_asm)
qed

lemma cmd_register_shift_ok:
  "sok s \<Longrightarrow> cmd_register_shift h s cbuf p = Inr st \<Longrightarrow> sok (step_srv st)"
  unfolding cmd_register_shift_def and_then_eq_Inr Let_def
  by (auto simp only: and_then_eq_Inr prod.case step_srv.simps sum.inject
      split: if_split_asm dest!: need_more_frame)
     (blast intro: reply_data_ok call_register_shift_ok)+

lemma cmd_state_ok: "sok s \<Longrightarrow> cmd_state h s cbuf p = Inr st \<Longrightarrow> sok (step_srv st)"
  by (auto simp: cmd_state_def and_then_eq_Inr split: if_split_asm dest!: need_more_frame)
     (blast intro: call_state_ok)

lemma cmd_mrd_ok: "sok s \<Longrightarrow> cmd_mrd h s cbuf p = Inr st \<Longrightarrow> sok (step_srv st)"
  by (auto simp: cmd_mrd_def and_then_eq_Inr split: if_split_asm dest!: need_more_frame)
     (blast intro: reply_data_ok call_mrd_ok)

lemma cmd_mwr_ok: "sok s \<Longrightarrow> cmd_mwr h s cbuf p = Inr st \<Longrightarrow> sok (step_srv st)"
  by (auto simp: cmd_mwr_def and_then_eq_Inr split: if_split_asm dest!: need_more_frame)
     (blast intro: call_mwr_ok)

lemma dispatch_ok:
  assumes "sok s" "dispatch h s cbuf p hdr = Inr st"
  shows "sok (step_srv st)"
  using dispatch_cases [OF assms(2)]
  by (elim disjE conjE)
     (use assms(1) in \<open>auto intro: cmd_getinfo_ok cmd_capabilities_ok cmd_configure_ok cmd_error_ok
        cmd_lock_ok cmd_unlock_ok cmd_shift_ok cmd_settck_ok cmd_register_shift_ok cmd_state_ok
        cmd_mrd_ok cmd_mwr_ok\<close>)

lemma one_command_ok: "sok s \<Longrightarrow> one_command h s cbuf = Inr st \<Longrightarrow> sok (step_srv st)"
  by (auto simp: one_command_def Let_def and_then_eq_Inr split: if_split_asm intro: dispatch_ok)

lemma finish_ok: "sok (step_srv st) \<Longrightarrow> finish cbuf st = Inr r \<Longrightarrow> sok (end_srv r)"
  by (auto simp: finish_def and_then_eq_Inr split: step.split_asm if_split_asm dest: with_status_ok)

lemma iteration_ok: "sok s \<Longrightarrow> iteration h s cbuf = Inr r \<Longrightarrow> sok (end_srv r)"
  by (auto simp: iteration_def and_then_eq_Inr dest: one_command_ok finish_ok)

lemma do_flush_ok: "sok s \<Longrightarrow> sok (snd (do_flush h s))"
proof (cases "h_flush h")
  case (Some fls)
  assume s: "sok s"
  obtain rv b d e where r: "fls (dev s) (reply_buf (rp s)) = (rv, b, d, e)" by (cases rule: prod_cases4)
  from flush_keeps [OF sok_dev [OF s] Some r] s show ?thesis
    by (simp add: do_flush_def Some r) (intro report_ok, simp add: srv_ok_def reply_wf_def)
qed (simp add: do_flush_def)

lemma receive_ok: "sok s \<Longrightarrow> receive s k = Inr t \<Longrightarrow> sok (turn_srv t)"
  by (auto simp: receive_def and_then_eq_Inr srv_ok_def client_ok_def
      split: prod.split_asm received.split_asm dest!: sock_recv_Got length_write_at)

lemma consume_packet_ok: "sok s \<Longrightarrow> consume_packet n s = Inr s' \<Longrightarrow> sok s'"
  by (auto simp: consume_packet_def and_then_eq_Inr Let_def srv_ok_def client_ok_def
      dest!: length_write_at)

lemma after_commands_ok:
  assumes "sok (end_srv r)" "after_commands h r k = Inr t"
  shows "sok (turn_srv t)"
proof (cases r)
  case (Broke s cbuf fill)
  obtain rv s1 where f: "do_flush h s = (rv, s1)" by force
  have "sok s1" using do_flush_ok [of s] assms(1) f Broke by simp
  with assms f Broke show ?thesis
    by (auto simp: after_commands_def and_then_eq_Inr split: if_split_asm
        dest: consume_packet_ok receive_ok)
qed (use assms in \<open>auto simp: after_commands_def\<close>)

lemma command_loop_ok: "command_loop h s cbuf = Inr r \<Longrightarrow> sok s \<Longrightarrow> sok (end_srv r)"
proof (induction h\<equiv>h s cbuf arbitrary: r rule: command_loop.induct)
  case (1 s cbuf)
  from "1.prems"(1) obtain x where it: "iteration h s cbuf = Inr x"
    and r: "(case x of Next s' p \<Rightarrow> command_loop h s' p
       | Broke s' q fill \<Rightarrow> Inr (Broke s' q fill) | Errored s' \<Rightarrow> Inr (Errored s')) = Inr r"
    by (subst (asm) command_loop.simps) (auto simp: and_then_eq_Inr)
  from iteration_ok [OF "1.prems"(2) it] have x: "sok (end_srv x)" .
  show ?case
  proof (cases x)
    case (Next s' p)
    with r x show ?thesis using "1.hyps" [OF it Next] by simp
  qed (use r x in auto)
qed

lemma turn_ok:
  assumes "sok s" "turn h s k = Inr t"
  shows "sok (turn_srv t)"
proof -
  have s0: "sok (s\<lparr>rp := (rp s)\<lparr>reply_len := 0\<rparr>\<rparr>)"
    using assms(1) by (simp add: srv_ok_def reply_wf_def)
  from assms(2) obtain r where r: "command_loop h (s\<lparr>rp := (rp s)\<lparr>reply_len := 0\<rparr>\<rparr>) 0 = Inr r"
    and a: "after_commands h r k = Inr t"
    by (auto simp: turn_def and_then_eq_Inr)
  from command_loop_ok [OF r s0] have e: "sok (end_srv r)" .
  show ?thesis using after_commands_ok [OF e a] .
qed

section \<open>No fault but the engine's own\<close>

lemma engine_calls:
  assumes "sok s"
  shows "engine (call_shift h bits p bytes s)" "engine (do_lock h t s)" "engine (do_unlock h s)"
    "h_register_shift h \<noteq> None \<Longrightarrow> engine (call_register_shift h i fl st n p a b s)"
    "h_state h \<noteq> None \<Longrightarrow> engine (call_state h fl st n s)"
    "h_mrd h \<noteq> None \<Longrightarrow> engine (call_mrd h fl a' n s)"
    "h_mwr h \<noteq> None \<Longrightarrow> engine (call_mwr h fl a' n p s)"
  using do_lock_fault [OF assms]
  by (simp_all add: engine_def call_shift_fault [OF assms] call_register_shift_fault [OF assms]
      call_state_fault call_mrd_fault [OF assms] call_mwr_fault [OF assms])

lemma engine_cmd_getinfo: "sok s \<Longrightarrow> engine (cmd_getinfo s p)"
  unfolding cmd_getinfo_def Let_def
  by (intro engine_intros; (intro engine_calls engine_get_uleb128 engine_get3)?; assumption?)

lemma engine_cmd_capabilities: "sok s \<Longrightarrow> engine (cmd_capabilities h s p)"
  unfolding cmd_capabilities_def Let_def
  by (intro engine_intros; (intro engine_calls engine_get_uleb128 engine_get3)?; assumption?)

lemma engine_cmd_configure: "sok s \<Longrightarrow> engine (cmd_configure h s cbuf p)"
  unfolding cmd_configure_def Let_def
  by (intro engine_intros; (intro engine_calls engine_get_uleb128 engine_get3)?; assumption?)

lemma engine_cmd_error: "sok s \<Longrightarrow> engine (cmd_error s p)"
  unfolding cmd_error_def Let_def
  by (intro engine_intros; (intro engine_calls engine_get_uleb128 engine_get3)?; assumption?)

lemma engine_cmd_lock: "sok s \<Longrightarrow> engine (cmd_lock h s cbuf p)"
  unfolding cmd_lock_def Let_def
  by (intro engine_intros; (intro engine_calls engine_get_uleb128 engine_get3)?; assumption?)

lemma engine_cmd_unlock: "sok s \<Longrightarrow> engine (cmd_unlock h s p)"
  unfolding cmd_unlock_def Let_def
  by (intro engine_intros; (intro engine_calls engine_get_uleb128 engine_get3)?; assumption?)

lemma engine_cmd_shift: "sok s \<Longrightarrow> engine (cmd_shift h s cbuf p)"
  unfolding cmd_shift_def Let_def
  by (intro engine_intros; (intro engine_calls engine_get_uleb128 engine_get3)?; assumption?)

lemma engine_cmd_settck: "sok s \<Longrightarrow> engine (cmd_settck h s p)"
  unfolding cmd_settck_def Let_def
  by (intro engine_intros; (intro engine_calls engine_get_uleb128 engine_get3)?; assumption?)

lemma engine_cmd_register_shift: "sok s \<Longrightarrow> h_register_shift h \<noteq> None \<Longrightarrow> engine (cmd_register_shift h s cbuf p)"
  unfolding cmd_register_shift_def Let_def
  by (intro engine_intros; (intro engine_calls engine_get_uleb128 engine_get3)?; assumption?)

lemma engine_cmd_state: "sok s \<Longrightarrow> h_state h \<noteq> None \<Longrightarrow> engine (cmd_state h s cbuf p)"
  unfolding cmd_state_def Let_def
  by (intro engine_intros; (intro engine_calls engine_get_uleb128 engine_get3)?; assumption?)

lemma engine_cmd_mrd: "sok s \<Longrightarrow> h_mrd h \<noteq> None \<Longrightarrow> engine (cmd_mrd h s cbuf p)"
  unfolding cmd_mrd_def Let_def
  by (intro engine_intros; (intro engine_calls engine_get_uleb128 engine_get3)?; assumption?)

lemma engine_cmd_mwr: "sok s \<Longrightarrow> h_mwr h \<noteq> None \<Longrightarrow> engine (cmd_mwr h s cbuf p)"
  unfolding cmd_mwr_def Let_def
  by (intro engine_intros; (intro engine_calls engine_get_uleb128 engine_get3)?; assumption?)

lemmas engine_commands = engine_cmd_getinfo engine_cmd_capabilities engine_cmd_configure
  engine_cmd_error engine_cmd_lock engine_cmd_unlock engine_cmd_shift engine_cmd_settck
  engine_cmd_register_shift engine_cmd_state engine_cmd_mrd engine_cmd_mwr

lemma engine_dispatch: "sok s \<Longrightarrow> engine (dispatch h s cbuf p hdr)"
  unfolding dispatch_def by (intro engine_control(2) engine_control(1) engine_commands) auto

lemma engine_iteration: "sok s \<Longrightarrow> engine (iteration h s cbuf)"
  unfolding iteration_def one_command_def Let_def
  by (intro engine_intros engine_dispatch)
     (auto simp: finish_def split: step.split intro!: engine_intros)

lemma engine_command_loop: "sok s \<Longrightarrow> engine (command_loop h s cbuf)"
proof (induction h\<equiv>h s cbuf rule: command_loop.induct)
  case (1 s cbuf)
  show ?case
    unfolding command_loop.simps [of h s cbuf]
  proof (rule engine_and_then)
    show "engine (iteration h s cbuf)" by (rule engine_iteration [OF "1.prems"])
  next
    fix r assume it: "iteration h s cbuf = Inr r"
    show "engine (case r of Next s' p \<Rightarrow> command_loop h s' p
       | Broke s' q fill \<Rightarrow> Inr (Broke s' q fill) | Errored s' \<Rightarrow> Inr (Errored s'))"
      using "1.hyps" [OF it] iteration_ok [OF "1.prems" it]
      by (auto split: loop_end.split intro: engine_intros)
  qed
qed

lemma engine_after_commands: "(\<And>s p. r \<noteq> Next s p) \<Longrightarrow> engine (after_commands h r k)"
  unfolding after_commands_def by (cases r) (auto split: prod.split intro!: engine_intros)

lemma engine_turn:
  assumes "sok s"
  shows "engine (turn h s k)"
proof -
  have s0: "sok (s\<lparr>rp := (rp s)\<lparr>reply_len := 0\<rparr>\<rparr>)"
    using assms by (simp add: srv_ok_def reply_wf_def)
  have "engine (after_commands h r k)"
    if "command_loop h (s\<lparr>rp := (rp s)\<lparr>reply_len := 0\<rparr>\<rparr>) 0 = Inr r" for r
    using command_loop_end [OF that] by (intro engine_after_commands) auto
  then show ?thesis
    unfolding turn_def by (intro engine_and_then engine_command_loop s0)
qed

text \<open>
  The whole conversation: it ends, the server is well formed at its end, and if it does not
  reach its end then because of a memory or assertion fault of the engine.
\<close>

lemma read_more_ok: "sok s \<Longrightarrow> read_more h s k = Inr (s', k', e) \<Longrightarrow> sok s'"
proof (induction h\<equiv>h s k rule: read_more.induct)
  case (1 s k)
  from "1.prems"(2) obtain t where t: "turn h s k = Inr t"
    and r: "(case t of Read_more s' k' \<Rightarrow> read_more h s' k' | Finished s' k' e \<Rightarrow> Inr (s', k', e)) =
        Inr (s', k', e)"
    by (subst (asm) read_more.simps) (auto simp: and_then_eq_Inr)
  from turn_ok [OF "1.prems"(1) t] r "1.hyps" [OF t] show ?case
    by (cases t) auto
qed

lemma engine_read_more: "sok s \<Longrightarrow> engine (read_more h s k)"
proof (induction h\<equiv>h s k rule: read_more.induct)
  case (1 s k)
  show ?case
    unfolding read_more.simps [of h s k]
  proof (rule engine_and_then)
    show "engine (turn h s k)" by (rule engine_turn [OF "1.prems"])
  next
    fix t assume t: "turn h s k = Inr t"
    show "engine (case t of Read_more s' k' \<Rightarrow> read_more h s' k' | Finished s' k' e \<Rightarrow> Inr (s', k', e))"
      using "1.hyps" [OF t] turn_ok [OF "1.prems" t]
      by (auto split: turn.split intro: engine_intros)
  qed
qed

end

end
