(* ===== verification/Mem_Main.thy ===== *)
theory Mem_Main
  imports Mem_Start Mem_Hub Mem_Contract
begin

text \<open>
  \<open>main\<close> of \<open>mem/versal/src/xvc_mem.c\<close>: its options, and the server it starts on the debug hub.
  The interpretation of the callback contract on the hub's callbacks is here.
\<close>

section \<open>The callbacks of the hub keep the contract\<close>

text \<open>The mapping: where the hub is, how large it is, and that it is mapped.\<close>

definition hub_ok :: "64 word \<Rightarrow> 64 word \<Rightarrow> xvc_mem \<Rightarrow> bool" where
  "hub_ok a n x \<longleftrightarrow> hub_addr x = a \<and> hub_size x = n \<and> length (hub_mem x) = unat n \<and> hub_mapped x"

interpretation hub: xvc_callbacks mem_handlers "hub_ok a n" for a n
proof unfold_locales
  fix d t n' res d' e
  assume "hub_ok a n d" "h_set_tck mem_handlers d n' = (res, d', e)"
  then show "hub_ok a n d'" by (simp add: mem_handlers_def set_tck_def)
next
  fix d n' tms tdi tdo tdo' d' e
  assume "hub_ok a n d" "h_shift_tms_tdi mem_handlers d n' tms tdi tdo = Inr (tdo', d', e)"
  then show "length tdo' = length tdo \<and> hub_ok a n d'" by (simp add: mem_handlers_def shift_tms_tdi_def)
next
  fix d rd fl ad m b b' d' e
  assume "hub_ok a n d" "h_mrd mem_handlers = Some rd" "rd d fl ad m b = Inr (b', d', e)"
  then show "length b' = length b \<and> hub_ok a n d'"
    by (auto simp: mem_handlers_def mrd_def and_then_eq_Inr split: if_split_asm dest: copy_words_length)
next
  fix d wr fl ad m b d' e
  assume "hub_ok a n d" "h_mwr mem_handlers = Some wr" "wr d fl ad m b = Inr (d', e)"
  then show "hub_ok a n d'"
    by (auto simp: mem_handlers_def mwr_def and_then_eq_Inr hub_ok_def hub_block_def split: if_split_asm
        dest: copy_words_length)
qed (auto simp: mem_handlers_def shift_tms_tdi_def mrd_def mwr_def and_then_eq_Inl engine_fault_def
      split: if_split_asm dest: copy_words_fault)

section \<open>Options\<close>

text \<open>\<open>strtoul(s, NULL, 0)\<close>\<close>

definition digit_value :: "byte \<Rightarrow> nat" where
  "digit_value b =
     (let n = unat b in
      if 48 \<le> n \<and> n \<le> 57 then n - 48
      else if 65 \<le> n \<and> n \<le> 90 then n - 55
      else if 97 \<le> n \<and> n \<le> 122 then n - 87 else 36)"

definition number :: "nat \<Rightarrow> byte list \<Rightarrow> nat" where
  "number base bs = foldl (\<lambda>v b. v * base + digit_value b) 0 (takeWhile (\<lambda>b. digit_value b < base) bs)"

definition is_space :: "byte \<Rightarrow> bool" where
  "is_space b \<longleftrightarrow> b = 0x20 \<or> 9 \<le> b \<and> b \<le> 13"

definition magnitude :: "byte list \<Rightarrow> nat" where
  "magnitude bs =
     (case bs of
        b0 # b1 # b2 # r \<Rightarrow>
          if b0 = 0x30 \<and> (b1 = 0x78 \<or> b1 = 0x58) \<and> digit_value b2 < 16 then number 16 (b2 # r)
          else if b0 = 0x30 then number 8 bs else number 10 bs
      | b0 # r \<Rightarrow> if b0 = 0x30 then number 8 bs else number 10 bs
      | [] \<Rightarrow> 0)"

definition strtoul :: "byte list \<Rightarrow> 64 word" where
  "strtoul s =
     (let t = dropWhile is_space s;
          neg = (t \<noteq> [] \<and> hd t = 0x2D);
          u = (if t \<noteq> [] \<and> (hd t = 0x2D \<or> hd t = 0x2B) then tl t else t);
          n = magnitude u
      in if 2 ^ 64 \<le> n then - 1 else if neg then - word_of_nat n else word_of_nat n)"

datatype logging_mode = LOG_MODE_DEFAULT | LOG_MODE_VERBOSE | LOG_MODE_QUIET

record options =
  o_url :: "byte list"
  o_addr :: "64 word"
  o_quiet :: bool
  o_verbose :: bool
  o_log :: logging_mode

definition options0 :: options where
  "options0 = \<lparr>o_url = bytes_of ''tcp::2542'', o_addr = default_hub_addr,
     o_quiet = False, o_verbose = False, o_log = LOG_MODE_DEFAULT\<rparr>"

definition error_invalid_argument :: int where "error_invalid_argument = 1"

text \<open>\<open>while (i < argc && argv[i][0] == '-')\<close>; \<open>Inl\<close> is an early return of \<open>main\<close>.\<close>

fun parse_args :: "byte list list \<Rightarrow> options \<Rightarrow> int + options" where
  "parse_args [] o1 = Inr o1"
| "parse_args (a # as) o1 =
     (if a = [] \<or> hd a \<noteq> 0x2D then Inr o1
      else if a = bytes_of ''-s'' then
        (case as of [] \<Rightarrow> Inl error_invalid_argument
         | v # as' \<Rightarrow> parse_args as' (o1\<lparr>o_url := v\<rparr>))
      else if a = bytes_of ''--addr'' then
        (case as of [] \<Rightarrow> Inl error_invalid_argument
         | v # as' \<Rightarrow> parse_args as' (o1\<lparr>o_addr := strtoul v\<rparr>))
      else if a = bytes_of ''--verbose'' then
        if o_quiet o1 then Inl error_invalid_argument
        else parse_args as (o1\<lparr>o_verbose := True, o_log := LOG_MODE_VERBOSE\<rparr>)
      else if a = bytes_of ''--quiet'' then
        if o_verbose o1 then Inl error_invalid_argument
        else parse_args as (o1\<lparr>o_quiet := True, o_log := LOG_MODE_QUIET\<rparr>)
      else Inl error_invalid_argument)"

text \<open>
  \<open>dram\<close> is what lies behind a physical address; the mapping of \<open>open_port\<close> shows \<open>hub_size\<close> bytes
  of it. The hub's size has no option.
\<close>

definition mem_main ::
    "(64 word \<Rightarrow> byte list) \<Rightarrow> bool \<Rightarrow> bool \<Rightarrow> (nat \<Rightarrow> byte) \<Rightarrow> net \<Rightarrow> xvc_mem connection list \<Rightarrow>
     byte list list \<Rightarrow> int \<Rightarrow> (int \<times> outcome list \<times> int) res" where
  "mem_main dram dm mm heap w conns argv fds =
     (case parse_args argv options0 of
        Inl ret \<Rightarrow> Inr (ret, [], fds)
      | Inr o1 \<Rightarrow>
          and_then (xvcserver_start mem_handlers heap w conns (o_url o1)
            \<lparr>hub_addr = o_addr o1, hub_size = default_hub_size, hub_mem = dram (o_addr o1),
              hub_mapped = False, devmem_ok = dm, mmap_ok = mm\<rparr> reply0 fds)
            (\<lambda>(ret, os, d, r, fds'). Inr (ret, os, fds')))"

lemma parse_args_logging:
  "parse_args as o1 = Inr o2 \<Longrightarrow> \<not> (o_quiet o1 \<and> o_verbose o1) \<Longrightarrow>
     o_log o1 = (if o_verbose o1 then LOG_MODE_VERBOSE else if o_quiet o1 then LOG_MODE_QUIET else LOG_MODE_DEFAULT) \<Longrightarrow>
     \<not> (o_quiet o2 \<and> o_verbose o2) \<and>
     o_log o2 = (if o_verbose o2 then LOG_MODE_VERBOSE else if o_quiet o2 then LOG_MODE_QUIET else LOG_MODE_DEFAULT)"
  by (induction as o1 rule: parse_args.induct) (auto split: if_split_asm list.split_asm)

section \<open>The server on the hub\<close>

text \<open>Between connections the hub is unmapped, but where it is and how large it is stay.\<close>

definition hub_idle :: "64 word \<Rightarrow> 64 word \<Rightarrow> xvc_mem \<Rightarrow> bool" where
  "hub_idle a n x \<longleftrightarrow> hub_addr x = a \<and> hub_size x = n \<and> length (hub_mem x) = unat n"

definition connection_ok :: "'d connection \<Rightarrow> bool" where
  "connection_ok k \<longleftrightarrow> length (c_block k) = max_packet_len"

lemma read_packet_ok:
  assumes "srv_ok mem_handlers (hub_ok a n) s"
  shows "(\<exists>s' k' e. read_packet mem_handlers heap s k = Inr (s', k', e) \<and>
            srv_ok mem_handlers (hub_ok a n) s') \<or>
         (\<exists>f. read_packet mem_handlers heap s k = Inl f \<and> engine_fault f)"
proof -
  have "reply_wf (rp s)" using assms by (simp add: srv_ok_def)
  then obtain r where r: "reply_buf_size heap (word_of_nat max_packet_len) (rp s) = Inr r" "reply_ready r"
    using reply_buf_size_ready [of "rp s" heap] by (auto simp: max_packet_len_def)
  have s: "srv_ok mem_handlers (hub_ok a n) (s\<lparr>rp := r\<rparr>)"
    using assms r(2) by (simp add: srv_ok_def reply_ready_def)
  have rp: "read_packet mem_handlers heap s k = read_more mem_handlers (s\<lparr>rp := r\<rparr>) k"
    by (simp add: read_packet_def r)
  show ?thesis
  proof (cases "read_more mem_handlers (s\<lparr>rp := r\<rparr>) k")
    case (Inl f)
    with hub.engine_read_more [OF s] have "engine_fault f" by (auto simp: engine_def)
    with rp Inl show ?thesis by simp
  next
    case (Inr x)
    obtain s' k' e where "x = (s', k', e)" by (cases x)
    with Inr rp hub.read_more_ok [OF s] show ?thesis by auto
  qed
qed

lemma serve_ok:
  assumes "hub_idle a n d" "reply_wf r" "connection_ok k"
  shows "(\<exists>o1 d' r' fds'. serve mem_handlers heap k d r fds = Inr (o1, d', r', fds') \<and>
            hub_idle a n d' \<and> reply_wf r') \<or>
         (\<exists>f. serve mem_handlers heap k d r fds = Inl f \<and> (engine_fault f \<or> f = Exit 1))"
proof (cases "peer_ok k \<and> devmem_ok d \<and> mmap_ok d")
  case False
  with assms show ?thesis
    by (auto simp: serve_def Let_def mem_handlers_def open_port_def)
next
  case True
  let ?s = "\<lparr>cl = client0 (c_addr k) (c_block k), rp = r, dev = d\<lparr>hub_mapped := True\<rparr>\<rparr>"
  have s: "srv_ok mem_handlers (hub_ok a n) ?s"
    using assms by (simp add: srv_ok_def client_ok_def client0_def hub_ok_def hub_idle_def
        connection_ok_def error_ok_def)
  have op: "h_open_port mem_handlers d = Inr (0, d\<lparr>hub_mapped := True\<rparr>, None)"
    using True by (simp add: mem_handlers_def open_port_def)
  have eq: "serve mem_handlers heap k d r fds =
      and_then (read_packet mem_handlers heap ?s (c_sock k)) (\<lambda>(s, k', en).
        Inr (Served k' en, h_close_port mem_handlers (dev s), rp s, fds))"
    using True op by (simp add: serve_def Let_def report_def)
  from read_packet_ok [OF s, of heap "c_sock k"] show ?thesis
    unfolding eq
    by (auto simp: srv_ok_def hub_ok_def hub_idle_def mem_handlers_def close_port_def)
qed

lemma accept_loop_ok:
  "hub_idle a n d \<Longrightarrow> reply_wf r \<Longrightarrow> \<forall>k \<in> set ks. connection_ok k \<Longrightarrow>
   (\<exists>os d' r' fds'. accept_loop mem_handlers heap ks d r fds = Inr (os, d', r', fds') \<and>
       hub_idle a n d' \<and> reply_wf r') \<or>
   (\<exists>f. accept_loop mem_handlers heap ks d r fds = Inl f \<and> (engine_fault f \<or> f = Exit 1))"
proof (induction ks arbitrary: d r fds)
  case (Cons k ks)
  from Cons.prems(3) have k: "connection_ok k" and ks: "\<forall>k \<in> set ks. connection_ok k" by simp_all
  from serve_ok [OF Cons.prems(1,2) k, of heap fds] show ?case
  proof (elim disjE exE conjE)
    fix o1 d1 r1 fds1
    assume s: "serve mem_handlers heap k d r fds = Inr (o1, d1, r1, fds1)"
      and i: "hub_idle a n d1" "reply_wf r1"
    from Cons.IH [OF i ks, of fds1] show ?thesis
      by (elim disjE exE conjE) (simp_all add: s)
  qed auto
qed simp

lemma scan_field_engine: "engine (scan_field buf c i)"
  by (auto simp: engine_def engine_fault_def dest: scan_field_fault)

lemma parse_url_engine: "engine (parse_url url)"
proof -
  have g: "engine (get_field buf i c)" for buf i c
    by (auto simp: engine_def engine_fault_def dest: get_field_fault)
  have s: "engine (string_at buf i)" "engine (strchr_at buf i c)" for buf i c
    unfolding string_at_def strlen_at_def strchr_at_def by (intro engine_intros scan_field_engine)+
  have t: "engine (is_tcp buf i)" for buf i
    unfolding is_tcp_def by (intro engine_intros)
  have p: "engine (url_port buf i q)" for buf i q
    unfolding url_port_def by (intro engine_intros g s)
  show ?thesis
    unfolding parse_url_def by (intro engine_intros g s t p)
qed

section \<open>Properties\<close>

text \<open>C5. The memory server, whatever its arguments, its clients and the network do: \<open>main\<close> returns,
  or the process stops in \<open>open_port\<close> with status 1, or it stops with a fault of the protocol
  engine (memory, shift, pointer or assertion). It never calls a null callback and never hangs.\<close>

theorem mem_main_outcome:
  assumes "\<And>a. length (dram a) = 0x200000" "\<forall>k \<in> set conns. connection_ok k"
  shows "(\<exists>x. mem_main dram dm mm heap w conns argv fds = Inr x) \<or>
    (\<exists>f. mem_main dram dm mm heap w conns argv fds = Inl f \<and>
       f \<in> {Out_of_bounds, Shift_too_wide, Pointer_wrap, Assert_failed, Exit 1})"
proof (cases "parse_args argv options0")
  case (Inl ret)
  then show ?thesis by (simp add: mem_main_def)
next
  case (Inr o1)
  let ?d = "\<lparr>hub_addr = o_addr o1, hub_size = default_hub_size, hub_mem = dram (o_addr o1),
              hub_mapped = False, devmem_ok = dm, mmap_ok = mm\<rparr>"
  have idle: "hub_idle (o_addr o1) default_hub_size ?d"
    using assms(1) by (simp add: hub_idle_def default_hub_size_def)
  have wf: "reply_wf reply0" by (simp add: reply_wf_def reply0_def)
  have eng: "f \<in> {Out_of_bounds, Shift_too_wide, Pointer_wrap, Assert_failed, Exit 1}"
    if "engine_fault f \<or> f = Exit 1" for f
    using that by (auto simp: engine_fault_def)
  have main: "mem_main dram dm mm heap w conns argv fds =
      and_then (xvcserver_start mem_handlers heap w conns (o_url o1) ?d reply0 fds)
        (\<lambda>(ret, os, d, r, fds'). Inr (ret, os, fds'))"
    by (simp add: mem_main_def Inr)
  show ?thesis
  proof (cases "xvcserver_start mem_handlers heap w conns (o_url o1) ?d reply0 fds")
    case (Inr x)
    then show ?thesis by (simp add: main case_prod_beta)
  next
    case (Inl f)
    have "engine_fault f \<or> f = Exit 1"
    proof (cases "parse_url (o_url o1)")
      case (Inl e)
      with \<open>xvcserver_start _ _ _ _ _ _ _ _ = Inl f\<close> parse_url_engine [of "o_url o1"]
      show ?thesis by (auto simp: xvcserver_start_def engine_def)
    next
      case (Inr u)
      with Inl obtain fds1 where "accept_loop mem_handlers heap conns ?d reply0 fds1 = Inl f"
        by (auto simp: xvcserver_start_def and_then_eq_Inl split: sum.split_asm prod.split_asm if_split_asm)
      with accept_loop_ok [OF idle wf assms(2), of heap fds1] show ?thesis by auto
    qed
    with Inl eng show ?thesis by (simp add: main)
  qed
qed

theorem mem_main_outcome_witness:
  "(\<exists>x. mem_main (\<lambda>_. replicate 0x200000 0) True True (\<lambda>_. 0) good_net [] [] 0 = Inr x) \<or>
    (\<exists>f. mem_main (\<lambda>_. replicate 0x200000 0) True True (\<lambda>_. 0) good_net [] [] 0 = Inl f \<and>
       f \<in> {Out_of_bounds, Shift_too_wide, Pointer_wrap, Assert_failed, Exit 1})"
  by (rule mem_main_outcome) simp_all

text \<open>The options: \<open>--quiet\<close> and \<open>--verbose\<close> exclude each other in both orders, and the logging
  mode that is handed on is the one the options ask for.\<close>

lemma options_logging:
  assumes "parse_args argv options0 = Inr o1"
  shows "\<not> (o_quiet o1 \<and> o_verbose o1) \<and>
    o_log o1 = (if o_verbose o1 then LOG_MODE_VERBOSE else if o_quiet o1 then LOG_MODE_QUIET else LOG_MODE_DEFAULT)"
  using parse_args_logging [OF assms] by (simp add: options0_def)

end
