(* ===== verification/Mem_Spec.thy ===== *)
theory Mem_Spec
  imports Mem_Main
begin

unbundle bit_operations_syntax

text \<open>
  The protocol as its clients see it. A \<open>request\<close> is a command with its arguments, \<open>encode\<close> its
  bytes on the wire, and \<open>exec\<close> what it does to an abstract server: the configuration, the pending
  error and the hub. The lemmas show that the byte-level engine of \<open>xvcserver.c\<close> on the callbacks
  of \<open>xvc_mem.c\<close> runs exactly this machine.
\<close>

section \<open>Requests\<close>

datatype request =
    Getinfo
  | Capabilities
  | Configure "byte list"
  | Error_query
  | Lock "64 word"
  | Unlock
  | Settck "32 word"
  | Mrd "64 word" "64 word" "64 word"      \<comment> \<open>flags, address, number of bytes\<close>
  | Mwr "64 word" "64 word" "byte list"    \<comment> \<open>flags, address, data\<close>

primrec cmd_name :: "request \<Rightarrow> byte list" where
  "cmd_name Getinfo = bytes_of ''getinfo:''"
| "cmd_name Capabilities = bytes_of ''capabilities:''"
| "cmd_name (Configure cs) = bytes_of ''configure:''"
| "cmd_name Error_query = bytes_of ''error:''"
| "cmd_name (Lock t) = bytes_of ''lock:''"
| "cmd_name Unlock = bytes_of ''unlock:''"
| "cmd_name (Settck n) = bytes_of ''settck:''"
| "cmd_name (Mrd f a n) = bytes_of ''mrd:''"
| "cmd_name (Mwr f a d) = bytes_of ''mwr:''"

primrec cmd_args :: "request \<Rightarrow> byte list" where
  "cmd_args Getinfo = []"
| "cmd_args Capabilities = []"
| "cmd_args (Configure cs) = uleb_bytes (word_of_nat (length cs)) @ cs"
| "cmd_args Error_query = []"
| "cmd_args (Lock t) = uleb_bytes t"
| "cmd_args Unlock = []"
| "cmd_args (Settck n) = le_bytes 4 n"
| "cmd_args (Mrd f a n) = uleb_bytes f @ uleb_bytes a @ uleb_bytes n"
| "cmd_args (Mwr f a d) = uleb_bytes f @ uleb_bytes a @ uleb_bytes (word_of_nat (length d)) @ d"

definition encode :: "request \<Rightarrow> byte list" where
  "encode r = cmd_name r @ cmd_args r"

section \<open>The abstract server\<close>

type_synonym astate = "conf \<times> xvc_mem"

definition in_hub :: "xvc_mem \<Rightarrow> 64 word \<Rightarrow> nat \<Rightarrow> bool" where
  "in_hub x a n \<longleftrightarrow>
     unat (hub_addr x) \<le> unat a \<and> unat a + n \<le> unat (hub_addr x) + unat (hub_size x)"

definition hub_read :: "xvc_mem \<Rightarrow> 64 word \<Rightarrow> nat \<Rightarrow> byte list" where
  "hub_read x a n = take n (drop (unat a - unat (hub_addr x)) (hub_mem x))"

definition hub_write :: "xvc_mem \<Rightarrow> 64 word \<Rightarrow> byte list \<Rightarrow> xvc_mem" where
  "hub_write x a d =
     (let o1 = unat a - unat (hub_addr x)
      in x\<lparr>hub_mem := take o1 (hub_mem x) @ d @ drop (o1 + length d) (hub_mem x)\<rparr>)"

definition status_byte :: "conf \<Rightarrow> byte list" where
  "status_byte c = [if pending_error c \<noteq> [] then 1 else 0]"

definition refuse :: "byte list \<Rightarrow> conf \<Rightarrow> conf" where \<comment> \<open>an error is kept until it is asked for\<close>
  "refuse msg c = (if pending_error c = [] then set_error msg c else c)"

definition mem_capabilities :: "byte list" where
  "mem_capabilities = bytes_of ''memory,idcode=2315268243,status''"

primrec exec :: "request \<Rightarrow> astate \<Rightarrow> astate \<times> byte list" where
  "exec Getinfo st = (st, getinfo_text max_packet_len)"
| "exec Capabilities st =
     (st, uleb_bytes (word_of_nat (length mem_capabilities)) @ mem_capabilities)"
| "exec (Configure cs) st =
     (let c = conf_fold False (split_items (cstring cs)) (fst st)
      in ((c, snd st), status_byte c))"
| "exec Error_query st =
     (let e = pending_error (fst st)
      in (((fst st)\<lparr>pending_error := []\<rparr>, snd st), uleb_bytes (word_of_nat (length e)) @ e))"
| "exec (Lock t) st =
     (let c = refuse err_locking_disabled (fst st) in ((c, snd st), status_byte c))"
| "exec Unlock st =
     (let c = refuse err_locking_disabled (fst st) in ((c, snd st), status_byte c))"
| "exec (Settck n) st =
     (st, le_bytes 4 n @ (if enable_status (fst st) = 0 then [] else status_byte (fst st)))"
| "exec (Mrd f a n) st =
     (if pending_error (fst st) = [] \<and> in_hub (snd st) a (unat n)
      then (st, hub_read (snd st) a (unat n) @ [0])
      else let c = refuse (err_invalid a n) (fst st)
           in ((c, snd st), replicate (unat n) 0 @ [1]))"
| "exec (Mwr f a d) st =
     (if pending_error (fst st) = [] \<and> in_hub (snd st) a (length d)
      then ((fst st, hub_write (snd st) a d), [0])
      else let c = refuse (err_invalid a (word_of_nat (length d))) (fst st)
           in ((c, snd st), [1]))"

primrec exec_all :: "request list \<Rightarrow> astate \<Rightarrow> astate \<times> byte list" where
  "exec_all [] st = (st, [])"
| "exec_all (r # rs) st =
     (case exec r st of (st1, out) \<Rightarrow>
      case exec_all rs st1 of (st2, outs) \<Rightarrow> (st2, out @ outs))"

text \<open>
  Requests the bytes of which mean what they say: counts in whole words (other counts make the
  word loop copy past the end) and addresses that do not wrap.
\<close>

primrec request_ok :: "request \<Rightarrow> bool" where
  "request_ok Getinfo = True"
| "request_ok Capabilities = True"
| "request_ok (Configure cs) = True"
| "request_ok Error_query = True"
| "request_ok (Lock t) = True"
| "request_ok Unlock = True"
| "request_ok (Settck n) = True"
| "request_ok (Mrd f a n) = (4 dvd unat n \<and> unat a + unat n < 2 ^ 64)"
| "request_ok (Mwr f a d) = (4 dvd length d \<and> unat a + length d < 2 ^ 64)"

section \<open>Finding the command\<close>

lemma find_colon_at:
  assumes "bytes_at buf p (name @ [0x3A])" "0x3A \<notin> set name" "p + length name < e"
  shows "find_colon buf e p = Inr (p + length name)"
  using assms
proof (induction name arbitrary: p)
  case Nil
  then have "p < length buf" "buf ! p = 0x3A"
    using bytes_at_nth [OF Nil.prems(1), of 0] by (auto simp: bytes_at_def)
  with Nil show ?case by (simp add: find_colon.simps [of buf e p])
next
  case (Cons b name)
  have b: "p < length buf" "buf ! p = b"
    using bytes_at_nth [OF Cons.prems(1), of 0] Cons.prems(1) by (auto simp: bytes_at_def)
  have "bytes_at buf (p + 1) (name @ [0x3A])"
    using Cons.prems(1) bytes_at_append [of buf p "[b]" "name @ [0x3A]"] by simp
  with Cons.prems Cons.IH [of "p + 1"] b show ?case by (simp add: find_colon.simps [of buf e p])
qed

lemma one_command_header:
  assumes "bytes_at (rx_buf (cl s)) cbuf (name @ [0x3A])" "0x3A \<notin> set name" "length name < 30"
    and "cbuf + length name < buf_len (cl s)"
  shows "one_command h s cbuf = dispatch h s cbuf (cbuf + length name + 1) (name @ [0x3A])"
proof -
  have "find_colon (rx_buf (cl s)) (min (cbuf + 30) (buf_len (cl s))) cbuf = Inr (cbuf + length name)"
    using assms by (intro find_colon_at) auto
  moreover have "take (length name + 1) (drop cbuf (rx_buf (cl s))) = name @ [0x3A]"
    using assms(1) by (simp add: bytes_at_def)
  moreover have "\<not> min (cbuf + 30) (buf_len (cl s)) \<le> cbuf + length name" using assms(3,4) by simp
  ultimately show ?thesis by (simp add: one_command_def Let_def)
qed

definition run :: "xvc_mem srv \<Rightarrow> nat \<Rightarrow> request \<Rightarrow> nat \<Rightarrow> xvc_mem step res" where
  "run s cbuf r p =
     (case r of
        Getinfo \<Rightarrow> cmd_getinfo s p
      | Capabilities \<Rightarrow> cmd_capabilities mem_handlers s p
      | Configure cs \<Rightarrow> cmd_configure mem_handlers s cbuf p
      | Error_query \<Rightarrow> cmd_error s p
      | Lock t \<Rightarrow> cmd_lock mem_handlers s cbuf p
      | Unlock \<Rightarrow> cmd_unlock mem_handlers s p
      | Settck n \<Rightarrow> cmd_settck mem_handlers s p
      | Mrd f a n \<Rightarrow> cmd_mrd mem_handlers s cbuf p
      | Mwr f a d \<Rightarrow> cmd_mwr mem_handlers s cbuf p)"

lemma cmd_name_colon:
  "cmd_name r = butlast (cmd_name r) @ [0x3A]" "0x3A \<notin> set (butlast (cmd_name r))"
  "length (cmd_name r) \<le> 13" "cmd_name r \<noteq> []"
  by (cases r; simp add: bytes_of_def)+

lemma dispatch_run: "dispatch mem_handlers s cbuf p (cmd_name r) = run s cbuf r p"
  by (cases r) (simp_all add: dispatch_def run_def bytes_of_def mem_handlers_def)

lemma one_command_run:
  assumes "bytes_at (rx_buf (cl s)) cbuf (cmd_name r)" "cbuf + length (cmd_name r) \<le> buf_len (cl s)"
  shows "one_command mem_handlers s cbuf = run s cbuf r (cbuf + length (cmd_name r))"
proof -
  let ?n = "butlast (cmd_name r)"
  have n: "length ?n + 1 = length (cmd_name r)" using cmd_name_colon(4) [of r] by (cases "cmd_name r") auto
  have "one_command mem_handlers s cbuf = dispatch mem_handlers s cbuf (cbuf + length ?n + 1) (?n @ [0x3A])"
  proof (rule one_command_header)
    show "bytes_at (rx_buf (cl s)) cbuf (?n @ [0x3A])" using assms(1) cmd_name_colon(1) [of r] by simp
    show "length ?n < 30" using cmd_name_colon(3) [of r] by simp
    show "cbuf + length ?n < buf_len (cl s)" using assms(2) n by linarith
  qed (rule cmd_name_colon)
  also have "?n @ [0x3A] = cmd_name r" by (rule cmd_name_colon(1) [symmetric])
  also have "cbuf + length ?n + 1 = cbuf + length (cmd_name r)" using n by simp
  finally show ?thesis by (simp only: dispatch_run)
qed

section \<open>Appending to the reply\<close>

definition appended :: "reply \<Rightarrow> byte list \<Rightarrow> reply \<Rightarrow> bool" where
  "appended r bs r' \<longleftrightarrow>
     reply_ready r' \<and> reply_len r' = reply_len r + length bs \<and> reply_max r' = reply_max r \<and>
     reply_bytes r' = reply_bytes r @ bs"

lemma appended_refl: "reply_ready r \<Longrightarrow> appended r [] r"
  by (simp add: appended_def)

lemma appended_trans: "appended r xs r1 \<Longrightarrow> appended r1 ys r2 \<Longrightarrow> appended r (xs @ ys) r2"
  by (simp add: appended_def)

lemma appended_len: "appended r bs r' \<Longrightarrow> reply_len r' = reply_len r + length bs"
  by (simp add: appended_def)

lemma appended_ready: "appended r bs r' \<Longrightarrow> reply_ready r'"
  by (simp add: appended_def)

text \<open>Any update that keeps what is before the end and puts \<open>bs\<close> after it appends \<open>bs\<close>.\<close>

lemma appendedI:
  assumes "reply_ready r" "reply_len r + length bs \<le> max_packet_len"
    and "length b = length (reply_buf r)" "take (reply_len r + length bs) b = take (reply_len r) (reply_buf r) @ bs"
  shows "appended r bs (r\<lparr>reply_buf := b, reply_len := u32 (reply_len r + length bs)\<rparr>)"
proof -
  have "reply_len r + length bs < 2 ^ 32" using assms(2) by (simp add: max_packet_len_def)
  with assms show ?thesis
    by (simp add: appended_def reply_ready_def reply_wf_def reply_bytes_def)
qed

lemma reply_append_appended:
  assumes "reply_ready r" "reply_len r + length bs \<le> max_packet_len"
  shows "\<exists>r'. reply_append bs r = Inr r' \<and> appended r bs r'"
proof -
  have l: "reply_len r + length bs \<le> length (reply_buf r)"
    using assms by (simp add: reply_ready_def reply_wf_def)
  then show ?thesis
    using appendedI [OF assms, of "take (reply_len r) (reply_buf r) @ bs @ drop (reply_len r + length bs) (reply_buf r)"]
    by (simp add: reply_append_def write_at_ok)
qed

lemma reply_uleb128_appended:
  assumes "reply_ready r" "reply_len r + length (uleb_bytes v) \<le> max_packet_len"
  shows "\<exists>r'. reply_uleb128 v r = Inr r' \<and> appended r (uleb_bytes v) r'"
  using reply_append_appended [OF assms] reply_uleb128_append [OF assms] by simp

lemma with_status_appended:
  assumes "reply_ready (rp s)" "reply_len (rp s) < max_packet_len"
  shows "\<exists>r'. with_status s = Inr (s\<lparr>rp := r'\<rparr>) \<and>
    appended (rp s) [if pending_error (cl s) \<noteq> [] then 1 else 0] r'"
proof -
  let ?b = "[if pending_error (cl s) \<noteq> [] then 1 else (0 :: byte)]"
  have "reply_len (rp s) + length ?b \<le> max_packet_len" using assms(2) by simp
  from reply_append_appended [OF assms(1) this] show ?thesis
    by (auto simp: with_status_def reply_status_append [OF assms])
qed

section \<open>The simulation relation\<close>

definition sim :: "64 word \<Rightarrow> 64 word \<Rightarrow> xvc_mem srv \<Rightarrow> bool" where
  "sim a n s \<longleftrightarrow>
     srv_ok mem_handlers (hub_ok a n) s \<and> reply_ready (rp s) \<and> max_packet_len < reply_max (rp s) \<and>
     reply_len (rp s) \<le> max_packet_len \<and>
     enable_locking (cl s) = 0 \<and> buf_max (cl s) = max_packet_len \<and>
     buf_addr (cl s) + 2 * max_packet_len < 2 ^ 64 \<and> unat a + unat n < 2 ^ 64"

definition abs_srv :: "xvc_mem srv \<Rightarrow> astate" where
  "abs_srv s = (conf.truncate (cl s), dev s)"

definition stepped :: "64 word \<Rightarrow> 64 word \<Rightarrow> xvc_mem srv \<Rightarrow> xvc_mem srv \<Rightarrow> nat \<Rightarrow> astate \<times> byte list \<Rightarrow> bool" where
  "stepped a n s s' q res \<longleftrightarrow>
     sim a n s' \<and> abs_srv s' = fst res \<and> appended (rp s) (snd res) (rp s') \<and>
     client_frame (cl s) (cl s') \<and> drop q (rx_buf (cl s')) = drop q (rx_buf (cl s))"

lemma sim_ready: "sim a n s \<Longrightarrow> reply_ready (rp s)"
  by (simp add: sim_def)

lemma sim_rp: "sim a n s \<Longrightarrow> appended (rp s) bs r \<Longrightarrow> reply_len (rp s) + length bs \<le> max_packet_len \<Longrightarrow>
   sim a n (s\<lparr>rp := r\<rparr>)"
  by (simp add: sim_def appended_def srv_ok_def reply_ready_def)

lemma abs_srv_rp [simp]: "abs_srv (s\<lparr>rp := r\<rparr>) = abs_srv s"
  by (simp add: abs_srv_def)

lemma truncate_set_error [simp]: "conf.truncate (set_error m c) = set_error m (conf.truncate c)"
  by (simp add: set_error_def conf.defs)

lemma truncate_simps [simp]:
  "pending_error (conf.truncate c) = pending_error c"
  "enable_status (conf.truncate c) = enable_status c"
  "enable_locking (conf.truncate c) = enable_locking c"
  "conf.truncate (c\<lparr>enable_status := v\<rparr>) = (conf.truncate c)\<lparr>enable_status := v\<rparr>"
  "conf.truncate (c\<lparr>enable_locking := v\<rparr>) = (conf.truncate c)\<lparr>enable_locking := v\<rparr>"
  "conf.truncate (c\<lparr>pending_error := e\<rparr>) = (conf.truncate c)\<lparr>pending_error := e\<rparr>"
  by (simp_all add: conf.defs)

lemma truncate_client [simp]:
  "conf.truncate (c\<lparr>rx_buf := b\<rparr>) = conf.truncate (c :: client)"
  "conf.truncate (c\<lparr>buf_len := k\<rparr>) = conf.truncate c"
  "conf.truncate (c\<lparr>locked := l\<rparr>) = conf.truncate c"
  by (simp_all add: conf.defs)

lemma config_apply_truncate:
  "config_apply b e nm (conf.truncate c) = map_prod conf.truncate id (config_apply b e nm c)"
  by (simp add: config_apply_def)

lemma conf_fold_truncate: "conf_fold b its (conf.truncate c) = conf.truncate (conf_fold b its c)"
  by (induction its arbitrary: c)
     (simp_all add: config_apply_truncate case_prod_beta map_prod_def)

lemma conf_fold_locking: "enable_locking (conf_fold False its c) = enable_locking c"
proof (induction its arbitrary: c)
  case (Cons it its)
  have "enable_locking (fst (config_apply False e nm c)) = enable_locking c" for e nm
    by (simp add: config_apply_def set_error_def)
  with Cons show ?case by (simp add: case_prod_beta)
qed simp

text \<open>The shape of most commands: append some bytes, then the status byte or not.\<close>

lemma finish_reply:
  assumes "sim a n s'" "appended (rp s) bs (rp s')" "client_frame (cl s) (cl s')"
    "rx_buf (cl s') = rx_buf (cl s)" "res = (abs_srv s', bs)"
  shows "\<exists>s''. finish cbuf (Reply s' q) = Inr (Next s'' q) \<and> stepped a n s s'' q res"
  using assms by (simp add: finish_def stepped_def)

lemma finish_status:
  assumes "sim a n s'" "appended (rp s) bs (rp s')" "client_frame (cl s) (cl s')"
    "drop q (rx_buf (cl s')) = drop q (rx_buf (cl s))"
    "reply_len (rp s) + length bs < max_packet_len"
    "res = (abs_srv s', bs @ status_byte (fst (abs_srv s')))"
  shows "\<exists>s''. finish cbuf (Reply_with_status s' q) = Inr (Next s'' q) \<and> stepped a n s s'' q res"
proof -
  have "reply_len (rp s') < max_packet_len" using assms(2,5) by (simp add: appended_len)
  from with_status_appended [OF appended_ready [OF assms(2)] this] obtain r' where
    w: "with_status s' = Inr (s'\<lparr>rp := r'\<rparr>)"
    and r': "appended (rp s') [if pending_error (cl s') \<noteq> [] then 1 else 0] r'" by blast
  have ap: "appended (rp s) (bs @ status_byte (fst (abs_srv s'))) r'"
    using appended_trans [OF assms(2) r'] by (simp add: status_byte_def abs_srv_def)
  have "sim a n (s'\<lparr>rp := r'\<rparr>)"
    using sim_rp [OF assms(1) r'] assms(5) appended_len [OF assms(2)] by simp
  with ap w assms show ?thesis by (simp add: finish_def stepped_def)
qed

lemma finish_optional_status:
  assumes "sim a n s'" "appended (rp s) bs (rp s')" "client_frame (cl s) (cl s')"
    "rx_buf (cl s') = rx_buf (cl s)"
    "res = (abs_srv s', bs @ (if enable_status (fst (abs_srv s')) = 0 then [] else status_byte (fst (abs_srv s'))))"
    "reply_len (rp s) + length (snd res) \<le> max_packet_len"
  shows "\<exists>s''. finish cbuf (Reply_with_optional_status s' q) = Inr (Next s'' q) \<and> stepped a n s s'' q res"
proof (cases "enable_status (cl s') = 0")
  case True
  with assms show ?thesis by (simp add: finish_def stepped_def abs_srv_def)
next
  case False
  then have "finish cbuf (Reply_with_optional_status s' q) = finish cbuf (Reply_with_status s' q)"
    by (simp add: finish_def)
  moreover have "reply_len (rp s) + length bs < max_packet_len"
    using assms(5,6) False by (simp add: abs_srv_def status_byte_def)
  moreover have "res = (abs_srv s', bs @ status_byte (fst (abs_srv s')))"
    using assms(5) False by (simp add: abs_srv_def)
  ultimately show ?thesis using finish_status [OF assms(1-3)] assms(4) by simp
qed

section \<open>Reading the arguments\<close>

lemma get_uleb128_at:
  "bytes_at buf p (uleb_bytes v) \<Longrightarrow> p + length (uleb_bytes v) \<le> e \<Longrightarrow> e \<le> length buf \<Longrightarrow>
   get_uleb128 buf e p = Inr (v, p + length (uleb_bytes v))"
  by (intro get_uleb128_bytes) (auto simp: bytes_at_def)

lemma get3_at:
  assumes "bytes_at (rx_buf (cl s)) p (uleb_bytes a @ uleb_bytes b @ uleb_bytes c @ rest)"
    and "p + length (uleb_bytes a @ uleb_bytes b @ uleb_bytes c) \<le> buf_len (cl s)"
    and "buf_len (cl s) \<le> length (rx_buf (cl s))"
  shows "get3_uleb128 s p = Inr (a, b, c, p + length (uleb_bytes a @ uleb_bytes b @ uleb_bytes c))"
proof -
  let ?p1 = "p + length (uleb_bytes a)"
  let ?p2 = "?p1 + length (uleb_bytes b)"
  note b = assms(1) [unfolded bytes_at_append]
  have "get_uleb128 (rx_buf (cl s)) (buf_len (cl s)) p = Inr (a, ?p1)"
    using b assms(2,3) by (intro get_uleb128_at) auto
  moreover have "get_uleb128 (rx_buf (cl s)) (buf_len (cl s)) ?p1 = Inr (b, ?p2)"
    using b assms(2,3) by (intro get_uleb128_at) auto
  moreover have "get_uleb128 (rx_buf (cl s)) (buf_len (cl s)) ?p2 = Inr (c, ?p2 + length (uleb_bytes c))"
    using b assms(2,3) by (intro get_uleb128_at) auto
  ultimately show ?thesis by (simp add: get3_uleb128_def)
qed

lemma get_uint_le_at: "bytes_at buf p (le_bytes 4 v) \<Longrightarrow> get_uint_le buf p 4 = Inr v"
  by (intro get_uint_le_bytes) (auto simp: bytes_at_def)

lemma cstring_in_block:
  assumes "p + length cs < length b" "take (length cs) (drop p b) = cs" "b ! (p + length cs) = 0"
  shows "string_in b p (cstring cs)"
proof (cases "0 \<in> set cs")
  case False
  then have "cstring cs = cs" unfolding cstring_def by (rule takeWhile_neq_all)
  with assms False show ?thesis by (simp add: string_in_def)
next
  case True
  define z rest where "z = cstring cs" and "rest = drop 1 (dropWhile (\<lambda>x. x \<noteq> 0) cs)"
  have cs: "cs = z @ 0 # rest"
    unfolding z_def rest_def cstring_def using True by (rule takeWhile_neq_split)
  have lt: "length cs = length z + 1 + length rest" using arg_cong [OF cs, of length] by simp
  have at: "take (length z + 1 + length rest) (drop p b) = z @ 0 # rest"
    using assms(2) unfolding lt using cs by simp
  have "take (length z) (drop p b) = z"
    using arg_cong [OF at, of "take (length z)"] by simp
  moreover have "b ! (p + length z) = 0"
  proof -
    have "take (length z + 1 + length rest) (drop p b) ! length z = 0" unfolding at by simp
    moreover have "length z < length z + 1 + length rest" by simp
    ultimately have "drop p b ! length z = 0" by (metis nth_take)
    then show ?thesis using assms(1) lt by simp
  qed
  moreover have "0 \<notin> set z" unfolding z_def by (rule cstring_no_nul)
  ultimately show ?thesis unfolding z_def [symmetric] using assms(1) lt by (simp add: string_in_def)
qed

lemma sim_len: "sim a n s \<Longrightarrow> buf_len (cl s) \<le> length (rx_buf (cl s)) \<and> buf_len (cl s) \<le> max_packet_len"
  by (simp add: sim_def srv_ok_def client_ok_def)

lemma sim_ptr_add: "sim a n s \<Longrightarrow> p + m \<le> 2 * max_packet_len \<Longrightarrow> ptr_add s p m = Inr (p + m)"
  by (simp add: sim_def ptr_add_def)

lemma sim_report: "sim a n s \<Longrightarrow> sim a n (report e s)"
  by (auto simp: sim_def report_def set_error_def split: option.split
      dest: report_ok [of _ _ _ e, unfolded report_def])

lemma abs_srv_report: "abs_srv (report e s) =
    ((case e of None \<Rightarrow> fst (abs_srv s) | Some m \<Rightarrow> set_error m (fst (abs_srv s))), snd (abs_srv s))"
  by (simp add: abs_srv_def report_def split: option.split)

lemma rx_buf_report [simp]: "rx_buf (cl (report e s)) = rx_buf (cl s)"
  by (simp add: report_def set_error_def split: option.split)

lemma status_byte_length [simp]: "length (status_byte c) = 1"
  by (simp add: status_byte_def)

section \<open>The commands\<close>

lemma length_fmt_u_small: "n < 100000 \<Longrightarrow> length (fmt_u n) \<le> 5"
  by (simp add: fmt_u_def digits_in.simps)

definition result_at :: "64 word \<Rightarrow> 64 word \<Rightarrow> xvc_mem srv \<Rightarrow> nat \<Rightarrow> request \<Rightarrow> xvc_mem step res \<Rightarrow> nat \<Rightarrow> bool" where
  "result_at a n s cbuf r st q \<longleftrightarrow>
     (\<exists>s'. and_then st (finish cbuf) = Inr (Next s' q) \<and> stepped a n s s' q (exec r (abs_srv s)))"

text \<open>What the commands that both engines share do, for any device.\<close>

lemma getinfo_done:
  assumes "reply_ready (rp s)" "buf_max (cl s) = max_packet_len"
    and "reply_len (rp s) + length (getinfo_text max_packet_len) \<le> max_packet_len"
    and "reply_len (rp s) + length (getinfo_text max_packet_len) < length (reply_buf (rp s))"
  shows "\<exists>r. cmd_getinfo s p = Inr (Reply (s\<lparr>rp := r\<rparr>) p) \<and> appended (rp s) (getinfo_text max_packet_len) r"
proof -
  let ?t = "getinfo_text max_packet_len"
  have t: "take 99 ?t = ?t"
    by (simp add: getinfo_text_def max_packet_len_def xvc_version_def fmt_u_def digits_in.simps bytes_of_def)
  have room: "reply_len (rp s) + length (?t @ [0]) \<le> length (reply_buf (rp s))" using assms(4) by simp
  obtain b where b: "write_at (reply_buf (rp s)) (reply_len (rp s)) (?t @ [0]) = Inr b"
    using room by (simp add: write_at_ok)
  have bt: "take (reply_len (rp s) + length ?t) b = take (reply_len (rp s)) (reply_buf (rp s)) @ ?t"
    using b room by (auto simp: write_at_def split: if_split_asm)
  let ?r = "(rp s)\<lparr>reply_buf := b, reply_len := u32 (reply_len (rp s) + length ?t)\<rparr>"
  have "appended (rp s) ?t ?r" using assms(1,3) bt length_write_at [OF b] by (intro appendedI)
  moreover have "cmd_getinfo s p = Inr (Reply (s\<lparr>rp := ?r\<rparr>) p)"
    by (simp add: cmd_getinfo_def assms(2) t b)
  ultimately show ?thesis by blast
qed

lemma error_done:
  assumes "reply_ready (rp s)" "buf_max (cl s) = max_packet_len" "error_ok (pending_error (cl s))"
    and "reply_len (rp s) + length (uleb_bytes (word_of_nat (length (pending_error (cl s)))) @ pending_error (cl s)) \<le> max_packet_len"
  shows "\<exists>r. cmd_error s p = Inr (Reply (s\<lparr>rp := r, cl := (cl s)\<lparr>pending_error := []\<rparr>\<rparr>) p) \<and>
    appended (rp s) (uleb_bytes (word_of_nat (length (pending_error (cl s)))) @ pending_error (cl s)) r"
proof -
  let ?e = "pending_error (cl s)"
  let ?l = "uleb_bytes (word_of_nat (length ?e))"
  have le: "length ?e < 1024" using assms(3) by (auto simp: error_ok_def)
  then have "(length ?e + 127) div 128 \<le> 8" by simp
  then obtain k where k: "(length ?e + 127) div 128 = k" "k \<le> 8" by blast
  have "u32 (10000 + 2 ^ 32 - k) = 10000 - k"
  proof -
    have "10000 + 2 ^ 32 - k = (10000 - k) + 2 ^ 32" using k(2) by simp
    then show ?thesis using k(2) by (simp only: u32_def mod_add_self2) simp
  qed
  then have bytes: "\<not> u32 (buf_max (cl s) + 2 ^ 32 - (length ?e + 127) div 128) < length ?e"
    unfolding k(1) assms(2) max_packet_len_def using k(2) le by simp
  from reply_uleb128_appended [OF assms(1), of "word_of_nat (length ?e)"] assms(4)
  obtain r1 where r1: "reply_uleb128 (word_of_nat (length ?e)) (rp s) = Inr r1" and a1: "appended (rp s) ?l r1" by auto
  from reply_append_appended [OF appended_ready [OF a1], of ?e] assms(4) appended_len [OF a1]
  obtain r2 where r2: "reply_append ?e r1 = Inr r2" and a2: "appended r1 ?e r2" by auto
  have "cmd_error s p = Inr (Reply (s\<lparr>rp := r2, cl := (cl s)\<lparr>pending_error := []\<rparr>\<rparr>) p)"
    using bytes by (simp add: cmd_error_def Let_def r1 r2)
  with appended_trans [OF a1 a2] show ?thesis by blast
qed

lemma run_getinfo:
  assumes "sim a n s" "reply_len (rp s) + length (getinfo_text max_packet_len) \<le> max_packet_len"
  shows "result_at a n s cbuf Getinfo (cmd_getinfo s p) p"
proof -
  let ?t = "getinfo_text max_packet_len"
  have "buf_max (cl s) = max_packet_len" "reply_len (rp s) + length ?t < length (reply_buf (rp s))"
    using assms by (simp_all add: sim_def reply_ready_def reply_wf_def)
  from getinfo_done [OF sim_ready [OF assms(1)] this(1) assms(2) this(2), of p] obtain r where
    c: "cmd_getinfo s p = Inr (Reply (s\<lparr>rp := r\<rparr>) p)" and ap: "appended (rp s) ?t r" by blast
  have "sim a n (s\<lparr>rp := r\<rparr>)" by (rule sim_rp [OF assms(1) ap assms(2)])
  then show ?thesis
    using finish_reply [of a n "s\<lparr>rp := r\<rparr>" s ?t] ap by (simp add: result_at_def c)
qed

lemma mem_capabilities_eq: "capabilities mem_handlers = mem_capabilities"
  by (simp add: capabilities_def mem_capabilities_def mem_handlers_def bytes_of_def)

lemma run_capabilities:
  assumes "sim a n s" "reply_len (rp s) + length (snd (exec Capabilities (abs_srv s))) \<le> max_packet_len"
  shows "result_at a n s cbuf Capabilities (cmd_capabilities mem_handlers s p) p"
proof -
  let ?l = "uleb_bytes (word_of_nat (length mem_capabilities))"
  from reply_uleb128_appended [OF sim_ready [OF assms(1)], of "word_of_nat (length mem_capabilities)"] assms(2)
  obtain r1 where r1: "reply_uleb128 (word_of_nat (length mem_capabilities)) (rp s) = Inr r1"
    and a1: "appended (rp s) ?l r1" by auto
  from reply_append_appended [OF appended_ready [OF a1], of mem_capabilities] assms(2) appended_len [OF a1]
  obtain r2 where r2: "reply_append mem_capabilities r1 = Inr r2" and a2: "appended r1 mem_capabilities r2" by auto
  note ap = appended_trans [OF a1 a2]
  have "cmd_capabilities mem_handlers s p = Inr (Reply (s\<lparr>rp := r2\<rparr>) p)"
    by (simp add: cmd_capabilities_def mem_capabilities_eq r1 r2)
  moreover have "sim a n (s\<lparr>rp := r2\<rparr>)" using assms(2) by (intro sim_rp [OF assms(1) ap]) simp
  ultimately show ?thesis
    using finish_reply [of a n "s\<lparr>rp := r2\<rparr>" s "?l @ mem_capabilities"] ap by (simp add: result_at_def)
qed

lemma run_error:
  assumes "sim a n s" "reply_len (rp s) + length (snd (exec Error_query (abs_srv s))) \<le> max_packet_len"
  shows "result_at a n s cbuf Error_query (cmd_error s p) p"
proof -
  let ?e = "pending_error (cl s)"
  let ?l = "uleb_bytes (word_of_nat (length ?e))"
  have room: "reply_len (rp s) + length (?l @ ?e) \<le> max_packet_len" using assms(2) by (simp add: abs_srv_def Let_def)
  have "buf_max (cl s) = max_packet_len" "error_ok ?e"
    using assms(1) by (simp_all add: sim_def srv_ok_def client_ok_def)
  from error_done [OF sim_ready [OF assms(1)] this room, of p] obtain r where
    c: "cmd_error s p = Inr (Reply (s\<lparr>rp := r, cl := (cl s)\<lparr>pending_error := []\<rparr>\<rparr>) p)" and ap: "appended (rp s) (?l @ ?e) r"
    by blast
  let ?s = "s\<lparr>rp := r, cl := (cl s)\<lparr>pending_error := []\<rparr>\<rparr>"
  have "sim a n (s\<lparr>rp := r\<rparr>)" by (rule sim_rp [OF assms(1) ap room])
  then have "sim a n ?s" by (simp add: sim_def srv_ok_def client_ok_def error_ok_def)
  then show ?thesis
    using finish_reply [of a n ?s s "?l @ ?e"] ap
    by (simp add: result_at_def c abs_srv_def Let_def client_frame_def)
qed

lemma ok_abs: "ok s \<longleftrightarrow> pending_error (fst (abs_srv s)) = []"
  by (simp add: ok_def abs_srv_def)

lemma refuse_report: "ok s \<Longrightarrow> abs_srv (report (Some m) s) = (refuse m (fst (abs_srv s)), snd (abs_srv s))"
  by (simp add: abs_srv_report refuse_def ok_abs)

lemma refuse_keeps: "\<not> ok s \<Longrightarrow> refuse m (fst (abs_srv s)) = fst (abs_srv s)"
  by (simp add: refuse_def ok_abs)

text \<open>The three ways a command ends.\<close>

lemma result_at_reply:
  assumes "st = Inr (Reply s' q)" "sim a n s'" "appended (rp s) bs (rp s')" "client_frame (cl s) (cl s')"
    "rx_buf (cl s') = rx_buf (cl s)" "exec r (abs_srv s) = (abs_srv s', bs)"
  shows "result_at a n s cbuf r st q"
  using finish_reply [OF assms(2-6)] by (simp add: result_at_def assms(1,6))

lemma result_at_status:
  assumes "st = Inr (Reply_with_status s' q)" "sim a n s'" "appended (rp s) bs (rp s')"
    "client_frame (cl s) (cl s')" "drop q (rx_buf (cl s')) = drop q (rx_buf (cl s))"
    "reply_len (rp s) + length bs < max_packet_len"
    "exec r (abs_srv s) = (abs_srv s', bs @ status_byte (fst (abs_srv s')))"
  shows "result_at a n s cbuf r st q"
  using finish_status [OF assms(2-7)] by (simp add: result_at_def assms(1,7))

lemma result_at_optional_status:
  assumes "st = Inr (Reply_with_optional_status s' q)" "sim a n s'" "appended (rp s) bs (rp s')"
    "client_frame (cl s) (cl s')" "rx_buf (cl s') = rx_buf (cl s)"
    "exec r (abs_srv s) = (abs_srv s', bs @ (if enable_status (fst (abs_srv s')) = 0 then []
       else status_byte (fst (abs_srv s'))))"
    "reply_len (rp s) + length (snd (exec r (abs_srv s))) \<le> max_packet_len"
  shows "result_at a n s cbuf r st q"
  using finish_optional_status [OF assms(2-7)] by (simp only: result_at_def assms(1) and_then_simps)

lemma disabled_lock:
  assumes "sim a n s"
  defines "s' \<equiv> (if ok s then report (Some err_locking_disabled) s else s)"
  shows "do_lock mem_handlers t s = Inr s'" "do_unlock mem_handlers s = Inr s'" "sim a n s'"
    "rp s' = rp s" "client_frame (cl s) (cl s')" "rx_buf (cl s') = rx_buf (cl s)"
    "abs_srv s' = (refuse err_locking_disabled (fst (abs_srv s)), snd (abs_srv s))"
proof -
  have e: "enable_locking (cl s) = 0" using assms(1) by (simp add: sim_def)
  show "do_lock mem_handlers t s = Inr s'" "do_unlock mem_handlers s = Inr s'"
    by (simp_all add: s'_def do_lock_def do_unlock_def e)
  show "sim a n s'" "rp s' = rp s" "client_frame (cl s) (cl s')" "rx_buf (cl s') = rx_buf (cl s)"
    using assms(1) by (simp_all add: s'_def sim_report)
  show "abs_srv s' = (refuse err_locking_disabled (fst (abs_srv s)), snd (abs_srv s))"
    by (simp add: s'_def refuse_report refuse_keeps prod_eq_iff)
qed

lemma run_unlock:
  assumes "sim a n s" "reply_len (rp s) < max_packet_len"
  shows "result_at a n s cbuf Unlock (cmd_unlock mem_handlers s p) p"
proof -
  define s' where "s' = (if ok s then report (Some err_locking_disabled) s else s)"
  note d = disabled_lock [OF assms(1), folded s'_def]
  have "cmd_unlock mem_handlers s p = Inr (Reply_with_status s' p)"
    by (simp add: cmd_unlock_def d)
  moreover have "appended (rp s) [] (rp s')" using sim_ready [OF assms(1)] by (simp add: d appended_refl)
  ultimately show ?thesis
    using d(5-7) assms(2) by (intro result_at_status [OF _ d(3), where bs = "[]"]) (simp_all add: Let_def)
qed

lemma run_lock:
  assumes "sim a n s" "reply_len (rp s) = 0" "bytes_at (rx_buf (cl s)) p (uleb_bytes t)"
    "p + length (uleb_bytes t) \<le> buf_len (cl s)"
  shows "result_at a n s cbuf (Lock t) (cmd_lock mem_handlers s cbuf p) (p + length (uleb_bytes t))"
proof -
  define s' where "s' = (if ok s then report (Some err_locking_disabled) s else s)"
  note d = disabled_lock [OF assms(1), folded s'_def]
  have "cmd_lock mem_handlers s cbuf p = Inr (Reply_with_status s' (p + length (uleb_bytes t)))"
    using assms(2-4) sim_len [OF assms(1)] by (simp add: cmd_lock_def d get_uleb128_at)
  moreover have "appended (rp s) [] (rp s')" using sim_ready [OF assms(1)] by (simp add: d appended_refl)
  ultimately show ?thesis
    using d(5-7) assms(2)
    by (intro result_at_status [OF _ d(3), where bs = "[]"]) (simp_all add: Let_def max_packet_len_def)
qed

lemma run_settck:
  assumes "sim a n s" "bytes_at (rx_buf (cl s)) p (le_bytes 4 v)" "p + 4 \<le> buf_len (cl s)"
    "reply_len (rp s) + length (snd (exec (Settck v) (abs_srv s))) \<le> max_packet_len"
  shows "result_at a n s cbuf (Settck v) (cmd_settck mem_handlers s p) (p + 4)"
proof -
  have "call_set_tck mem_handlers v s = (ucast v, s)"
    by (simp add: call_set_tck_def mem_handlers_def set_tck_def report_def)
  moreover have l: "reply_len (rp s) + 4 \<le> length (reply_buf (rp s))"
    using assms(1,4) by (simp add: sim_def reply_ready_def reply_wf_def)
  define b where "b = take (reply_len (rp s)) (reply_buf (rp s)) @ le_bytes 4 v @
      drop (reply_len (rp s) + 4) (reply_buf (rp s))"
  have b: "set_uint_le (reply_buf (rp s)) (reply_len (rp s)) 4 v = Inr b"
    using l by (simp add: set_uint_le_eq b_def)
  define r where "r = (rp s)\<lparr>reply_buf := b, reply_len := u32 (reply_len (rp s) + 4)\<rparr>"
  have "(ucast (ucast v :: 64 word) :: 32 word) = v" by (intro bit_word_eqI) (simp add: bit_simps)
  ultimately have c: "cmd_settck mem_handlers s p = Inr (Reply_with_optional_status (s\<lparr>rp := r\<rparr>) (p + 4))"
    using assms(2,3) b by (simp add: cmd_settck_def get_uint_le_at r_def)
  have ap: "appended (rp s) (le_bytes 4 v) r"
    unfolding r_def using appendedI [OF sim_ready [OF assms(1)], of "le_bytes 4 v" b] l assms(4)
    by (simp add: b_def)
  have "sim a n (s\<lparr>rp := r\<rparr>)" using assms(4) by (intro sim_rp [OF assms(1) ap]) simp
  then show ?thesis
    using ap assms(4) by (intro result_at_optional_status [OF c, where bs = "le_bytes 4 v"]) simp_all
qed

text \<open>\<open>configure:\<close> cuts the string off, runs the parser on it and restores the byte it had overwritten.\<close>

lemma configure_done:
  fixes c :: client
  assumes "bytes_at (rx_buf c) p1 cs" "p1 + length cs < length (rx_buf c)"
  shows "\<exists>b1 b2 b3. write_at (rx_buf c) (p1 + length cs) [0] = Inr b1 \<and>
    config_loop False b1 p1 c = Inr (b2, conf_fold False (split_items (cstring cs)) c) \<and>
    write_at b2 (p1 + length cs) [rx_buf c ! (p1 + length cs)] = Inr b3 \<and>
    length b3 = length (rx_buf c) \<and> drop (p1 + length cs) b3 = drop (p1 + length cs) (rx_buf c) \<and>
    client_frame c (conf_fold False (split_items (cstring cs)) c) \<and> rx_buf (conf_fold False (split_items (cstring cs)) c) = rx_buf c"
proof -
  let ?q = "p1 + length cs" and ?b = "rx_buf c" and ?z = "cstring cs"
  define b1 where "b1 = ?b[?q := 0]"
  have b1: "write_at ?b ?q [0] = Inr b1"
    using assms(2) by (simp add: write_at_ok b1_def upd_conv_take_nth_drop)
  have cs_at: "take (length cs) (drop p1 ?b) = cs" using assms(1) by (simp add: bytes_at_def)
  have zp: "length ?z \<le> length cs" unfolding cstring_def by (rule length_takeWhile_le)
  have str: "string_in b1 p1 ?z"
    using assms(2) cs_at by (intro cstring_in_block) (simp_all add: b1_def drop_update_swap)
  from config_loop_refines [OF str, of False c] obtain b2 where
    b2: "config_loop False b1 p1 c = Inr (b2, conf_fold False (split_items ?z) c)"
    and same: "same_outside p1 (p1 + length ?z) b1 b2" by blast
  define b3 where "b3 = b2[?q := ?b ! ?q]"
  have l2: "length b2 = length ?b" using same by (simp add: same_outside_def b1_def)
  have b3: "write_at b2 ?q [?b ! ?q] = Inr b3"
    using assms(2) l2 by (simp add: write_at_ok b3_def upd_conv_take_nth_drop)
  have "drop ?q b3 = drop ?q ?b"
  proof (rule nth_equalityI)
    show "length (drop ?q b3) = length (drop ?q ?b)" by (simp add: b3_def l2)
  next
    fix i assume "i < length (drop ?q b3)"
    then have i: "?q + i < length ?b" by (simp add: b3_def l2)
    have "b2 ! (?q + i) = b1 ! (?q + i)" using same zp by (simp add: same_outside_def)
    then have "b3 ! (?q + i) = ?b ! (?q + i)"
      using i l2 by (cases "i = 0") (simp_all add: b3_def b1_def)
    with i l2 show "drop ?q b3 ! i = drop ?q ?b ! i" by (simp add: b3_def)
  qed
  then show ?thesis
    using b1 b2 b3 l2 config_loop_client_frame [OF b2] by (auto simp: b3_def)
qed

lemma word_length_cs:
  assumes "length cs < max_packet_len"
  shows "unat (ucast (word_of_nat (length cs) :: 64 word) :: 32 word) = length cs"
  using assms by (simp add: max_packet_len_def unat_of_nat take_bit_nat_def unsigned_ucast_eq)

lemma run_configure:
  assumes "sim a n s" "cbuf < p"
    and "bytes_at (rx_buf (cl s)) p (uleb_bytes (word_of_nat (length cs)) @ cs)"
    and "p + length (uleb_bytes (word_of_nat (length cs)) @ cs) \<le> buf_len (cl s)"
    and "p + length (uleb_bytes (word_of_nat (length cs)) @ cs) < max_packet_len"
    and "reply_len (rp s) < max_packet_len"
  shows "result_at a n s cbuf (Configure cs) (cmd_configure mem_handlers s cbuf p)
           (p + length (uleb_bytes (word_of_nat (length cs)) @ cs))"
proof -
  let ?v = "word_of_nat (length cs) :: 64 word"
  let ?p1 = "p + length (uleb_bytes ?v)"
  let ?q = "?p1 + length cs"
  let ?b = "rx_buf (cl s)"
  have lb: "length ?b = max_packet_len" using assms(1) by (simp add: sim_def srv_ok_def client_ok_def)
  have cnt: "unat (ucast ?v :: 32 word) = length cs" using assms(5) by (intro word_length_cs) simp
  have v: "get_uleb128 ?b (buf_len (cl s)) p = Inr (?v, ?p1)"
    using assms(3,4) sim_len [OF assms(1)] by (intro get_uleb128_at) (auto simp: bytes_at_append)
  have q: "ptr_add s ?p1 (unat (ucast ?v :: 32 word)) = Inr ?q"
    using assms(5) unfolding cnt by (intro sim_ptr_add [OF assms(1)]) simp
  have ql: "?q < length ?b" using assms(5) lb by simp
  have at: "bytes_at ?b ?p1 cs" using assms(3) unfolding bytes_at_append by simp
  define c where "c = conf_fold False (split_items (cstring cs)) (cl s)"
  from configure_done [OF at ql] obtain b1 b2 b3 where
    b: "write_at ?b ?q [0] = Inr b1" "config_loop False b1 ?p1 (cl s) = Inr (b2, c)" "write_at b2 ?q [?b ! ?q] = Inr b3"
      "length b3 = length ?b" "drop ?q b3 = drop ?q ?b" "client_frame (cl s) c" "rx_buf c = ?b"
    unfolding c_def by blast
  have can: "(h_lock mem_handlers \<noteq> None \<and> h_unlock mem_handlers \<noteq> None) = False"
    by (simp add: mem_handlers_def)
  let ?s = "s\<lparr>cl := c\<lparr>rx_buf := b3\<rparr>\<rparr>"
  have cmd: "cmd_configure mem_handlers s cbuf p = Inr (Reply_with_status ?s ?q)"
    unfolding cmd_configure_def can using assms(4) ql by (simp add: v q b)
  have "srv_ok mem_handlers (hub_ok a n) ?s"
    using hub.cmd_configure_ok [OF _ cmd] assms(1) by (simp add: sim_def)
  then have "sim a n ?s"
    using assms(1) b(6) by (simp add: sim_def client_frame_def c_def conf_fold_locking)
  moreover have "appended (rp s) [] (rp ?s)" using sim_ready [OF assms(1)] by (simp add: appended_refl)
  moreover have "client_frame (cl s) (cl ?s)" using b(4,6) by (simp add: client_frame_def)
  ultimately show ?thesis
    using b(5) assms(6)
    by (intro result_at_status [where s' = ?s and bs = "[]"])
       (simp_all add: cmd abs_srv_def c_def conf_fold_truncate Let_def add.assoc)
qed

section \<open>Memory commands\<close>

lemma out_of_hub_iff:
  assumes "hub_ok a n x" "unat a + unat n < 2 ^ 64" "unat ad + unat m < 2 ^ 64"
  shows "out_of_hub x ad m \<longleftrightarrow> \<not> in_hub x ad (unat m)"
proof -
  have "unat (a + n) = unat a + unat n" "unat (ad + m) = unat ad + unat m"
    using assms(2,3) by (simp_all add: unat_word_ariths)
  with assms(1) show ?thesis
    by (auto simp: out_of_hub_def in_hub_def hub_ok_def word_less_nat_alt)
qed

lemma unat_64_less: "unat (w :: 64 word) < 2 ^ 64"
  using unsigned_less [of w] by simp

lemma mod_wrapped: "(k :: nat) \<le> n \<Longrightarrow> n < k + k \<Longrightarrow> n mod k = n - k"
  by (simp add: mod_if)

lemma out_of_hub_wrapped:
  assumes "hub_ok a n x" "unat a + unat n < 2 ^ 64" "2 ^ 64 \<le> unat ad + unat m"
  shows "out_of_hub x ad m \<longleftrightarrow> \<not> (a \<le> ad \<and> unat ad + unat m - 2 ^ 64 \<le> unat a + unat n)"
proof -
  have s: "unat (a + n) = unat a + unat n" using assms(2) by (simp add: unat_word_ariths)
  have lt: "unat ad < 2 ^ 64" "unat m < 2 ^ 64" using unat_64_less by auto
  have w: "unat (ad + m) = (unat ad + unat m) mod 2 ^ 64" by (simp add: unat_word_ariths)
  have "unat (ad + m) = unat ad + unat m - 2 ^ 64"
    unfolding w by (rule mod_wrapped) (use assms(3) lt in simp_all)
  with s assms(1) show ?thesis
    by (simp add: out_of_hub_def hub_ok_def word_less_nat_alt word_le_nat_alt not_less not_le)
qed

lemma unat_addr_minus: "unat (hub_addr x) \<le> unat ad \<Longrightarrow> unat (ad - hub_addr x) = unat ad - unat (hub_addr x)"
  by (simp add: unat_sub_if' word_le_nat_alt)

lemma mrd_in_hub:
  assumes "hub_ok a n x" "unat a + unat n < 2 ^ 64" "unat ad + unat m < 2 ^ 64"
    and "in_hub x ad (unat m)" "4 dvd unat m" "unat m \<le> length buf"
  shows "mrd x fl ad m buf = Inr (hub_read x ad (unat m) @ drop (unat m) buf, x, None)"
    and "length (hub_read x ad (unat m)) = unat m"
proof -
  have le: "unat (hub_addr x) \<le> unat ad" and r: "unat ad - unat (hub_addr x) + unat m \<le> length (hub_mem x)"
    using assms(1,4) by (auto simp: in_hub_def hub_ok_def)
  then show "length (hub_read x ad (unat m)) = unat m" by (simp add: hub_read_def)
  have "copy_words (hub_mem x) (unat ad - unat (hub_addr x)) buf 0 (unat m) 0 =
      Inr (hub_read x ad (unat m) @ drop (unat m) buf)"
    using copy_words_ok [of "unat ad - unat (hub_addr x)" "unat m" "hub_mem x" 0 buf] r assms(5,6)
    by (simp add: round4_dvd hub_read_def)
  then show "mrd x fl ad m buf = Inr (hub_read x ad (unat m) @ drop (unat m) buf, x, None)"
    using assms(1,4) out_of_hub_iff [OF assms(1-3)]
    by (simp only: mrd_def unat_addr_minus [OF le]) (simp add: hub_block_def hub_ok_def)
qed

lemma mwr_in_hub:
  assumes "hub_ok a n x" "unat a + unat n < 2 ^ 64" "unat ad + unat m < 2 ^ 64"
    and "in_hub x ad (unat m)" "4 dvd unat m" "take (unat m) buf = d" "unat m \<le> length buf"
  shows "mwr x fl ad m buf = Inr (hub_write x ad d, None)"
proof -
  have le: "unat (hub_addr x) \<le> unat ad" and r: "unat ad - unat (hub_addr x) + unat m \<le> length (hub_mem x)"
    using assms(1,4) by (auto simp: in_hub_def hub_ok_def)
  have ld: "length d = unat m" using assms(6,7) by auto
  have "copy_words buf 0 (hub_mem x) (unat ad - unat (hub_addr x)) (unat m) 0 =
      Inr (hub_mem (hub_write x ad d))"
    using copy_words_ok [of 0 "unat m" buf "unat ad - unat (hub_addr x)" "hub_mem x"] r assms(5-7) ld
    by (simp add: round4_dvd hub_write_def Let_def)
  then show ?thesis
    using assms(1,4) out_of_hub_iff [OF assms(1-3)]
    by (simp only: mwr_def unat_addr_minus [OF le]) (simp add: hub_block_def hub_ok_def hub_write_def Let_def)
qed

text \<open>The data part of a reply: zeroes, or what the callback left in the block.\<close>

lemma reply_data_error:
  assumes "sim a n s" "\<not> ok s" "reply_len (rp s) + m \<le> max_packet_len"
  shows "\<exists>r. reply_data m s = Inr (s\<lparr>rp := r\<rparr>) \<and> appended (rp s) (replicate m 0) r"
proof -
  have l: "reply_len (rp s) + m \<le> length (reply_buf (rp s))"
    using assms(1,3) by (simp add: sim_def reply_ready_def reply_wf_def)
  let ?b = "take (reply_len (rp s)) (reply_buf (rp s)) @ replicate m 0 @ drop (reply_len (rp s) + m) (reply_buf (rp s))"
  define r where "r = (rp s)\<lparr>reply_buf := ?b, reply_len := u32 (reply_len (rp s) + m)\<rparr>"
  have "appended (rp s) (replicate m 0) r"
    unfolding r_def using appendedI [OF sim_ready [OF assms(1)], of "replicate m 0" ?b] l assms(3) by simp
  moreover have "reply_data m s = Inr (s\<lparr>rp := r\<rparr>)"
    using assms(2) l by (simp add: reply_data_def memset0_at_def r_def)
  ultimately show ?thesis by blast
qed

lemma reply_data_value:
  assumes "sim a n s" "ok s" "length d = m" "reply_len (rp s) + m \<le> max_packet_len"
  defines "s1 \<equiv> set_reply_rest (d @ drop m (reply_rest s)) s"
  shows "\<exists>r. reply_data m s1 = Inr (s\<lparr>rp := r\<rparr>) \<and> appended (rp s) d r"
proof -
  let ?b = "take (reply_len (rp s)) (reply_buf (rp s)) @ d @ drop m (reply_rest s)"
  have l: "reply_len (rp s) + m \<le> length (reply_buf (rp s))"
    using assms(1,4) by (simp add: sim_def reply_ready_def reply_wf_def)
  have "appended (rp s) d ((rp s)\<lparr>reply_buf := ?b, reply_len := u32 (reply_len (rp s) + m)\<rparr>)"
    using appendedI [OF sim_ready [OF assms(1)], of d ?b] l assms(3,4) by (simp add: reply_rest_def)
  moreover have "ok s1" using assms(2) by (simp add: s1_def ok_def)
  ultimately show ?thesis
    by (intro exI [of _ "(rp s)\<lparr>reply_buf := ?b, reply_len := u32 (reply_len (rp s) + m)\<rparr>"])
       (simp add: reply_data_def s1_def set_reply_rest_def)
qed

lemma err_invalid_nonempty: "cstring (err_invalid ad m) \<noteq> []"
  by (simp add: err_invalid_def bytes_of_def cstring_def)

lemma set_reply_rest_same: "set_reply_rest (reply_rest s) s = s"
  by (simp add: set_reply_rest_def reply_rest_def)

lemma run_mrd:
  assumes "sim a n s" "request_ok (Mrd f ad m)"
    and "bytes_at (rx_buf (cl s)) p (cmd_args (Mrd f ad m))"
    and "p + length (cmd_args (Mrd f ad m)) \<le> buf_len (cl s)"
    and "reply_len (rp s) + unat m < max_packet_len"
  shows "result_at a n s cbuf (Mrd f ad m) (cmd_mrd mem_handlers s cbuf p) (p + length (cmd_args (Mrd f ad m)))"
proof -
  let ?q = "p + length (cmd_args (Mrd f ad m))"
  have hub: "hub_ok a n (dev s)" "unat a + unat n < 2 ^ 64" and no_wrap: "unat ad + unat m < 2 ^ 64"
    and al: "4 dvd unat m"
    using assms(1,2) by (simp_all add: sim_def srv_ok_def)
  have g: "get3_uleb128 s p = Inr (f, ad, m, ?q)"
    using get3_at [of s p f ad m "[]"] assms(3,4) sim_len [OF assms(1)] by simp
  have cmd: "cmd_mrd mem_handlers s cbuf p =
      and_then (call_mrd mem_handlers (ucast f) ad m s) (\<lambda>s1.
      and_then (reply_data (unat m) s1) (\<lambda>s2. Inr (Reply_with_status s2 ?q)))"
    using assms(4) by (simp add: cmd_mrd_def g)
  have lim: "reply_len (rp s) + unat m \<le> max_packet_len" using assms(5) by simp
  show ?thesis
  proof (cases "ok s \<and> in_hub (dev s) ad (unat m)")
    case True
    let ?d = "hub_read (dev s) ad (unat m)"
    have "max_packet_len \<le> length (reply_buf (rp s))"
      using assms(1) by (simp add: sim_def reply_ready_def reply_wf_def)
    then have room: "unat m \<le> length (reply_rest s)" using lim unfolding reply_rest_def length_drop by linarith
    note mr = mrd_in_hub [OF hub no_wrap _ al room]
    have call: "call_mrd mem_handlers (ucast f) ad m s =
        Inr (set_reply_rest (?d @ drop (unat m) (reply_rest s)) s)"
      using True mr(1) by (simp add: call_mrd_def mem_handlers_def report_def)
    from reply_data_value [OF assms(1) _ mr(2) lim] True obtain r where
      r: "reply_data (unat m) (set_reply_rest (?d @ drop (unat m) (reply_rest s)) s) = Inr (s\<lparr>rp := r\<rparr>)"
      and ap: "appended (rp s) ?d r" by blast
    have "sim a n (s\<lparr>rp := r\<rparr>)" using sim_rp [OF assms(1) ap] lim mr(2) True by simp
    moreover have "exec (Mrd f ad m) (abs_srv s) = (abs_srv s, ?d @ status_byte (fst (abs_srv s)))"
      using True by (simp add: ok_abs status_byte_def) (simp add: abs_srv_def)
    ultimately show ?thesis
      using ap assms(5) mr(2) True
      by (intro result_at_status [where s' = "s\<lparr>rp := r\<rparr>" and bs = ?d]) (simp_all add: cmd call r)
  next
    case False
    define s1 where "s1 = (if ok s then report (Some (err_invalid ad m)) s else s)"
    have call: "call_mrd mem_handlers (ucast f) ad m s = Inr s1"
    proof (cases "ok s")
      case True
      with False have "mrd (dev s) (ucast f) ad m (reply_rest s) =
          Inr (reply_rest s, dev s, Some (err_invalid ad m))"
        by (simp add: mrd_def out_of_hub_iff [OF hub no_wrap])
      with True show ?thesis
        by (simp add: call_mrd_def mem_handlers_def s1_def set_reply_rest_same)
    qed (simp add: call_mrd_def mem_handlers_def s1_def)
    have s1: "sim a n s1" "rp s1 = rp s" "rx_buf (cl s1) = rx_buf (cl s)" "client_frame (cl s) (cl s1)"
      using assms(1) by (simp_all add: s1_def sim_report)
    have abs1: "abs_srv s1 = (refuse (err_invalid ad m) (fst (abs_srv s)), snd (abs_srv s))"
      by (simp add: s1_def refuse_report refuse_keeps prod_eq_iff)
    have nok: "\<not> ok s1"
      by (simp add: s1_def ok_def report_def set_error_def err_invalid_nonempty)
    from reply_data_error [OF s1(1) nok, of "unat m"] lim s1(2) obtain r where
      r: "reply_data (unat m) s1 = Inr (s1\<lparr>rp := r\<rparr>)" and ap: "appended (rp s) (replicate (unat m) 0) r"
      by auto
    have "sim a n (s1\<lparr>rp := r\<rparr>)" using sim_rp [OF s1(1), of "replicate (unat m) 0" r] ap lim s1(2) by simp
    moreover have "exec (Mrd f ad m) (abs_srv s) =
        (abs_srv s1, replicate (unat m) 0 @ status_byte (fst (abs_srv s1)))"
      using False nok by (auto simp: abs1 ok_abs Let_def status_byte_def) (auto simp: abs_srv_def ok_def)
    ultimately show ?thesis
      using ap assms(5) s1
      by (intro result_at_status [where s' = "s1\<lparr>rp := r\<rparr>" and bs = "replicate (unat m) 0"])
         (simp_all add: cmd call r)
  qed
qed

lemma run_mwr:
  assumes "sim a n s" "request_ok (Mwr f ad d)"
    and "bytes_at (rx_buf (cl s)) p (cmd_args (Mwr f ad d))"
    and "p + length (cmd_args (Mwr f ad d)) \<le> buf_len (cl s)"
    and "reply_len (rp s) < max_packet_len"
  shows "result_at a n s cbuf (Mwr f ad d) (cmd_mwr mem_handlers s cbuf p) (p + length (cmd_args (Mwr f ad d)))"
proof -
  let ?m = "word_of_nat (length d) :: 64 word"
  let ?p1 = "p + length (uleb_bytes f @ uleb_bytes ad @ uleb_bytes ?m)"
  let ?q = "p + length (cmd_args (Mwr f ad d))"
  note len = sim_len [OF assms(1)]
  have q: "?p1 + length d = ?q" by simp
  have "length d \<le> max_packet_len" using assms(4) len by simp
  then have m: "unat ?m = length d" by (intro unat_word_of_nat_64) (simp add: max_packet_len_def)
  have hub: "hub_ok a n (dev s)" "unat a + unat n < 2 ^ 64" and no_wrap: "unat ad + unat ?m < 2 ^ 64"
    and al: "4 dvd unat ?m"
    using assms(1,2) unfolding m by (simp_all add: sim_def srv_ok_def)
  have args: "cmd_args (Mwr f ad d) = uleb_bytes f @ uleb_bytes ad @ uleb_bytes ?m @ d" by simp
  have g: "get3_uleb128 s p = Inr (f, ad, ?m, ?p1)"
    using get3_at [of s p f ad ?m d] assms(3,4) len unfolding args by simp
  have pa: "ptr_add s ?p1 (unat ?m) = Inr ?q"
    using sim_ptr_add [OF assms(1), of ?p1 "unat ?m"] assms(4) len unfolding m q by simp
  have cmd: "cmd_mwr mem_handlers s cbuf p =
      and_then (call_mwr mem_handlers (ucast f) ad ?m ?p1 s) (\<lambda>s1. Inr (Reply_with_status s1 ?q))"
    using assms(4) unfolding cmd_mwr_def g by (simp only: and_then_simps prod.case pa) simp
  have "bytes_at (rx_buf (cl s)) ?p1 d"
    using bytes_at_append [of "rx_buf (cl s)" p "uleb_bytes f @ uleb_bytes ad @ uleb_bytes ?m" d] assms(3)
    by simp
  then have b: "?p1 + length d \<le> length (rx_buf (cl s))" and d_at: "take (unat ?m) (drop ?p1 (rx_buf (cl s))) = d"
    unfolding m by (simp_all only: bytes_at_def)
  from b have d_len: "unat ?m \<le> length (drop ?p1 (rx_buf (cl s)))" unfolding m length_drop by linarith
  show ?thesis
  proof (cases "ok s \<and> in_hub (dev s) ad (length d)")
    case True
    then have "in_hub (dev s) ad (unat ?m)" unfolding m by simp
    note mw = mwr_in_hub [OF hub no_wrap this al d_at d_len]
    let ?s = "s\<lparr>dev := hub_write (dev s) ad d\<rparr>"
    have call: "call_mwr mem_handlers (ucast f) ad ?m ?p1 s = Inr ?s"
      using True mw by (simp add: call_mwr_def mem_handlers_def report_def)
    have st: "cmd_mwr mem_handlers s cbuf p = Inr (Reply_with_status ?s ?q)"
      by (simp only: cmd call and_then_simps)
    have "hub_ok a n (hub_write (dev s) ad d)"
      using hub.mwr_keeps [of a n "dev s" mwr "ucast f" ad ?m "drop ?p1 (rx_buf (cl s))"] mw hub(1)
      by (simp add: mem_handlers_def)
    then have "sim a n ?s" using assms(1) by (simp add: sim_def srv_ok_def)
    moreover have "exec (Mwr f ad d) (abs_srv s) = (abs_srv ?s, [] @ status_byte (fst (abs_srv ?s)))"
      using True by (simp add: ok_def status_byte_def abs_srv_def)
    ultimately show ?thesis
      using assms(5) sim_ready [OF assms(1)]
      by (intro result_at_status [OF st, where bs = "[]"]) (simp_all add: appended_refl)
  next
    case False
    define s1 where "s1 = (if ok s then report (Some (err_invalid ad ?m)) s else s)"
    have call: "call_mwr mem_handlers (ucast f) ad ?m ?p1 s = Inr s1"
    proof (cases "ok s")
      case True
      with False m have "mwr (dev s) (ucast f) ad ?m (drop ?p1 (rx_buf (cl s))) =
          Inr (dev s, Some (err_invalid ad ?m))"
        by (simp add: mwr_def out_of_hub_iff [OF hub no_wrap])
      with True show ?thesis by (simp add: call_mwr_def mem_handlers_def s1_def)
    qed (simp add: call_mwr_def mem_handlers_def s1_def)
    have st: "cmd_mwr mem_handlers s cbuf p = Inr (Reply_with_status s1 ?q)"
      by (simp only: cmd call and_then_simps)
    have s1: "sim a n s1" "rp s1 = rp s" "rx_buf (cl s1) = rx_buf (cl s)" "client_frame (cl s) (cl s1)"
      using assms(1) by (simp_all add: s1_def sim_report)
    have abs1: "abs_srv s1 = (refuse (err_invalid ad ?m) (fst (abs_srv s)), snd (abs_srv s))"
      by (simp add: s1_def refuse_report refuse_keeps prod_eq_iff)
    have nok: "\<not> ok s1"
      by (simp add: s1_def ok_def report_def set_error_def err_invalid_nonempty)
    have "exec (Mwr f ad d) (abs_srv s) = (abs_srv s1, [] @ status_byte (fst (abs_srv s1)))"
      using False nok by (auto simp: abs1 ok_abs Let_def status_byte_def) (auto simp: abs_srv_def ok_def)
    then show ?thesis
      using assms(5) s1 sim_ready [OF assms(1)]
      by (intro result_at_status [OF st, where bs = "[]"]) (simp_all add: appended_refl)
  qed
qed

section \<open>One request\<close>

text \<open>The most bytes a request can add to the reply.\<close>

primrec reply_size :: "request \<Rightarrow> nat" where
  "reply_size Getinfo = 24"
| "reply_size Capabilities = 33"
| "reply_size (Configure cs) = 1"
| "reply_size Error_query = 1025"
| "reply_size (Lock t) = 1"
| "reply_size Unlock = 1"
| "reply_size (Settck n) = 5"
| "reply_size (Mrd f a n) = unat n + 1"
| "reply_size (Mwr f a d) = 1"

definition astate_ok :: "64 word \<Rightarrow> 64 word \<Rightarrow> astate \<Rightarrow> bool" where
  "astate_ok a n st \<longleftrightarrow> hub_ok a n (snd st) \<and> error_ok (pending_error (fst st))"

lemma sim_astate_ok: "sim a n s \<Longrightarrow> astate_ok a n (abs_srv s)"
  by (simp add: sim_def srv_ok_def client_ok_def astate_ok_def abs_srv_def)

lemma length_uleb_small: "k < 2 ^ 14 \<Longrightarrow> length (uleb_bytes (word_of_nat k)) \<le> 2"
proof -
  assume k: "k < 2 ^ 14"
  let ?v = "word_of_nat k :: 64 word"
  have u: "unat ?v = k" using k by (intro unat_word_of_nat_64) simp
  have d: "unat (drop_bit j ?v) = k div 2 ^ j" for j
    by (simp only: unat_drop_bit_eq u) (simp only: drop_bit_eq_div)
  have "unat (drop_bit 7 (drop_bit 7 ?v)) = 0"
    using k by (simp add: drop_bit_drop_bit d)
  then have "drop_bit 7 (drop_bit 7 ?v) = 0" by (simp only: unat_eq_zero)
  then show ?thesis by (simp add: uleb_bytes.simps [of ?v] uleb_bytes.simps [of "drop_bit 7 ?v"])
qed

lemma length_exec:
  assumes "astate_ok a n st" "request_ok r"
  shows "length (snd (exec r st)) \<le> reply_size r"
proof (cases r)
  case Getinfo
  then show ?thesis
    by (simp add: getinfo_text_def max_packet_len_def xvc_version_def fmt_u_def digits_in.simps)
next
  case Capabilities
  have "length (uleb_bytes (word_of_nat (length mem_capabilities))) \<le> 2"
    by (intro length_uleb_small) (simp add: mem_capabilities_def)
  moreover have "length mem_capabilities = 31" by (simp add: mem_capabilities_def)
  ultimately show ?thesis using Capabilities by simp
next
  case Error_query
  have "length (pending_error (fst st)) < 1024" using assms(1) by (simp add: astate_ok_def error_ok_def)
  with length_uleb_small [of "length (pending_error (fst st))"] Error_query show ?thesis by (simp add: Let_def)
qed (use assms in \<open>auto simp: Let_def hub_read_def\<close>)

primrec can_run :: "request \<Rightarrow> nat \<Rightarrow> nat \<Rightarrow> bool" where \<comment> \<open>end of the request, end of the reply\<close>
  "can_run Getinfo q l = True"
| "can_run Capabilities q l = True"
| "can_run (Configure cs) q l = (q < max_packet_len)"
| "can_run Error_query q l = True"
| "can_run (Lock t) q l = (l = 0)"
| "can_run Unlock q l = True"
| "can_run (Settck n) q l = True"
| "can_run (Mrd f a n) q l = True"
| "can_run (Mwr f a d) q l = True"

lemma iteration_request:
  assumes "sim a n s" "bytes_at (rx_buf (cl s)) cbuf (encode r)"
    and "cbuf + length (encode r) \<le> buf_len (cl s)" "request_ok r"
    and "reply_len (rp s) + reply_size r \<le> max_packet_len"
    and "can_run r (cbuf + length (encode r)) (reply_len (rp s))"
  shows "\<exists>s'. iteration mem_handlers s cbuf = Inr (Next s' (cbuf + length (encode r))) \<and>
    stepped a n s s' (cbuf + length (encode r)) (exec r (abs_srv s))"
proof -
  define p where "p = cbuf + length (cmd_name r)"
  have at: "bytes_at (rx_buf (cl s)) cbuf (cmd_name r)" "bytes_at (rx_buf (cl s)) p (cmd_args r)"
    using assms(2) by (simp_all add: encode_def bytes_at_append p_def)
  have q: "p + length (cmd_args r) = cbuf + length (encode r)" by (simp add: encode_def p_def)
  have len: "p + length (cmd_args r) \<le> buf_len (cl s)" using assms(3) q by simp
  with at(1) have one: "one_command mem_handlers s cbuf = run s cbuf r p"
    unfolding p_def by (intro one_command_run) simp_all
  have "0 < length (cmd_name r)" using cmd_name_colon(4) [of r] by simp
  then have lt: "cbuf < p" by (simp add: p_def)
  have lim: "can_run r (p + length (cmd_args r)) (reply_len (rp s))" using assms(6) by (simp only: q)
  have out: "reply_len (rp s) + length (snd (exec r (abs_srv s))) \<le> max_packet_len"
    using length_exec [OF sim_astate_ok [OF assms(1)] assms(4)] assms(5) by linarith
  have "result_at a n s cbuf r (run s cbuf r p) (p + length (cmd_args r))"
  proof (cases r)
    case Getinfo
    with run_getinfo [OF assms(1)] out show ?thesis by (simp add: run_def)
  next
    case Capabilities
    with run_capabilities [OF assms(1)] out show ?thesis by (simp add: run_def)
  next
    case (Configure cs)
    with run_configure [OF assms(1) lt] at(2) len assms(5) lim show ?thesis by (simp add: run_def)
  next
    case Error_query
    with run_error [OF assms(1)] out show ?thesis by (simp add: run_def)
  next
    case (Lock t)
    with run_lock [OF assms(1)] at(2) len assms(6) show ?thesis by (simp add: run_def)
  next
    case Unlock
    with run_unlock [OF assms(1)] assms(5) show ?thesis by (simp add: run_def)
  next
    case (Settck v)
    with run_settck [OF assms(1)] at(2) len out show ?thesis by (simp add: run_def)
  next
    case (Mrd f ad m)
    with run_mrd [OF assms(1)] at(2) len assms(4,5) show ?thesis by (simp add: run_def)
  next
    case (Mwr f ad d)
    with run_mwr [OF assms(1)] at(2) len assms(4,5) show ?thesis by (simp add: run_def)
  qed
  then show ?thesis unfolding q by (simp only: result_at_def iteration_def one)
qed

section \<open>Properties\<close>

text \<open>C4. Every request is executed as specified. When a complete request stands at the start of the
  unread bytes and there is room for its reply, one iteration of the command loop of
  \<open>read_packet\<close> consumes exactly its bytes, changes configuration, error and hub as \<open>exec\<close> says, and
  appends exactly the reply \<open>exec\<close> gives.\<close>

theorem request_refines_exec:
  assumes "sim a n s" "bytes_at (rx_buf (cl s)) cbuf (encode r)"
    and "cbuf + length (encode r) \<le> buf_len (cl s)" "request_ok r"
    and "reply_len (rp s) + reply_size r \<le> max_packet_len"
    and "can_run r (cbuf + length (encode r)) (reply_len (rp s))"
  shows "\<exists>s'. iteration mem_handlers s cbuf = Inr (Next s' (cbuf + length (encode r))) \<and>
    sim a n s' \<and> abs_srv s' = fst (exec r (abs_srv s)) \<and>
    reply_bytes (rp s') = reply_bytes (rp s) @ snd (exec r (abs_srv s))"
  using iteration_request [OF assms] by (auto simp: stepped_def appended_def)

definition sample_hub :: xvc_mem where
  "sample_hub = \<lparr>hub_addr = 64, hub_size = 8, hub_mem = [1, 2, 3, 4, 5, 6, 7, 8], hub_mapped = True,
     devmem_ok = True, mmap_ok = True\<rparr>"

definition hub_srv :: "byte list \<Rightarrow> xvc_mem srv" where
  "hub_srv bs = \<lparr>cl = \<lparr>enable_locking = 0, enable_status = 0, pending_error = [],
     buf_len = length bs, buf_max = 10000, rx_buf = bs @ replicate (10000 - length bs) 0,
     buf_addr = 4096, locked = 0\<rparr>,
     rp = \<lparr>reply_buf = replicate 16384 0, reply_max = 16384, reply_len = 0\<rparr>, dev = sample_hub\<rparr>"

lemma hub_srv_sim: "length bs \<le> 10000 \<Longrightarrow> sim 64 8 (hub_srv bs)"
  by (simp add: sim_def hub_srv_def srv_ok_def client_ok_def hub_ok_def sample_hub_def reply_wf_def
      reply_ready_def max_packet_len_def error_ok_def)

theorem request_refines_exec_witness:
  "\<exists>s'. iteration mem_handlers (hub_srv (encode (Mrd 0 68 4))) 0 = Inr (Next s' (length (encode (Mrd 0 68 4)))) \<and>
     reply_bytes (rp s') = [5, 6, 7, 8, 0]"
proof -
  let ?r = "Mrd 0 68 4"
  have l: "length (encode ?r) \<le> 10000" by (simp add: encode_def uleb_bytes.simps)
  have b: "bytes_at (rx_buf (cl (hub_srv (encode ?r)))) 0 (encode ?r)"
    using l by (simp add: bytes_at_def hub_srv_def)
  have len: "0 + length (encode ?r) \<le> buf_len (cl (hub_srv (encode ?r)))" by (simp add: hub_srv_def)
  show ?thesis
    using request_refines_exec [OF hub_srv_sim [OF l] b len]
    by (auto simp: hub_srv_def abs_srv_def sample_hub_def in_hub_def hub_read_def max_packet_len_def
        reply_bytes_def conf.defs)
qed

text \<open>C8. The debug hub is memory: an aligned write inside the mapped region succeeds, a read of the
  same range gives back the written bytes, and reads of ranges it does not touch are unchanged.\<close>

theorem hub_read_after_write:
  assumes "hub_ok a n x" "unat a + unat n < 2 ^ 64" "unat ad + length d < 2 ^ 64" "in_hub x ad (length d)"
    and "4 dvd length d" "length d \<le> length buf"
  shows "\<exists>x'. mwr x fl ad (word_of_nat (length d)) (d @ rest) = Inr (x', None) \<and> hub_ok a n x' \<and>
    mrd x' fl' ad (word_of_nat (length d)) buf = Inr (d @ drop (length d) buf, x', None) \<and>
    (\<forall>ad2 m. unat ad2 + m \<le> unat ad \<or> unat ad + length d \<le> unat ad2 \<longrightarrow> in_hub x ad2 m \<longrightarrow>
       hub_read x' ad2 m = hub_read x ad2 m)"
proof -
  let ?m = "word_of_nat (length d) :: 64 word"
  let ?x = "hub_write x ad d"
  have m: "unat ?m = length d" using assms(3) by (intro unat_word_of_nat_64) simp
  have hub: "length (hub_mem x) = unat n" "hub_addr x = a" "hub_size x = n" "hub_mapped x"
    using assms(1) by (auto simp: hub_ok_def)
  have r: "unat a \<le> unat ad" "unat ad - unat a + length d \<le> unat n"
    using assms(4) hub by (auto simp: in_hub_def)
  have w: "mwr x fl ad ?m (d @ rest) = Inr (?x, None)"
    using assms by (intro mwr_in_hub) (simp_all add: m)
  have ok: "hub_ok a n ?x" using hub r by (simp add: hub_ok_def hub_write_def Let_def)
  have "in_hub ?x ad (unat ?m)" using assms(4) by (simp add: in_hub_def hub_write_def Let_def m)
  then have rd: "mrd ?x fl' ad ?m buf = Inr (hub_read ?x ad (unat ?m) @ drop (unat ?m) buf, ?x, None)"
    using assms ok by (intro mrd_in_hub(1) [of a n]) (simp_all add: m)
  have same: "hub_read ?x ad (length d) = d"
    using r hub by (simp add: hub_read_def hub_write_def Let_def)
  have other: "hub_read ?x ad2 k = hub_read x ad2 k"
    if "unat ad2 + k \<le> unat ad \<or> unat ad + length d \<le> unat ad2" "in_hub x ad2 k" for ad2 k
  proof -
    let ?o = "unat ad - unat a" and ?o2 = "unat ad2 - unat a"
    have b: "unat a \<le> unat ad2" "?o2 + k \<le> unat n" using that(2) hub by (auto simp: in_hub_def)
    let ?mem = "take ?o (hub_mem x) @ d @ drop (?o + length d) (hub_mem x)"
    have wr: "write_at (hub_mem x) ?o d = Inr ?mem" using r hub by (intro write_at_ok) simp
    have "?o2 + k \<le> ?o \<or> ?o + length d \<le> ?o2" using that(1) b r by linarith
    from read_write_other [OF wr this] have "take k (drop ?o2 ?mem) = take k (drop ?o2 (hub_mem x))"
      using b hub r by (simp add: read_range_def)
    then show ?thesis using hub(2) by (simp add: hub_read_def hub_write_def Let_def)
  qed
  show ?thesis
    using w ok rd same other by (intro exI [of _ ?x]) (simp add: m)
qed

theorem hub_read_after_write_witness:
  "\<exists>x'. mwr sample_hub 0 68 4 [9, 8, 7, 6] = Inr (x', None) \<and>
    mrd x' 0 68 4 [0, 0, 0, 0, 0] = Inr ([9, 8, 7, 6, 0], x', None) \<and> hub_read x' 64 4 = [1, 2, 3, 4]"
proof -
  have "\<exists>x'. mwr sample_hub 0 68 (word_of_nat (length [9, 8, 7, 6 :: byte])) ([9, 8, 7, 6] @ []) = Inr (x', None) \<and>
    hub_ok 64 8 x' \<and>
    mrd x' 0 68 (word_of_nat (length [9, 8, 7, 6 :: byte])) [0, 0, 0, 0, 0] =
      Inr ([9, 8, 7, 6] @ drop (length [9, 8, 7, 6 :: byte]) [0, 0, 0, 0, 0], x', None) \<and>
    (\<forall>ad2 m. unat ad2 + m \<le> unat (68 :: 64 word) \<or> unat (68 :: 64 word) + length [9, 8, 7, 6 :: byte] \<le> unat ad2 \<longrightarrow>
       in_hub sample_hub ad2 m \<longrightarrow> hub_read x' ad2 m = hub_read sample_hub ad2 m)"
    by (rule hub_read_after_write) (simp_all add: hub_ok_def sample_hub_def in_hub_def, presburger)
  then obtain x' where x': "mwr sample_hub 0 68 (word_of_nat (length [9, 8, 7, 6 :: byte])) ([9, 8, 7, 6] @ []) = Inr (x', None)"
    "mrd x' 0 68 (word_of_nat (length [9, 8, 7, 6 :: byte])) [0, 0, 0, 0, 0] =
      Inr ([9, 8, 7, 6] @ drop (length [9, 8, 7, 6 :: byte]) [0, 0, 0, 0, 0], x', None)"
    and o1: "\<And>ad2 m. unat ad2 + m \<le> unat (68 :: 64 word) \<or> unat (68 :: 64 word) + length [9, 8, 7, 6 :: byte] \<le> unat ad2 \<Longrightarrow>
       in_hub sample_hub ad2 m \<Longrightarrow> hub_read x' ad2 m = hub_read sample_hub ad2 m"
    by blast
  have "hub_read x' 64 4 = [1, 2, 3, 4]"
    using o1 [of 64 4] by (simp add: hub_read_def sample_hub_def in_hub_def)
  with x' show ?thesis by (intro exI [of _ x']) simp
qed

text \<open>C15. Memory accesses outside of the mapped region never read or change it. \<open>mrd\<close> and \<open>mwr\<close> report an
  error and leave the hub and the reply block as they were, with one exception: the sum of address and
  count is a \<open>size_t\<close>, and when it wraps around to a value not past the end of the region the access is let through
  and runs off the end of the mapping.\<close>

theorem hub_access_refused:
  assumes "hub_ok a n x" "unat a + unat n < 2 ^ 64" "\<not> in_hub x ad (unat m)"
  shows "if 2 ^ 64 \<le> unat ad + unat m \<and> a \<le> ad \<and> unat ad + unat m - 2 ^ 64 \<le> unat a + unat n
    then mrd x fl ad m buf = Inl Out_of_bounds \<and> mwr x fl ad m buf' = Inl Out_of_bounds
    else mrd x fl ad m buf = Inr (buf, x, Some (err_invalid ad m)) \<and>
      mwr x fl ad m buf' = Inr (x, Some (err_invalid ad m))"
proof (cases "2 ^ 64 \<le> unat ad + unat m")
  case False
  with assms out_of_hub_iff [OF assms(1,2), of ad m] show ?thesis by (simp add: mrd_def mwr_def)
next
  case True
  note o = out_of_hub_wrapped [OF assms(1,2) True]
  from assms(1) have a: "hub_addr x = a" "length (hub_block x) = unat n"
    by (simp_all add: hub_ok_def hub_block_def)
  show ?thesis
  proof (cases "a \<le> ad \<and> unat ad + unat m - 2 ^ 64 \<le> unat a + unat n")
    case inside: True
    have m: "0 < unat m" using True unat_64_less [of ad] by simp
    have "unat (ad - a) = unat ad - unat a" using inside by (simp add: unat_sub)
    then have far: "\<not> unat (ad - a) + round4 (unat m) \<le> unat n"
      using True assms(2) inside round4_bounds(1) [of "unat m"] by (simp add: word_le_nat_alt)
    from far m True inside o a show ?thesis
      by (simp add: mrd_def mwr_def copy_words_total)
  qed (use True o a in \<open>simp add: mrd_def mwr_def\<close>)
qed

theorem hub_access_refused_witness:
  "mrd sample_hub 0 72 4 [0] = Inr ([0], sample_hub, Some (err_invalid 72 4)) \<and>
   mwr sample_hub 0 72 4 [0] = Inr (sample_hub, Some (err_invalid 72 4)) \<and>
   mrd sample_hub 0 (- 4) 8 [0, 0, 0, 0, 0, 0, 0, 0] = Inl Out_of_bounds \<and> mwr sample_hub 0 (- 4) 8 [0, 0, 0, 0, 0, 0, 0, 0] = Inl Out_of_bounds"
  using hub_access_refused [of 64 8 sample_hub 72 4 0 "[0]" "[0]"]
    hub_access_refused [of 64 8 sample_hub "- 4" 8 0 "[0, 0, 0, 0, 0, 0, 0, 0]" "[0, 0, 0, 0, 0, 0, 0, 0]"]
  by (simp add: hub_ok_def sample_hub_def in_hub_def)

end
