(* ===== verification/Mem_Stream.thy ===== *)
theory Mem_Stream
  imports Mem_Spec
begin

unbundle bit_operations_syntax

text \<open>
  From requests to connections. A request that is not complete in the receive buffer leaves the
  server as it was; a buffer of requests is executed one by one; and over a whole connection the
  bytes the server sends are those of the abstract server, however the network cuts the
  request stream into segments.
\<close>

section \<open>Incomplete numbers\<close>

lemma get_uleb128_loop_cut:
  assumes "i < 64" "drop_bit (64 - i) v = 0" "k < length (uleb_bytes v)"
    and "p + k = e" "e \<le> length buf" "take k (drop p buf) = take k (uleb_bytes v)"
  shows "get_uleb128_loop buf e p acc i = Inr (acc OR push_bit i (take_bit (7 * k) v), e + 1)"
  using assms
proof (induction v arbitrary: p acc i k rule: uleb_bytes.induct)
  case (1 v)
  show ?case
  proof (cases k)
    case 0
    with "1.prems" show ?thesis by (simp add: get_uleb128_loop.simps [of buf e e acc i])
  next
    case (Suc k')
    let ?r = "drop_bit 7 v"
    have nz: "?r \<noteq> 0"
    proof
      assume "?r = 0"
      then have "length (uleb_bytes v) = 1" by (subst uleb_bytes.simps) simp
      with "1.prems"(3) Suc show False by simp
    qed
    have u: "uleb_bytes v = ((ucast v AND 0x7f) OR 0x80) # uleb_bytes ?r"
      using nz by (subst uleb_bytes.simps) simp
    have p: "p < e" "p < length buf" using "1.prems"(4,5) Suc by simp_all
    have d: "drop p buf = buf ! p # drop (p + 1) buf" using p(2) by (simp add: Cons_nth_drop_Suc)
    have bp: "buf ! p = (ucast v AND 0x7f) OR 0x80" and tl: "take k' (drop (p + 1) buf) = take k' (uleb_bytes ?r)"
      using "1.prems"(6) unfolding Suc d u by simp_all
    have c: "(ucast (buf ! p) :: 64 word) AND 0x80 \<noteq> 0"
      by (simp only: cont_bit_of_byte bp cont_bit_set not_False_eq_True)
    have w: "(ucast (buf ! p) :: 64 word) AND 0x7f = v AND 0x7f"
      by (simp only: bp low7_of_word_cont)
    have i7: "i + 7 < 64"
    proof (rule ccontr)
      assume "\<not> i + 7 < 64"
      then have "7 = (64 - i) + (7 - (64 - i))" using "1.prems"(1) by simp
      then have "drop_bit 7 v = drop_bit (7 - (64 - i)) (drop_bit (64 - i) v)"
        by (metis add.commute drop_bit_drop_bit)
      with "1.prems"(2) nz show False by simp
    qed
    have "64 - (i + 7) + 7 = 64 - i" using i7 by simp
    then have dr: "drop_bit (64 - (i + 7)) ?r = 0"
      using "1.prems"(2) drop_bit_drop_bit [of "64 - (i + 7)" 7 v] by simp
    have IH: "get_uleb128_loop buf e (p + 1) (acc OR push_bit i (v AND 0x7f)) (i + 7) =
        Inr ((acc OR push_bit i (v AND 0x7f)) OR push_bit (i + 7) (take_bit (7 * k') ?r), e + 1)"
      using "1.IH" [OF nz i7 dr _ _ _ tl] "1.prems"(3-5) u Suc by simp
    have t: "take_bit (7 * k) v AND 0x7f = v AND 0x7f"
      by (intro bit_word_eqI) (auto simp: bit_simps septet_bits Suc)
    have dt: "drop_bit 7 (take_bit (7 * k) v) = take_bit (7 * k') ?r"
      by (simp add: drop_bit_take_bit Suc)
    have "push_bit i (v AND 0x7f) OR push_bit (i + 7) (take_bit (7 * k') ?r) = push_bit i (take_bit (7 * k) v)"
      using push_low7_rest [of i "take_bit (7 * k) v"] unfolding t dt .
    with IH p c w "1.prems"(1) show ?thesis
      by (simp add: get_uleb128_loop.simps [of buf e p acc i] Let_def or.assoc del: push_bit_and)
  qed
qed

lemma get_uleb128_cut:
  assumes "k < length (uleb_bytes v)" "p + k = e" "e \<le> length buf" "take k (drop p buf) = take k (uleb_bytes v)"
  shows "\<exists>v'. get_uleb128 buf e p = Inr (v', e + 1) \<and> unat v' \<le> unat v"
proof -
  have z: "drop_bit 64 v = 0" by (intro bit_word_eqI) (auto simp: bit_simps)
  have "unat (take_bit (7 * k) v) = take_bit (7 * k) (unat v)" by (rule unsigned_take_bit_eq)
  also have "\<dots> \<le> unat v" by (rule take_bit_nat_less_eq_self)
  finally show ?thesis
    using get_uleb128_loop_cut [of 0 v k p e buf 0] assms z by (simp add: get_uleb128_def)
qed

lemma get_uleb128_past: "e \<le> p \<Longrightarrow> get_uleb128 buf e p = Inr (0, p + 1)"
  by (simp add: get_uleb128_def get_uleb128_loop.simps [of buf e p])

text \<open>From \<open>p\<close> to \<open>e\<close> the block holds the first bytes of \<open>bs\<close>, but not all of them.\<close>

definition begins :: "byte list \<Rightarrow> nat \<Rightarrow> nat \<Rightarrow> byte list \<Rightarrow> bool" where
  "begins buf p e bs \<longleftrightarrow>
     p \<le> e \<and> e \<le> length buf \<and> e - p < length bs \<and> take (e - p) (drop p buf) = take (e - p) bs"

lemma begins_append:
  assumes "begins buf p e (xs @ ys)" "p + length xs \<le> e"
  shows "bytes_at buf p xs" "begins buf (p + length xs) e ys"
proof -
  obtain k where k: "e = p + length xs + k" using assms(2) by (metis le_add_diff_inverse)
  have e: "e \<le> length buf" "k < length ys" and t: "take (length xs + k) (drop p buf) = xs @ take k ys"
    using assms(1) unfolding begins_def k by auto
  have "take (length xs) (drop p buf) = xs"
    using arg_cong [OF t, of "take (length xs)"] by simp
  moreover have "take k (drop (p + length xs) buf) = take k ys"
    using arg_cong [OF t, of "drop (length xs)"] by (simp add: drop_take add.commute)
  ultimately show "bytes_at buf p xs" "begins buf (p + length xs) e ys"
    using e by (simp_all add: bytes_at_def begins_def k)
qed

lemma uleb_begins:
  assumes "begins buf p e (uleb_bytes v @ rest) \<or> e < p"
  shows "\<exists>v' p'. get_uleb128 buf e p = Inr (v', p') \<and> unat v' \<le> unat v \<and>
     p' \<le> p + length (uleb_bytes v) \<and> (v' = v \<and> p' = p + length (uleb_bytes v) \<and> begins buf p' e rest \<or> e < p')"
proof (cases "e < p")
  case True
  have "1 \<le> length (uleb_bytes v)" by (cases "uleb_bytes v") simp_all
  with True get_uleb128_past [of e p buf] show ?thesis by auto
next
  case False
  with assms have b: "begins buf p e (uleb_bytes v @ rest)" by simp
  show ?thesis
  proof (cases "p + length (uleb_bytes v) \<le> e")
    case True
    from begins_append [OF b True] b True show ?thesis
      by (auto simp: begins_def intro!: exI get_uleb128_at)
  next
    case False
    with b have "get_uleb128 buf e p = get_uleb128 buf e p" "e - p < length (uleb_bytes v)"
      "take (e - p) (drop p buf) = take (e - p) (uleb_bytes v)" "p + (e - p) = e" "e \<le> length buf"
      by (auto simp: begins_def)
    from get_uleb128_cut [OF this(2,4,5,3)] False show ?thesis by auto
  qed
qed

lemma get3_begins:
  assumes "begins (rx_buf (cl s)) p (buf_len (cl s)) (uleb_bytes a @ uleb_bytes b @ uleb_bytes c @ rest)"
  shows "\<exists>a' b' c' p'. get3_uleb128 s p = Inr (a', b', c', p') \<and> unat c' \<le> unat c \<and>
     p' \<le> p + length (uleb_bytes a @ uleb_bytes b @ uleb_bytes c) \<and>
     (c' = c \<and> p' = p + length (uleb_bytes a @ uleb_bytes b @ uleb_bytes c) \<and>
        begins (rx_buf (cl s)) p' (buf_len (cl s)) rest \<or> buf_len (cl s) < p')"
proof -
  let ?b = "rx_buf (cl s)" and ?e = "buf_len (cl s)"
  obtain a' p1 where 1: "get_uleb128 ?b ?e p = Inr (a', p1)" "p1 \<le> p + length (uleb_bytes a)"
    and c1: "p1 = p + length (uleb_bytes a) \<and> begins ?b p1 ?e (uleb_bytes b @ uleb_bytes c @ rest) \<or> ?e < p1"
    using uleb_begins [of ?b p ?e a "uleb_bytes b @ uleb_bytes c @ rest"] assms by blast
  obtain b' p2 where 2: "get_uleb128 ?b ?e p1 = Inr (b', p2)" "p2 \<le> p1 + length (uleb_bytes b)"
    and c2: "p2 = p1 + length (uleb_bytes b) \<and> begins ?b p2 ?e (uleb_bytes c @ rest) \<or> ?e < p2"
    using uleb_begins [of ?b p1 ?e b "uleb_bytes c @ rest"] c1 by blast
  obtain c' p3 where 3: "get_uleb128 ?b ?e p2 = Inr (c', p3)" "unat c' \<le> unat c" "p3 \<le> p2 + length (uleb_bytes c)"
    and c3: "c' = c \<and> p3 = p2 + length (uleb_bytes c) \<and> begins ?b p3 ?e rest \<or> ?e < p3"
    using uleb_begins [of ?b p2 ?e c rest] c2 by blast
  have m: "p1 < p2" "p2 < p3" using get_uleb128_bounds [OF 2(1)] get_uleb128_bounds [OF 3(1)] by auto
  have "get3_uleb128 s p = Inr (a', b', c', p3)" by (simp add: get3_uleb128_def 1 2 3)
  moreover have "p3 \<le> p + length (uleb_bytes a @ uleb_bytes b @ uleb_bytes c)" using 1(2) 2(2) 3(3) by simp
  moreover have "c' = c \<and> p3 = p + length (uleb_bytes a @ uleb_bytes b @ uleb_bytes c) \<and>
        begins ?b p3 ?e rest \<or> ?e < p3"
  proof (cases "?e < p3")
    case False
    with m c1 c2 c3 show ?thesis by auto
  qed simp
  ultimately show ?thesis using 3(2) by blast
qed

section \<open>Incomplete requests\<close>

lemma find_colon_none:
  "0x3A \<notin> set (take (e - p) (drop p buf)) \<Longrightarrow> p \<le> e \<Longrightarrow> e \<le> length buf \<Longrightarrow> find_colon buf e p = Inr e"
proof (induction buf e p rule: find_colon.induct)
  case (1 buf e p)
  show ?case
  proof (cases "p < e")
    case True
    then have p: "p < length buf" and d: "take (e - p) (drop p buf) = buf ! p # take (e - (p + 1)) (drop (p + 1) buf)"
      using "1.prems"(3) by (simp_all add: take_Cons' Cons_nth_drop_Suc [symmetric])
    have nc: "buf ! p \<noteq> 0x3A" "0x3A \<notin> set (take (e - (p + 1)) (drop (p + 1) buf))"
      using "1.prems"(1) unfolding d by auto
    from "1.IH" [OF True read_at_ok [OF p]] nc True "1.prems"(3) p show ?thesis
      by (simp add: find_colon.simps [of buf e p])
  next
    case False
    with "1.prems"(2) show ?thesis by (simp add: find_colon.simps [of buf e e])
  qed
qed

lemma need_more_ok: "q - cbuf \<le> buf_max (cl s) \<Longrightarrow> need_more s cbuf q = Inr (Break s True)"
  by (simp add: need_more_def)

lemma run_incomplete:
  assumes "sim a n s" "cbuf \<le> p" "begins (rx_buf (cl s)) p (buf_len (cl s)) (cmd_args r)"
    and "p + length (cmd_args r) \<le> cbuf + max_packet_len"
    and "can_run r (p + length (cmd_args r) - cbuf) 0"
  shows "run s cbuf r p = Inr (Break s True)"
proof -
  let ?b = "rx_buf (cl s)" and ?e = "buf_len (cl s)"
  have bm: "buf_max (cl s) = max_packet_len" using assms(1) by (simp add: sim_def)
  have e: "?e \<le> max_packet_len" "p \<le> ?e" using sim_len [OF assms(1)] assms(3) by (auto simp: begins_def)
  show ?thesis
  proof (cases r)
    case (Lock t)
    with assms(3) uleb_begins [of ?b p ?e t "[]"] obtain t' p' where
      g: "get_uleb128 ?b ?e p = Inr (t', p')" and "?e < p'" and "p' \<le> p + length (uleb_bytes t)"
      by (auto simp: begins_def)
    with assms(4) Lock bm show ?thesis by (simp add: run_def cmd_lock_def need_more_ok)
  next
    case (Settck v)
    then have "?e - p < 4" "p \<le> ?e" using assms(3) by (simp_all add: begins_def)
    then have "?e < p + 4" by linarith
    with Settck show ?thesis by (simp add: run_def cmd_settck_def)
  next
    case (Mrd f ad m)
    with assms(3) get3_begins [of s p f ad m "[]"] obtain f' ad' m' p' where
      g: "get3_uleb128 s p = Inr (f', ad', m', p')" and "?e < p'"
      and "p' \<le> p + length (uleb_bytes f @ uleb_bytes ad @ uleb_bytes m)"
      by (auto simp: begins_def)
    with assms(4) Mrd bm show ?thesis by (simp add: run_def cmd_mrd_def need_more_ok)
  next
    case (Mwr f ad d)
    let ?m = "word_of_nat (length d) :: 64 word"
    have "length d \<le> 2 * max_packet_len" using assms(4) Mwr e assms(2) by simp
    then have m: "unat ?m = length d" by (intro unat_word_of_nat_64) (simp add: max_packet_len_def)
    from assms(3) Mwr get3_begins [of s p f ad ?m d] obtain f' ad' m' p' where
      g: "get3_uleb128 s p = Inr (f', ad', m', p')" and le: "unat m' \<le> length d"
      and pl: "p' \<le> p + length (uleb_bytes f @ uleb_bytes ad @ uleb_bytes ?m)"
      and c: "m' = ?m \<and> begins ?b p' ?e d \<or> ?e < p'"
      unfolding m by auto
    have le2: "p' + unat m' \<le> p + length (cmd_args r)" using pl le Mwr by simp
    have "p + length (cmd_args r) \<le> 2 * max_packet_len" using assms(2,4) e by simp
    then have pa: "ptr_add s p' (unat m') = Inr (p' + unat m')"
      using le2 by (intro sim_ptr_add [OF assms(1)]) linarith
    have "?e < p' + unat m'" using c by (auto simp: begins_def m)
    with g pa le2 assms(4) bm Mwr show ?thesis by (simp add: run_def cmd_mwr_def need_more_ok)
  next
    case (Configure cs)
    let ?m = "word_of_nat (length cs) :: 64 word"
    have lcs: "length cs \<le> 2 * max_packet_len" using assms(4) Configure e assms(2) by simp
    then have m: "unat ?m = length cs" by (intro unat_word_of_nat_64) (simp add: max_packet_len_def)
    from assms(3) Configure uleb_begins [of ?b p ?e ?m cs] obtain m' p' where
      g: "get_uleb128 ?b ?e p = Inr (m', p')" and le: "unat m' \<le> length cs"
      and pl: "p' \<le> p + length (uleb_bytes ?m)" and c: "m' = ?m \<and> begins ?b p' ?e cs \<or> ?e < p'"
      unfolding m by auto
    have u: "unat (ucast m' :: 32 word) = unat m'"
    proof -
      have "unat m' < 2 ^ 32" using le lcs by (simp add: max_packet_len_def)
      then show ?thesis by (simp add: unsigned_ucast_eq take_bit_nat_eq_self)
    qed
    have le2: "p' + unat m' \<le> p + length (cmd_args r)" using pl le Configure by simp
    have "p + length (cmd_args r) \<le> 2 * max_packet_len" using assms(2,4) e by simp
    then have pa: "ptr_add s p' (unat (ucast m' :: 32 word)) = Inr (p' + unat m')"
      unfolding u using le2 by (intro sim_ptr_add [OF assms(1)]) linarith
    have "?e < p' + unat m'" using c by (auto simp: begins_def m)
    moreover have "p' + unat m' - cbuf < buf_max (cl s)"
      using le2 assms(5) Configure bm by simp
    ultimately show ?thesis using g pa Configure by (simp add: run_def cmd_configure_def ensure_def)
  qed (use assms(3) in \<open>auto simp: begins_def\<close>)
qed

lemma begins_prefix: "begins buf p e (xs @ ys) \<Longrightarrow> e < p + length xs \<Longrightarrow> begins buf p e xs"
  by (auto simp: begins_def)

lemma one_command_incomplete:
  assumes "sim a n s" "begins (rx_buf (cl s)) cbuf (buf_len (cl s)) (encode r)"
    and "length (encode r) \<le> max_packet_len" "can_run r (length (encode r)) 0"
  shows "one_command mem_handlers s cbuf = Inr (Break s True)"
proof (cases "cbuf + length (cmd_name r) \<le> buf_len (cl s)")
  case True
  note b = begins_append [OF assms(2) [unfolded encode_def] True]
  have "one_command mem_handlers s cbuf = run s cbuf r (cbuf + length (cmd_name r))"
    using b(1) True by (rule one_command_run)
  also have "\<dots> = Inr (Break s True)"
    using assms(3,4) by (intro run_incomplete [OF assms(1) _ b(2)]) (simp_all add: encode_def)
  finally show ?thesis .
next
  case False
  let ?b = "rx_buf (cl s)" and ?e = "buf_len (cl s)"
  have b: "begins ?b cbuf ?e (cmd_name r)"
    using assms(2) False by (rule_tac begins_prefix [of _ _ _ _ "cmd_args r"]) (simp_all add: encode_def)
  have k: "?e - cbuf < length (cmd_name r)" "cbuf \<le> ?e" "?e \<le> length ?b" and
    t: "take (?e - cbuf) (drop cbuf ?b) = take (?e - cbuf) (cmd_name r)"
    using b by (simp_all add: begins_def)
  have tb: "take (?e - cbuf) (cmd_name r) = take (?e - cbuf) (butlast (cmd_name r))"
    using k(1) by (simp add: take_butlast)
  have "0x3A \<notin> set (take (?e - cbuf) (drop cbuf ?b))"
    unfolding t tb using cmd_name_colon(2) [of r] in_set_takeD by fast
  moreover have m: "min (cbuf + 30) ?e = ?e" using k(1,2) cmd_name_colon(3) [of r] by simp
  ultimately have "find_colon ?b (min (cbuf + 30) ?e) cbuf = Inr ?e"
    using k(2,3) find_colon_none [of ?e cbuf ?b] by simp
  moreover have "\<not> 30 \<le> ?e - cbuf" using k(1) cmd_name_colon(3) [of r] by linarith
  ultimately show ?thesis using m by (simp add: one_command_def Let_def)
qed

lemma one_command_at_end:
  assumes "buf_len (cl s) \<le> cbuf"
  shows "one_command h s cbuf = Inr (Break s True)"
  using assms by (simp add: one_command_def Let_def find_colon.simps [of "rx_buf (cl s)" "buf_len (cl s)" cbuf])

lemma run_lock_later:
  assumes "sim a n s" "bytes_at (rx_buf (cl s)) p (uleb_bytes t)" "p + length (uleb_bytes t) \<le> buf_len (cl s)"
    "0 < reply_len (rp s)"
  shows "cmd_lock mem_handlers s cbuf p = Inr (Break s False)"
  using assms sim_len [OF assms(1)] by (simp add: cmd_lock_def get_uleb128_at)

section \<open>A buffer of requests\<close>

definition encodes :: "request list \<Rightarrow> byte list" where
  "encodes rs = concat (map encode rs)"

lemma encodes_simps [simp]:
  "encodes [] = []" "encodes (r # rs) = encode r @ encodes rs" "encodes (rs @ qs) = encodes rs @ encodes qs"
  by (simp_all add: encodes_def)

definition is_lock :: "request \<Rightarrow> bool" where
  "is_lock r = (case r of Lock t \<Rightarrow> True | _ \<Rightarrow> False)"

definition is_configure :: "request \<Rightarrow> bool" where
  "is_configure r = (case r of Configure cs \<Rightarrow> True | _ \<Rightarrow> False)"

lemma can_run_iff: "can_run r q l \<longleftrightarrow> (is_lock r \<longrightarrow> l = 0) \<and> (is_configure r \<longrightarrow> q < max_packet_len)"
  by (cases r) (simp_all add: is_lock_def is_configure_def)

text \<open>
  What the server has room for, when \<open>c\<close> bytes are consumed and \<open>l\<close> bytes are in the reply: the
  replies to the requests that fit in the receive buffer together. A \<open>configure:\<close> may not end
  with the last byte of the buffer.
\<close>

definition room :: "nat \<Rightarrow> nat \<Rightarrow> request list \<Rightarrow> bool" where
  "room c l rs \<longleftrightarrow>
     (\<forall>ys zs. rs = ys @ zs \<and> c + length (encodes ys) \<le> max_packet_len \<longrightarrow>
        l + sum_list (map reply_size ys) \<le> max_packet_len \<and>
        (ys \<noteq> [] \<and> is_configure (last ys) \<longrightarrow> c + length (encodes ys) < max_packet_len))"

lemma room_Cons:
  assumes "room c l (r # rs)" "c + length (encode r) \<le> max_packet_len"
  shows "l + reply_size r \<le> max_packet_len" "is_configure r \<longrightarrow> c + length (encode r) < max_packet_len"
    and "l' \<le> l + reply_size r \<Longrightarrow> room (c + length (encode r)) l' rs"
proof -
  have "r # rs = [r] @ rs" by simp
  with assms have 1: "l + sum_list (map reply_size [r]) \<le> max_packet_len \<and>
      ([r] \<noteq> [] \<and> is_configure (last [r]) \<longrightarrow> c + length (encodes [r]) < max_packet_len)"
    unfolding room_def by (metis append_Nil2 encodes_simps(1,2))
  then show "l + reply_size r \<le> max_packet_len" "is_configure r \<longrightarrow> c + length (encode r) < max_packet_len"
    by simp_all
  assume l': "l' \<le> l + reply_size r"
  show "room (c + length (encode r)) l' rs"
    unfolding room_def
  proof (intro allI impI, elim conjE)
    fix ys zs
    assume rs: "rs = ys @ zs" and c: "c + length (encode r) + length (encodes ys) \<le> max_packet_len"
    then have "r # rs = (r # ys) @ zs" "c + length (encodes (r # ys)) \<le> max_packet_len" by simp_all
    with assms(1) have h: "l + sum_list (map reply_size (r # ys)) \<le> max_packet_len \<and>
        (is_configure (last (r # ys)) \<longrightarrow> c + length (encodes (r # ys)) < max_packet_len)"
      unfolding room_def by blast
    with l' show "l' + sum_list (map reply_size ys) \<le> max_packet_len \<and>
        (ys \<noteq> [] \<and> is_configure (last ys) \<longrightarrow> c + length (encode r) + length (encodes ys) < max_packet_len)"
      by (auto simp: add.assoc)
  qed
qed

definition fits :: "request \<Rightarrow> bool" where
  "fits r \<longleftrightarrow> request_ok r \<and> length (encode r) \<le> max_packet_len \<and>
     (is_configure r \<longrightarrow> length (encode r) < max_packet_len)"

text \<open>From \<open>p\<close> to \<open>e\<close> the block holds the first bytes of the stream \<open>bs\<close>.\<close>

definition upto :: "byte list \<Rightarrow> nat \<Rightarrow> nat \<Rightarrow> byte list \<Rightarrow> bool" where
  "upto buf p e bs \<longleftrightarrow> p \<le> e \<and> e \<le> length buf \<and> (\<exists>later. bs = take (e - p) (drop p buf) @ later)"

lemma upto_iff: "upto buf p e bs \<longleftrightarrow>
   p \<le> e \<and> e \<le> length buf \<and> e - p \<le> length bs \<and> take (e - p) (drop p buf) = take (e - p) bs"
proof (intro iffI)
  assume u: "upto buf p e bs"
  then obtain later where "bs = take (e - p) (drop p buf) @ later" and "p \<le> e" "e \<le> length buf"
    by (auto simp: upto_def)
  moreover from this have "length (take (e - p) (drop p buf)) = e - p" by simp
  ultimately show "p \<le> e \<and> e \<le> length buf \<and> e - p \<le> length bs \<and> take (e - p) (drop p buf) = take (e - p) bs"
    by (metis append_eq_conv_conj le_add1 length_append)
next
  assume u: "p \<le> e \<and> e \<le> length buf \<and> e - p \<le> length bs \<and> take (e - p) (drop p buf) = take (e - p) bs"
  then have "bs = take (e - p) (drop p buf) @ drop (e - p) bs" by simp
  with u show "upto buf p e bs" unfolding upto_def by blast
qed

lemma upto_Cons:
  assumes "upto buf p e (xs @ ys)"
  shows "p + length xs \<le> e \<Longrightarrow> bytes_at buf p xs \<and> upto buf (p + length xs) e ys"
    and "\<not> p + length xs \<le> e \<Longrightarrow> begins buf p e xs"
proof -
  assume le: "p + length xs \<le> e"
  then obtain k where k: "e = p + length xs + k" by (metis le_add_diff_inverse)
  have e: "e \<le> length buf" "k \<le> length ys" and t: "take (length xs + k) (drop p buf) = xs @ take k ys"
    using assms unfolding upto_iff k by auto
  have "take (length xs) (drop p buf) = xs"
    using arg_cong [OF t, of "take (length xs)"] by simp
  moreover have "take k (drop (p + length xs) buf) = take k ys"
    using arg_cong [OF t, of "drop (length xs)"] by (simp add: drop_take add.commute)
  ultimately show "bytes_at buf p xs \<and> upto buf (p + length xs) e ys"
    using e by (simp add: bytes_at_def upto_iff k)
next
  assume "\<not> p + length xs \<le> e"
  with assms show "begins buf p e xs" by (auto simp: upto_iff begins_def)
qed

text \<open>
  The command loop on such a buffer: it runs the requests that are complete, in order, and stops
  at the first one that is not, or before a \<open>lock:\<close> that has to wait for the reply to be sent.
\<close>

lemma command_loop_Next:
  "iteration h s cbuf = Inr (Next s' p) \<Longrightarrow> command_loop h s cbuf = command_loop h s' p"
  by (simp add: command_loop.simps [of h s cbuf])

lemma command_loop_Broke:
  "one_command h s cbuf = Inr (Break s fill) \<Longrightarrow> command_loop h s cbuf = Inr (Broke s cbuf fill)"
  by (simp add: command_loop.simps [of h s cbuf] iteration_def finish_def)

lemma stepped_refl: "sim a n s \<Longrightarrow> stepped a n s s q (abs_srv s, [])"
  by (simp add: stepped_def appended_refl sim_ready)

lemma stepped_trans:
  assumes "stepped a n s s1 q1 (exec r (abs_srv s))" "stepped a n s1 s2 q2 (exec_all rs (abs_srv s1))" "q1 \<le> q2"
  shows "stepped a n s s2 q2 (exec_all (r # rs) (abs_srv s))"
proof -
  have "drop q2 (rx_buf (cl s1)) = drop q2 (rx_buf (cl s))"
  proof -
    have "drop q1 (rx_buf (cl s1)) = drop q1 (rx_buf (cl s))" using assms(1) by (simp add: stepped_def)
    from arg_cong [OF this, of "drop (q2 - q1)"] assms(3) show ?thesis by simp
  qed
  moreover have "client_frame (cl s) (cl s2)" using assms(1,2) by (auto simp: stepped_def client_frame_def)
  moreover have "abs_srv s1 = fst (exec r (abs_srv s))" using assms(1) by (simp add: stepped_def)
  ultimately show ?thesis
    using assms(1,2) by (auto simp: stepped_def case_prod_beta intro: appended_trans)
qed

lemma command_loop_stream:
  assumes "sim a n s" "upto (rx_buf (cl s)) cbuf (buf_len (cl s)) (encodes rs)"
    and "\<forall>r \<in> set rs. fits r" "room cbuf (reply_len (rp s)) rs"
  shows "\<exists>ran rest s' fill. rs = ran @ rest \<and>
     command_loop mem_handlers s cbuf = Inr (Broke s' (cbuf + length (encodes ran)) fill) \<and>
     stepped a n s s' (cbuf + length (encodes ran)) (exec_all ran (abs_srv s)) \<and>
     upto (rx_buf (cl s')) (cbuf + length (encodes ran)) (buf_len (cl s')) (encodes rest) \<and>
     (fill \<longrightarrow> rest \<noteq> [] \<longrightarrow> buf_len (cl s') < cbuf + length (encodes ran) + length (encode (hd rest))) \<and>
     (\<not> fill \<longrightarrow> (ran \<noteq> [] \<or> 0 < reply_len (rp s)) \<and> cbuf + length (encodes ran) < buf_len (cl s'))"
  using assms
proof (induction rs arbitrary: s cbuf)
  case Nil
  then have "buf_len (cl s) \<le> cbuf" by (auto simp: upto_iff)
  then have "command_loop mem_handlers s cbuf = Inr (Broke s cbuf True)"
    by (intro command_loop_Broke one_command_at_end)
  with Nil stepped_refl [OF Nil.prems(1)] show ?case
    by (intro exI [of _ "[]"] exI [of _ s] exI [of _ True]) simp
next
  case (Cons r rs)
  let ?b = "rx_buf (cl s)" and ?e = "buf_len (cl s)"
  have u: "upto ?b cbuf ?e (encode r @ encodes rs)" using Cons.prems(2) by simp
  have fr: "fits r" using Cons.prems(3) by simp
  show ?case
  proof (cases "cbuf + length (encode r) \<le> ?e")
    case False
    note b = upto_Cons(2) [OF u False]
    have "one_command mem_handlers s cbuf = Inr (Break s True)"
      using fr by (intro one_command_incomplete [OF Cons.prems(1) b]) (simp_all add: fits_def can_run_iff)
    then have "command_loop mem_handlers s cbuf = Inr (Broke s cbuf True)" by (rule command_loop_Broke)
    with Cons.prems(2) False stepped_refl [OF Cons.prems(1)] show ?thesis
      by (intro exI [of _ "[]"] exI [of _ "r # rs"] exI [of _ s] exI [of _ True]) simp
  next
    case True
    note b = upto_Cons(1) [OF u True]
    have q: "cbuf + length (encode r) \<le> max_packet_len" using True sim_len [OF Cons.prems(1)] by simp
    note rm = room_Cons [OF Cons.prems(4) q]
    show ?thesis
    proof (cases "is_lock r \<and> 0 < reply_len (rp s)")
      case lock: True
      then obtain t where t: "r = Lock t" by (auto simp: is_lock_def split: request.split_asm)
      have "one_command mem_handlers s cbuf = run s cbuf r (cbuf + length (cmd_name r))"
        using b True by (intro one_command_run) (simp_all add: encode_def bytes_at_append)
      also have "\<dots> = cmd_lock mem_handlers s cbuf (cbuf + length (cmd_name r))" by (simp add: run_def t)
      also have "\<dots> = Inr (Break s False)"
        using b True lock t by (intro run_lock_later [OF Cons.prems(1), of _ t]) (simp_all add: encode_def bytes_at_append)
      finally have "command_loop mem_handlers s cbuf = Inr (Broke s cbuf False)" by (rule command_loop_Broke)
      moreover have "cbuf < ?e" using True t by (simp add: encode_def)
      ultimately show ?thesis
        using Cons.prems(2) stepped_refl [OF Cons.prems(1)] lock
        by (intro exI [of _ "[]"] exI [of _ "r # rs"] exI [of _ s] exI [of _ False]) simp
    next
      case False
      have "can_run r (cbuf + length (encode r)) (reply_len (rp s))"
        using False rm(2) by (auto simp: can_run_iff)
      from iteration_request [OF Cons.prems(1) _ True _ rm(1) this] b fr obtain s1 where
        it: "iteration mem_handlers s cbuf = Inr (Next s1 (cbuf + length (encode r)))"
        and st: "stepped a n s s1 (cbuf + length (encode r)) (exec r (abs_srv s))"
        by (auto simp: fits_def)
      have s1: "sim a n s1" "buf_len (cl s1) = ?e" using st by (simp_all add: stepped_def client_frame_def)
      have l1: "reply_len (rp s1) \<le> reply_len (rp s) + reply_size r"
        using st length_exec [OF sim_astate_ok [OF Cons.prems(1)]] fr
        by (simp add: stepped_def appended_def fits_def)
      have u1: "upto (rx_buf (cl s1)) (cbuf + length (encode r)) (buf_len (cl s1)) (encodes rs)"
        using b st by (auto simp: upto_iff stepped_def client_frame_def)
      from Cons.IH [OF s1(1) u1 _ rm(3) [OF l1]] Cons.prems(3) obtain ran rest s' fill where
        rs: "rs = ran @ rest" and
        cl: "command_loop mem_handlers s1 (cbuf + length (encode r)) =
           Inr (Broke s' (cbuf + length (encode r) + length (encodes ran)) fill)" and
        st': "stepped a n s1 s' (cbuf + length (encode r) + length (encodes ran)) (exec_all ran (abs_srv s1))" and
        u': "upto (rx_buf (cl s')) (cbuf + length (encode r) + length (encodes ran)) (buf_len (cl s')) (encodes rest)" and
        f': "fill \<longrightarrow> rest \<noteq> [] \<longrightarrow>
           buf_len (cl s') < cbuf + length (encode r) + length (encodes ran) + length (encode (hd rest))" and
        nf': "\<not> fill \<longrightarrow> cbuf + length (encode r) + length (encodes ran) < buf_len (cl s')"
        by auto
      have st2: "stepped a n s s' (cbuf + length (encodes (r # ran))) (exec_all (r # ran) (abs_srv s))"
        using stepped_trans [OF st] st' by (simp add: add.assoc)
      show ?thesis
        using rs cl st2 u' f' nf'
        by (intro exI [of _ "r # ran"] exI [of _ rest] exI [of _ s'] exI [of _ fill])
           (simp add: command_loop_Next [OF it] add.assoc)
    qed
  qed
qed

section \<open>A connection\<close>

definition windows :: "request list \<Rightarrow> bool" where \<comment> \<open>wherever the buffer starts\<close>
  "windows rs \<longleftrightarrow> (\<forall>xs ys. rs = xs @ ys \<longrightarrow> room 0 0 ys)"

lemma windows_append: "windows (xs @ ys) \<Longrightarrow> windows ys"
  by (auto simp: windows_def)

definition conv :: "64 word \<Rightarrow> 64 word \<Rightarrow> xvc_mem srv \<Rightarrow> sock \<Rightarrow> request list \<Rightarrow> bool" where
  "conv a n s k rs \<longleftrightarrow>
     sim a n s \<and> take (buf_len (cl s)) (rx_buf (cl s)) @ concat (rx k) = encodes rs \<and>
     [] \<notin> set (rx k) \<and> \<not> rx_error k \<and> length rs \<le> sends_ok k \<and> (\<forall>r \<in> set rs. fits r) \<and> windows rs"

lemma encode_nonempty [simp]: "encode r \<noteq> []"
  using cmd_name_colon(4) [of r] by (simp add: encode_def)

lemma encodes_eq_Nil [simp]: "encodes rs = [] \<longleftrightarrow> rs = []"
  by (cases rs) simp_all

lemma receive_conv:
  assumes "conv a n s k rs" "rs \<noteq> [] \<longrightarrow> buf_len (cl s) < length (encode (hd rs))"
  shows "rs = [] \<and> receive s k = Inr (Finished s k Returned) \<or>
    (\<exists>s' k'. receive s k = Inr (Read_more s' k') \<and> conv a n s' k' rs \<and> abs_srv s' = abs_srv s \<and> tx k' = tx k)"
proof (cases "rx k")
  case Nil
  have "rs = []"
  proof (rule ccontr)
    assume ne: "rs \<noteq> []"
    then obtain r rs' where rs: "rs = r # rs'" by (cases rs) auto
    have "length (encodes rs) \<le> buf_len (cl s)"
      using assms(1) Nil by (auto simp: conv_def dest: arg_cong [of _ _ length])
    with assms(2) rs show False by simp
  qed
  moreover have "receive s k = Inr (Finished s k Returned)"
    using Nil assms(1) by (simp add: receive_def sock_recv_def conv_def)
  ultimately show ?thesis by simp
next
  case (Cons seg segs)
  let ?n = "buf_max (cl s) - buf_len (cl s)"
  have sim: "sim a n s" using assms(1) by (simp add: conv_def)
  have bm: "buf_max (cl s) = max_packet_len" "length (rx_buf (cl s)) = max_packet_len"
    using sim by (simp_all add: sim_def srv_ok_def client_ok_def)
  have seg: "seg \<noteq> []" using assms(1) Cons by (auto simp: conv_def)
  then have "encodes rs \<noteq> []" using assms(1) Cons by (auto simp: conv_def)
  then have ne: "rs \<noteq> []" by simp
  then have "buf_len (cl s) < max_packet_len"
    using assms by (auto simp: conv_def fits_def dest!: bspec [of _ _ "hd rs"])
  then have n: "?n \<noteq> 0" using bm by simp
  obtain bs k' where r: "sock_recv ?n k = (Got bs, k')"
    using n Cons seg by (simp add: sock_recv_def)
  note g = sock_recv_Got [OF r]
  have k': "[] \<notin> set (rx k')"
    using r assms(1) Cons seg n by (auto simp: sock_recv_def conv_def split: if_split_asm)
  have room: "buf_len (cl s) + length bs \<le> length (rx_buf (cl s))" using g bm sim_len [OF sim] by linarith
  define b where "b = take (buf_len (cl s)) (rx_buf (cl s)) @ bs @ drop (buf_len (cl s) + length bs) (rx_buf (cl s))"
  have w: "write_at (rx_buf (cl s)) (buf_len (cl s)) bs = Inr b" using room by (simp add: write_at_ok b_def)
  let ?s = "s\<lparr>cl := (cl s)\<lparr>rx_buf := b, buf_len := buf_len (cl s) + length bs\<rparr>\<rparr>"
  have rec: "receive s k = Inr (Read_more ?s k')" by (simp add: receive_def r w)
  have "hub.sok a n ?s" using hub.receive_ok [OF _ rec] sim by (simp add: sim_def)
  then have "sim a n ?s" using sim by (simp add: sim_def)
  moreover have "take (buf_len (cl s) + length bs) b = take (buf_len (cl s)) (rx_buf (cl s)) @ bs"
    using room by (simp add: b_def)
  ultimately have "conv a n ?s k' rs"
    using assms(1) g k' by (simp add: conv_def)
  moreover have "abs_srv ?s = abs_srv s" by (simp add: abs_srv_def)
  ultimately show ?thesis using rec g by blast
qed

lemma consume_packet_at:
  assumes "sim a n s" "q \<le> buf_len (cl s)"
  shows "\<exists>s'. consume_packet q s = Inr s' \<and> sim a n s' \<and> abs_srv s' = abs_srv s \<and>
    buf_len (cl s') = buf_len (cl s) - q \<and>
    take (buf_len (cl s')) (rx_buf (cl s')) = take (buf_len (cl s) - q) (drop q (rx_buf (cl s)))"
proof -
  let ?m = "buf_len (cl s) - q" and ?b = "rx_buf (cl s)"
  have l: "buf_len (cl s) \<le> length ?b" using sim_len [OF assms(1)] by simp
  define b where "b = take ?m (drop q ?b) @ drop ?m ?b"
  have r: "read_range ?b q ?m = Inr (take ?m (drop q ?b))" using l assms(2) by (intro read_range_ok) simp
  have w: "write_at ?b 0 (take ?m (drop q ?b)) = Inr b" using l assms(2) by (simp add: write_at_ok b_def)
  let ?s = "s\<lparr>cl := (cl s)\<lparr>rx_buf := b, buf_len := ?m\<rparr>\<rparr>"
  have c: "consume_packet q s = Inr ?s" using assms(2) r w by (simp add: consume_packet_def Let_def)
  have "hub.sok a n ?s" using hub.consume_packet_ok [OF _ c] assms(1) by (simp add: sim_def)
  then have "sim a n ?s" using assms(1) by (simp add: sim_def)
  moreover have "take ?m b = take ?m (drop q ?b)" using l assms(2) by (simp add: b_def)
  ultimately show ?thesis using c by (simp add: abs_srv_def)
qed

lemma send_packet_at:
  assumes "reply_ready (rp s)" "reply_len (rp s) \<le> max_packet_len" "0 < sends_ok k"
  shows "send_packet s k = Inr (True, k\<lparr>tx := tx k @ [reply_bytes (rp s)], sends_ok := sends_ok k - 1\<rparr>)"
  using assms
  by (simp add: send_packet_def read_range_ok reply_ready_def reply_wf_def reply_bytes_def sock_send_def)

text \<open>One turn of the conversation runs some requests and sends exactly their replies.\<close>

lemma turn_conv:
  assumes "conv a n s k rs"
  shows "\<exists>ran rest. rs = ran @ rest \<and>
    ((\<exists>s' k'. turn mem_handlers s k = Inr (Read_more s' k') \<and> conv a n s' k' rest \<and>
        abs_srv s' = fst (exec_all ran (abs_srv s)) \<and> concat (tx k') = concat (tx k) @ snd (exec_all ran (abs_srv s))) \<or>
     (\<exists>s' k'. turn mem_handlers s k = Inr (Finished s' k' Returned) \<and> rest = [] \<and> sim a n s' \<and>
        abs_srv s' = fst (exec_all ran (abs_srv s)) \<and> concat (tx k') = concat (tx k) @ snd (exec_all ran (abs_srv s))))"
proof -
  let ?s0 = "s\<lparr>rp := (rp s)\<lparr>reply_len := 0\<rparr>\<rparr>"
  have sim: "sim a n s" using assms by (simp add: conv_def)
  then have s0: "sim a n ?s0" by (simp add: sim_def srv_ok_def reply_wf_def reply_ready_def)
  have len: "buf_len (cl s) \<le> length (rx_buf (cl s))" using sim_len [OF sim] by simp
  have stream: "encodes rs = take (buf_len (cl s)) (rx_buf (cl s)) @ concat (rx k)"
    using assms by (simp add: conv_def)
  have u: "upto (rx_buf (cl ?s0)) 0 (buf_len (cl ?s0)) (encodes rs)"
    using len by (auto simp: upto_def stream)
  have rm: "room 0 (reply_len (rp ?s0)) rs" using assms by (auto simp: conv_def windows_def)
  from command_loop_stream [OF s0 u _ rm] assms obtain ran rest s1 fill where
    rs: "rs = ran @ rest" and
    cl: "command_loop mem_handlers ?s0 0 = Inr (Broke s1 (length (encodes ran)) fill)" and
    st: "stepped a n ?s0 s1 (length (encodes ran)) (exec_all ran (abs_srv ?s0))" and
    u1: "upto (rx_buf (cl s1)) (length (encodes ran)) (buf_len (cl s1)) (encodes rest)" and
    fill: "fill \<longrightarrow> rest \<noteq> [] \<longrightarrow> buf_len (cl s1) < length (encodes ran) + length (encode (hd rest))" and
    nofill: "\<not> fill \<longrightarrow> ran \<noteq> [] \<and> length (encodes ran) < buf_len (cl s1)"
    by (auto simp: conv_def)
  let ?q = "length (encodes ran)"
  have turn: "turn mem_handlers s k = after_commands mem_handlers (Broke s1 ?q fill) k"
    by (simp add: turn_def cl)
  have s1: "sim a n s1" "abs_srv s1 = fst (exec_all ran (abs_srv s))" "buf_len (cl s1) = buf_len (cl s)"
    using st by (simp_all add: stepped_def client_frame_def)
  have "reply_bytes (rp ?s0) = []" by (simp add: reply_bytes_def)
  then have out: "reply_bytes (rp s1) = snd (exec_all ran (abs_srv s))"
    using st by (simp add: stepped_def appended_def)
  have q: "?q \<le> buf_len (cl s1)" using u1 by (simp add: upto_iff)
  have tail: "take (buf_len (cl s1) - ?q) (drop ?q (rx_buf (cl s1))) @ concat (rx k) = encodes rest"
  proof -
    have d: "drop ?q (rx_buf (cl s1)) = drop ?q (rx_buf (cl s))" using st by (simp add: stepped_def)
    have "encodes rest = drop ?q (encodes rs)" by (simp add: rs)
    also have "\<dots> = drop ?q (take (buf_len (cl s)) (rx_buf (cl s))) @ concat (rx k)"
      using q s1(3) len by (simp add: stream)
    finally show ?thesis by (simp add: d s1(3) drop_take)
  qed
  have rest: "\<forall>r \<in> set rest. fits r" "windows rest"
    using assms windows_append [of ran rest] by (auto simp: conv_def rs)
  show ?thesis
  proof (cases "ran = []")
    case True
    then have f: "fill" using nofill by auto
    have c1: "conv a n s1 k rest"
      using assms s1(1) tail rest True by (simp add: conv_def rs)
    have "rest \<noteq> [] \<longrightarrow> buf_len (cl s1) < length (encode (hd rest))" using fill f True by simp
    note rc = receive_conv [OF c1 this]
    have "turn mem_handlers s k = receive s1 k" by (simp add: turn True after_commands_def)
    with rc s1 True show ?thesis
      by (intro exI [of _ "[]"] exI [of _ rest]) (auto simp: rs)
  next
    case False
    then have "0 < ?q" by simp
    have sends: "length rs \<le> sends_ok k" using assms by (simp add: conv_def)
    then have pos: "0 < sends_ok k" using False by (cases ran) (simp_all add: rs)
    define k1 where "k1 = k\<lparr>tx := tx k @ [reply_bytes (rp s1)], sends_ok := sends_ok k - 1\<rparr>"
    have send: "send_packet s1 k = Inr (True, k1)"
      unfolding k1_def using s1(1) pos by (intro send_packet_at) (simp_all add: sim_def)
    from consume_packet_at [OF s1(1) q] obtain s2 where
      con: "consume_packet ?q s1 = Inr s2" and s2: "sim a n s2" "abs_srv s2 = abs_srv s1"
        "buf_len (cl s2) = buf_len (cl s1) - ?q" and
      b2: "take (buf_len (cl s2)) (rx_buf (cl s2)) = take (buf_len (cl s1) - ?q) (drop ?q (rx_buf (cl s1)))"
      by blast
    have "length rest \<le> sends_ok k1" using sends False by (cases ran) (simp_all add: rs k1_def)
    then have c2: "conv a n s2 k1 rest"
      using assms s2(1) tail rest b2 by (simp add: conv_def k1_def)
    have tx1: "concat (tx k1) = concat (tx k) @ snd (exec_all ran (abs_srv s))" by (simp add: k1_def out)
    have fl: "do_flush mem_handlers s1 = (0, s1)" by (simp add: do_flush_def mem_handlers_def)
    have t: "turn mem_handlers s k =
        (if buf_len (cl s2) \<noteq> 0 \<and> \<not> fill then Inr (Read_more s2 k1) else receive s2 k1)"
      using \<open>0 < ?q\<close> by (simp add: turn after_commands_def fl send con)
    show ?thesis
    proof (cases "fill")
      case False
      then have "buf_len (cl s2) \<noteq> 0" using nofill s2(3) by simp
      with t False have "turn mem_handlers s k = Inr (Read_more s2 k1)" by simp
      with c2 tx1 s1(2) s2(2) show ?thesis
        by (intro exI [of _ ran] exI [of _ rest]) (simp add: rs)
    next
      case True
      then have tr: "turn mem_handlers s k = receive s2 k1" using t by simp
      have "rest \<noteq> [] \<longrightarrow> buf_len (cl s2) < length (encode (hd rest))" using fill True s2(3) q by auto
      from receive_conv [OF c2 this] show ?thesis
      proof (elim disjE exE conjE)
        assume "rest = []" "receive s2 k1 = Inr (Finished s2 k1 Returned)"
        with tr tx1 s1(2) s2 show ?thesis
          by (intro exI [of _ ran] exI [of _ rest]) (simp add: rs)
      next
        fix s' k' assume "receive s2 k1 = Inr (Read_more s' k')" "conv a n s' k' rest"
          "abs_srv s' = abs_srv s2" "tx k' = tx k1"
        with tr tx1 s1(2) s2(2) show ?thesis
          by (intro exI [of _ ran] exI [of _ rest]) (simp add: rs)
      qed
    qed
  qed
qed

lemma exec_all_append:
  "exec_all (xs @ ys) st =
     (fst (exec_all ys (fst (exec_all xs st))),
      snd (exec_all xs st) @ snd (exec_all ys (fst (exec_all xs st))))"
  by (induction xs arbitrary: st) (simp_all add: case_prod_beta)

text \<open>The whole connection. Nothing in the conclusion depends on how the stream was segmented.\<close>

lemma read_more_conv:
  "conv a n s k rs \<Longrightarrow>
   \<exists>s' k'. read_more mem_handlers s k = Inr (s', k', Returned) \<and> sim a n s' \<and>
     abs_srv s' = fst (exec_all rs (abs_srv s)) \<and> concat (tx k') = concat (tx k) @ snd (exec_all rs (abs_srv s))"
proof (induction "mem_handlers" s k arbitrary: rs rule: read_more.induct)
  case (1 s k)
  from turn_conv [OF "1.prems"] obtain ran rest where rs: "rs = ran @ rest" and
    d: "(\<exists>s' k'. turn mem_handlers s k = Inr (Read_more s' k') \<and> conv a n s' k' rest \<and>
        abs_srv s' = fst (exec_all ran (abs_srv s)) \<and> concat (tx k') = concat (tx k) @ snd (exec_all ran (abs_srv s))) \<or>
     (\<exists>s' k'. turn mem_handlers s k = Inr (Finished s' k' Returned) \<and> rest = [] \<and> sim a n s' \<and>
        abs_srv s' = fst (exec_all ran (abs_srv s)) \<and> concat (tx k') = concat (tx k) @ snd (exec_all ran (abs_srv s)))"
    by blast
  from d show ?case
  proof (elim disjE exE conjE)
    fix s' k' assume t: "turn mem_handlers s k = Inr (Read_more s' k')" and c: "conv a n s' k' rest"
      and e: "abs_srv s' = fst (exec_all ran (abs_srv s))"
        "concat (tx k') = concat (tx k) @ snd (exec_all ran (abs_srv s))"
    have "read_more mem_handlers s k = read_more mem_handlers s' k'"
      by (simp add: read_more.simps [of mem_handlers s k] t)
    with "1.hyps" [OF t refl c] e show ?case by (auto simp: rs exec_all_append)
  next
    fix s' k' assume t: "turn mem_handlers s k = Inr (Finished s' k' Returned)" and r: "rest = []" "sim a n s'"
      and e: "abs_srv s' = fst (exec_all ran (abs_srv s))"
        "concat (tx k') = concat (tx k) @ snd (exec_all ran (abs_srv s))"
    have "read_more mem_handlers s k = Inr (s', k', Returned)"
      by (simp add: read_more.simps [of mem_handlers s k] t)
    with r e show ?case by (simp add: rs)
  qed
qed

text \<open>A short conversation has room everywhere.\<close>

lemma windows_short:
  assumes "length (encodes rs) < max_packet_len" "sum_list (map reply_size rs) \<le> max_packet_len"
  shows "windows rs"
  using assms by (auto simp: windows_def room_def)

definition accepted :: "64 word \<Rightarrow> 64 word \<Rightarrow> xvc_mem connection \<Rightarrow> xvc_mem \<Rightarrow> bool" where
  "accepted a n k d \<longleftrightarrow>
     hub_idle a n d \<and> unat a + unat n < 2 ^ 64 \<and> peer_ok k \<and> devmem_ok d \<and> mmap_ok d \<and>
     length (c_block k) = max_packet_len \<and> c_addr k + 2 * max_packet_len < 2 ^ 64"

definition conf0 :: conf where
  "conf0 = \<lparr>enable_locking = 0, enable_status = 0, pending_error = []\<rparr>"

text \<open>
  The reply buffer between connections: not allocated yet, or larger than a packet. It outlives the connections.
\<close>

definition spare :: "reply \<Rightarrow> bool" where
  "spare r \<longleftrightarrow> reply_wf r \<and> reply_len r \<le> max_packet_len \<and> (reply_max r = 0 \<or> max_packet_len < reply_max r)"

lemma spare_reply0: "spare reply0"
  by (simp add: spare_def reply_wf_def reply0_def)

lemma spare_buffer:
  assumes "spare r"
  shows "\<exists>r'. reply_buf_size heap (word_of_nat max_packet_len) r = Inr r' \<and> reply_ready r' \<and>
    max_packet_len < reply_max r' \<and> reply_len r' \<le> max_packet_len"
proof -
  have w: "word_of_nat max_packet_len = (10000 :: 32 word)" by (simp add: max_packet_len_def)
  have "reply_wf r" using assms by (simp add: spare_def)
  from reply_buf_size_ready [OF this, of heap] obtain r' where
    r: "reply_buf_size heap 10000 r = Inr r'" "reply_ready r'" "reply_len r' = reply_len r" by blast
  have "max_packet_len < reply_max r'"
  proof (cases "reply_max r = 0")
    case True
    then show ?thesis
      using r(1) by (auto simp: reply_buf_size_def double_until_10000 max_packet_len_def)
  next
    case False
    then have m: "10000 < reply_max r" "reply_max r < 2 ^ 32" using assms by (simp_all add: spare_def reply_wf_def max_packet_len_def)
    then have "\<not> (word_of_nat (reply_max r) :: 32 word) < 10000" by (simp add: word_less_nat_alt unat_word_of_nat_32)
    then show ?thesis using r(1) m by (simp add: reply_buf_size_def max_packet_len_def)
  qed
  with r assms show ?thesis unfolding w by (simp add: spare_def)
qed

text \<open>\<open>serve\<close> on any connection is \<open>exec_all\<close> on a fresh abstract server.\<close>

lemma serve_any:
  assumes "accepted a n k d" "concat (rx (c_sock k)) = encodes rs" "[] \<notin> set (rx (c_sock k))"
    and "\<not> rx_error (c_sock k)" "length rs \<le> sends_ok (c_sock k)" "tx (c_sock k) = []"
    and "\<forall>r \<in> set rs. fits r" "windows rs" "spare r"
  shows "\<exists>k' x r'. serve mem_handlers heap k d r fds = Inr (Served k' Returned, close_port x, r', fds) \<and>
    concat (tx k') = snd (exec_all rs (conf0, d\<lparr>hub_mapped := True\<rparr>)) \<and>
    x = snd (fst (exec_all rs (conf0, d\<lparr>hub_mapped := True\<rparr>))) \<and> hub_ok a n x \<and> spare r'"
proof -
  let ?d = "d\<lparr>hub_mapped := True\<rparr>"
  obtain r1 where r: "reply_buf_size heap (word_of_nat max_packet_len) r = Inr r1" "reply_ready r1"
    "max_packet_len < reply_max r1" "reply_len r1 \<le> max_packet_len"
    using spare_buffer [OF assms(9)] by blast
  let ?s = "\<lparr>cl = client0 (c_addr k) (c_block k), rp = r1, dev = ?d\<rparr>"
  have "sim a n ?s"
    using assms(1) r by (simp add: sim_def srv_ok_def client_ok_def client0_def accepted_def hub_idle_def
        hub_ok_def error_ok_def reply_ready_def max_packet_len_def)
  then have c: "conv a n ?s (c_sock k) rs"
    using assms(2-5,7,8) by (simp add: conv_def client0_def)
  have abs: "abs_srv ?s = (conf0, ?d)" by (simp add: abs_srv_def client0_def conf0_def conf.defs)
  from read_more_conv [OF c] obtain s' k' where rd: "read_more mem_handlers ?s (c_sock k) = Inr (s', k', Returned)"
    and e: "abs_srv s' = fst (exec_all rs (conf0, ?d))" "concat (tx k') = snd (exec_all rs (conf0, ?d))" and s': "sim a n s'"
    by (auto simp: abs assms(6))
  have "serve mem_handlers heap k d r fds =
      Inr (Served k' Returned, close_port (dev s'), rp s', fds)"
    using assms(1) r(1) rd
    by (simp add: serve_def Let_def mem_handlers_def open_port_def accepted_def report_def read_packet_def)
  moreover have "dev s' = snd (fst (exec_all rs (conf0, ?d)))" by (simp add: e(1) [symmetric] abs_srv_def)
  moreover have "hub_ok a n (dev s')" "spare (rp s')"
    using s' by (simp_all add: sim_def srv_ok_def spare_def reply_ready_def)
  ultimately show ?thesis using e(2) by blast
qed

lemma serve_conversation:
  assumes "accepted a n k d" "concat (rx (c_sock k)) = encodes rs" "[] \<notin> set (rx (c_sock k))"
    and "\<not> rx_error (c_sock k)" "length rs \<le> sends_ok (c_sock k)" "tx (c_sock k) = []"
    and "\<forall>r \<in> set rs. fits r" "windows rs"
  shows "\<exists>k' d' r'. serve mem_handlers heap k d reply0 fds = Inr (Served k' Returned, d', r', fds) \<and>
    concat (tx k') = snd (exec_all rs (conf0, d\<lparr>hub_mapped := True\<rparr>)) \<and>
    hub_mem d' = hub_mem (snd (fst (exec_all rs (conf0, d\<lparr>hub_mapped := True\<rparr>))))"
proof -
  from serve_any [OF assms spare_reply0, of heap fds] obtain k' x r' where
    "serve mem_handlers heap k d reply0 fds = Inr (Served k' Returned, close_port x, r', fds)"
    "concat (tx k') = snd (exec_all rs (conf0, d\<lparr>hub_mapped := True\<rparr>))"
    "x = snd (fst (exec_all rs (conf0, d\<lparr>hub_mapped := True\<rparr>)))" by blast
  then show ?thesis by (intro exI [of _ k'] exI [of _ "close_port x"] exI [of _ r']) (simp add: close_port_def)
qed

section \<open>Properties\<close>

definition demo_hub :: xvc_mem where
  "demo_hub = \<lparr>hub_addr = 0xA4000000, hub_size = 8, hub_mem = [0, 0, 0, 0, 0, 0, 0, 0], hub_mapped = False,
     devmem_ok = True, mmap_ok = True\<rparr>"

definition demo_requests :: "request list" where
  "demo_requests = [Mwr 0 0xA4000004 [1, 2, 3, 4], Mrd 0 0xA4000000 8]"

definition demo_connection :: "xvc_mem connection" where
  "demo_connection = \<lparr>peer_ok = True, c_block = replicate 10000 0, c_addr = 0x10000,
     c_sock = \<lparr>rx = [take 7 (encodes demo_requests), drop 7 (encodes demo_requests)],
       rx_error = False, tx = [], sends_ok = 2\<rparr>\<rparr>"

lemma demo_encodes: "encodes demo_requests =
   bytes_of ''mwr:'' @ [0, 0x84, 0x80, 0x80, 0xA0, 0x0A, 4, 1, 2, 3, 4] @
   bytes_of ''mrd:'' @ [0, 0x80, 0x80, 0x80, 0xA0, 0x0A, 8]"
  by (simp add: demo_requests_def encode_def uleb_bytes.simps)

lemma demo_exec: "exec_all demo_requests (conf0, demo_hub\<lparr>hub_mapped := True\<rparr>) =
   ((conf0, demo_hub\<lparr>hub_mapped := True, hub_mem := [0, 0, 0, 0, 1, 2, 3, 4]\<rparr>),
    [0] @ [0, 0, 0, 0, 1, 2, 3, 4, 0])"
  by (simp add: demo_requests_def conf0_def demo_hub_def in_hub_def hub_read_def hub_write_def status_byte_def)

text \<open>C1. A whole connection refines the abstract server. When a client sends a list of requests in
  any segmentation and then closes, \<open>serve\<close> (open the port, \<open>read_packet\<close>, close the port)
  terminates normally, the bytes it sent are exactly the replies of \<open>exec_all\<close> from the initial
  configuration, and the hub holds what \<open>exec_all\<close> says.\<close>

theorem connection_refines_exec:
  assumes "accepted a n k d" "concat (rx (c_sock k)) = encodes rs" "[] \<notin> set (rx (c_sock k))"
    and "\<not> rx_error (c_sock k)" "length rs \<le> sends_ok (c_sock k)" "tx (c_sock k) = []"
    and "\<forall>r \<in> set rs. fits r" "windows rs"
  shows "\<exists>k' d' r'. serve mem_handlers heap k d reply0 fds = Inr (Served k' Returned, d', r', fds) \<and>
    concat (tx k') = snd (exec_all rs (conf0, d\<lparr>hub_mapped := True\<rparr>)) \<and>
    hub_mem d' = hub_mem (snd (fst (exec_all rs (conf0, d\<lparr>hub_mapped := True\<rparr>))))"
  by (rule serve_conversation [OF assms])

theorem connection_refines_exec_witness: "\<exists>k' d' r'. serve mem_handlers (\<lambda>_. 0) demo_connection demo_hub reply0 0 = Inr (Served k' Returned, d', r', 0) \<and>
    concat (tx k') = [0, 0, 0, 0, 0, 1, 2, 3, 4, 0] \<and> hub_mem d' = [0, 0, 0, 0, 1, 2, 3, 4]"
proof -
  have "accepted 0xA4000000 8 demo_connection demo_hub"
    by (simp add: accepted_def demo_connection_def demo_hub_def hub_idle_def max_packet_len_def)
  moreover have "\<forall>r \<in> set demo_requests. fits r"
    by (simp add: demo_requests_def fits_def encode_def uleb_bytes.simps is_configure_def max_packet_len_def)
       presburger
  moreover have "windows demo_requests"
    by (rule windows_short) (simp_all add: demo_encodes max_packet_len_def, simp add: demo_requests_def)
  ultimately show ?thesis
    using connection_refines_exec [of "0xA4000000" 8 demo_connection demo_hub demo_requests "\<lambda>_. 0" 0]
    by (simp add: demo_connection_def demo_encodes demo_exec) (simp add: demo_requests_def)
qed

text \<open>C9. A request that has not arrived completely changes nothing: the command is left unconsumed
  with \<open>fill\<close> set, and the server is in the state it was in, whichever byte the cut is at.\<close>

theorem incomplete_request_waits:
  assumes "sim a n s" "begins (rx_buf (cl s)) cbuf (buf_len (cl s)) (encode r)"
    and "length (encode r) \<le> max_packet_len" "can_run r (length (encode r)) 0"
  shows "command_loop mem_handlers s cbuf = Inr (Broke s cbuf True)"
  by (rule command_loop_Broke [OF one_command_incomplete [OF assms]])

theorem incomplete_request_waits_witness:
  "command_loop mem_handlers (hub_srv (take 6 (encode (Mrd 0 68 4)))) 0 =
     Inr (Broke (hub_srv (take 6 (encode (Mrd 0 68 4)))) 0 True)"
proof -
  have e: "encode (Mrd 0 68 4) = bytes_of ''mrd:'' @ [0, 68, 4]" by (simp add: encode_def uleb_bytes.simps)
  have s: "sim 64 8 (hub_srv (take 6 (encode (Mrd 0 68 4))))" by (rule hub_srv_sim) simp
  show ?thesis
    by (rule incomplete_request_waits [OF s, of 0 "Mrd 0 68 4"])
       (simp_all add: begins_def e hub_srv_def bytes_of_def max_packet_len_def)
qed

end
