(* ===== verification/Mem_Serve.thy ===== *)
theory Mem_Serve
  imports Mem_Stream
begin

text \<open>
  The memory server as a whole, from \<open>main\<close> of \<open>mem/versal/src/xvc_mem.c\<close> down to the hub: clients are
  accepted one after the other, each on a fresh connection and all of them on the same hub. The
  abstract program \<open>serve_all\<close> runs the requests of one client after those of the client before;
  \<open>mem_main\<close> refines it.
\<close>

section \<open>The abstract program\<close>

text \<open>A client starts with the initial configuration, and finds the hub as the one before has left it.\<close>

primrec serve_all :: "request list list \<Rightarrow> xvc_mem \<Rightarrow> byte list list \<times> xvc_mem" where
  "serve_all [] x = ([], x)"
| "serve_all (rs # rss) x =
     (case exec_all rs (conf0, x) of ((c, x1), out) \<Rightarrow>
      case serve_all rss x1 of (outs, x2) \<Rightarrow> (out # outs, x2))"

text \<open>A client that connects, sends the requests \<open>rs\<close> in some segments, reads the replies and closes.\<close>

definition talks :: "xvc_mem connection \<Rightarrow> request list \<Rightarrow> bool" where
  "talks k rs \<longleftrightarrow>
     peer_ok k \<and> length (c_block k) = max_packet_len \<and> c_addr k + 2 * max_packet_len < 2 ^ 64 \<and>
     concat (rx (c_sock k)) = encodes rs \<and> [] \<notin> set (rx (c_sock k)) \<and> \<not> rx_error (c_sock k) \<and>
     length rs \<le> sends_ok (c_sock k) \<and> tx (c_sock k) = [] \<and> (\<forall>r \<in> set rs. fits r) \<and> windows rs"

section \<open>What a request leaves as it is\<close>

lemma exec_devices:
  "devmem_ok (snd (fst (exec r st))) = devmem_ok (snd st)" "mmap_ok (snd (fst (exec r st))) = mmap_ok (snd st)"
  by (cases r; simp add: Let_def hub_write_def)+

lemma exec_all_devices:
  "devmem_ok (snd (fst (exec_all rs st))) = devmem_ok (snd st) \<and> mmap_ok (snd (fst (exec_all rs st))) = mmap_ok (snd st)"
  by (induction rs arbitrary: st) (simp_all add: case_prod_beta exec_devices)

text \<open>Between two connections the port is closed, and what it shows when it opens again is the same.\<close>

lemma reopen:
  assumes "hub_ok a n x"
  shows "hub_idle a n (close_port x)" "(close_port x)\<lparr>hub_mapped := True\<rparr> = x"
  using assms by (simp_all add: hub_ok_def hub_idle_def close_port_def)

lemma talks_accepted:
  assumes "talks k rs" "hub_idle a n d" "unat a + unat n < 2 ^ 64" "devmem_ok d" "mmap_ok d"
  shows "accepted a n k d"
  using assms by (simp add: talks_def accepted_def)

section \<open>The accept loop\<close>

lemma accept_loop_serves:
  assumes "list_all2 talks ks rss" "hub_idle a n d" "unat a + unat n < 2 ^ 64" "devmem_ok d" "mmap_ok d" "spare r"
  shows "\<exists>socks d' r'. accept_loop mem_handlers heap ks d r fds = Inr (map (\<lambda>k. Served k Returned) socks, d', r', fds) \<and>
    map (\<lambda>k. concat (tx k)) socks = fst (serve_all rss (d\<lparr>hub_mapped := True\<rparr>)) \<and>
    hub_mem d' = hub_mem (snd (serve_all rss (d\<lparr>hub_mapped := True\<rparr>)))"
  using assms
proof (induction ks rss arbitrary: d r rule: list_all2_induct)
  case Nil
  then show ?case by (intro exI [of _ "[]"]) simp
next
  case (Cons k ks rs rss)
  let ?x = "d\<lparr>hub_mapped := True\<rparr>"
  have t: "talks k rs" using Cons.hyps by simp
  have "accepted a n k d" using talks_accepted [OF t] Cons.prems by blast
  from serve_any [OF this _ _ _ _ _ _ _ Cons.prems(5), of rs heap fds] t obtain k' x r' where
    s: "serve mem_handlers heap k d r fds = Inr (Served k' Returned, close_port x, r', fds)"
    and out: "concat (tx k') = snd (exec_all rs (conf0, ?x))"
    and x: "x = snd (fst (exec_all rs (conf0, ?x)))" "hub_ok a n x" and r': "spare r'"
    by (auto simp: talks_def)
  note o = reopen [OF x(2)]
  have dev: "devmem_ok (close_port x)" "mmap_ok (close_port x)"
    using exec_all_devices [of rs "(conf0, ?x)"] Cons.prems(3,4) x(1) by (simp_all add: close_port_def)
  from Cons.IH [OF o(1) Cons.prems(2) dev r'] obtain socks d' r2 where
    a: "accept_loop mem_handlers heap ks (close_port x) r' fds = Inr (map (\<lambda>k. Served k Returned) socks, d', r2, fds)"
    and e: "map (\<lambda>k. concat (tx k)) socks = fst (serve_all rss x)" "hub_mem d' = hub_mem (snd (serve_all rss x))"
    unfolding o(2) by blast
  obtain c out1 where ex: "exec_all rs (conf0, ?x) = ((c, x), out1)" using x(1) by (metis prod.collapse)
  show ?case
    using s a e out ex by (intro exI [of _ "k' # socks"] exI [of _ d'] exI [of _ r2]) (simp add: case_prod_beta)
qed

section \<open>Property\<close>

definition hub_at :: "(64 word \<Rightarrow> byte list) \<Rightarrow> 64 word \<Rightarrow> xvc_mem" where \<comment> \<open>mapped\<close>
  "hub_at dram a = \<lparr>hub_addr = a, hub_size = default_hub_size, hub_mem = dram a, hub_mapped = True,
     devmem_ok = True, mmap_ok = True\<rparr>"

text \<open>C2. The whole memory server: started with options and a url it accepts, on a socket that can be opened
  and a hub that can be mapped, \<open>main\<close> serves all its clients in turn, leaves no descriptor open and
  returns 0; each client has been sent exactly the replies of the abstract program, which runs
  the clients one after the other on the same hub, each from the initial configuration.\<close>

theorem mem_main_serves:
  assumes "parse_args argv options0 = Inr o1" "parse_url (o_url o1) = Inr (Inr (host, port))"
    and "fst (open_server w fds)" "host = [] \<longrightarrow> hostname_ok w"
    and "length (dram (o_addr o1)) = 0x200000" "unat (o_addr o1) + 0x200000 < 2 ^ 64"
    and "list_all2 talks conns rss"
  shows "\<exists>socks. mem_main dram True True heap w conns argv fds = Inr (0, map (\<lambda>k. Served k Returned) socks, fds) \<and>
    map (\<lambda>k. concat (tx k)) socks = fst (serve_all rss (hub_at dram (o_addr o1)))"
proof -
  let ?d = "(hub_at dram (o_addr o1))\<lparr>hub_mapped := False\<rparr>"
  have os: "open_server w fds = (True, fds + 1)"
    using assms(3) open_server_fds [of w fds] by (cases "open_server w fds") auto
  have "hub_idle (o_addr o1) default_hub_size ?d" "devmem_ok ?d" "mmap_ok ?d"
    using assms(5) by (simp_all add: hub_idle_def hub_at_def default_hub_size_def)
  moreover have "unat (o_addr o1) + unat default_hub_size < 2 ^ 64" using assms(6) by (simp add: default_hub_size_def)
  ultimately obtain socks d' r' where
    "accept_loop mem_handlers heap conns ?d reply0 (fds + 1) = Inr (map (\<lambda>k. Served k Returned) socks, d', r', fds + 1)"
    "map (\<lambda>k. concat (tx k)) socks = fst (serve_all rss (?d\<lparr>hub_mapped := True\<rparr>))"
    using accept_loop_serves [OF assms(7) _ _ _ _ spare_reply0, of "o_addr o1" default_hub_size ?d heap "fds + 1"] by blast
  then show ?thesis
    using assms(1,2,4) os by (intro exI [of _ socks]) (auto simp: mem_main_def xvcserver_start_def hub_at_def)
qed

text \<open>Two clients: the second reads what the first has written.\<close>

definition writer :: "xvc_mem connection" where
  "writer = \<lparr>peer_ok = True, c_block = replicate 10000 0, c_addr = 0x10000,
     c_sock = \<lparr>rx = [encodes [Mwr 0 0xA4000004 [1, 2, 3, 4]]], rx_error = False, tx = [], sends_ok = 1\<rparr>\<rparr>"

definition reader :: "xvc_mem connection" where
  "reader = \<lparr>peer_ok = True, c_block = replicate 10000 0, c_addr = 0x10000,
     c_sock = \<lparr>rx = [encodes [Mrd 0 0xA4000000 8]], rx_error = False, tx = [], sends_ok = 1\<rparr>\<rparr>"

lemma two_talk: "list_all2 talks [writer, reader] [[Mwr 0 0xA4000004 [1, 2, 3, 4]], [Mrd 0 0xA4000000 8]]"
proof -
  have e: "encodes [Mwr 0 0xA4000004 [1, 2, 3, 4]] = bytes_of ''mwr:'' @ [0, 0x84, 0x80, 0x80, 0xA0, 0x0A, 4, 1, 2, 3, 4]"
    "encodes [Mrd 0 0xA4000000 8] = bytes_of ''mrd:'' @ [0, 0x80, 0x80, 0x80, 0xA0, 0x0A, 8]"
    by (simp_all add: encode_def uleb_bytes.simps)
  have w: "windows [Mwr 0 0xA4000004 [1, 2, 3, 4]]" "windows [Mrd 0 0xA4000000 8]"
    by (rule windows_short, simp_all only: e, simp_all add: max_packet_len_def)+
  moreover have "fits (Mwr 0 0xA4000004 [1, 2, 3, 4])" "fits (Mrd 0 0xA4000000 8)"
    by (simp_all add: fits_def encode_def uleb_bytes.simps is_configure_def max_packet_len_def) presburger+
  moreover have "[] \<noteq> encode r" for r using encode_nonempty [of r] by metis
  ultimately show ?thesis using w by (simp add: talks_def writer_def reader_def max_packet_len_def)
qed

lemma default_url: "parse_url (o_url options0) = Inr (Inr ([], bytes_of ''2542''))"
  using parse_url_tcp [of "bytes_of ''tcp''" "[]" "bytes_of ''2542''"]
  by (simp add: options0_def tcp_name_def bytes_of_def)

lemma two_replies:
  "fst (serve_all [[Mwr 0 0xA4000004 [1, 2, 3, 4]], [Mrd 0 0xA4000000 8]] (hub_at (\<lambda>_. replicate 0x200000 0) 0xA4000000)) =
     [[0], [0, 0, 0, 0, 1, 2, 3, 4, 0]]"
proof -
  have replicate_four: "replicate 4 (0 :: byte) = [0, 0, 0, 0]" by (simp add: eval_nat_numeral)
  show ?thesis
    by (simp add: hub_at_def conf0_def in_hub_def hub_read_def hub_write_def default_hub_size_def status_byte_def
        replicate_four)
qed

theorem mem_main_serves_witness:
  "\<exists>socks. mem_main (\<lambda>_. replicate 0x200000 0) True True (\<lambda>_. 0) good_net [writer, reader] [] 0 =
      Inr (0, map (\<lambda>k. Served k Returned) socks, 0) \<and>
    map (\<lambda>k. concat (tx k)) socks = [[0], [0, 0, 0, 0, 1, 2, 3, 4, 0]]"
proof -
  have "parse_args [] options0 = Inr options0" by simp
  from mem_main_serves [OF this default_url _ _ _ _ two_talk, of good_net 0 "\<lambda>_. replicate 0x200000 0" "\<lambda>_. 0"]
  show ?thesis
    by (simp add: open_server_def good_net_def options0_def default_hub_addr_def two_replies
        del: serve_all.simps exec_all.simps)
qed

end
