(* ===== verification/Jtag_Bridge.thy ===== *)
theory Jtag_Bridge
  imports Leb_Codec
begin

unbundle bit_operations_syntax

text \<open>
  The debug bridge the JTAG servers drive (\<open>jtag/zynqMP/src/driver/xvc_driver.c\<close> and the two
  \<open>xvcServer.c\<close>). The bridge is hardware: its register accesses are a parameter \<open>io\<close> of the
  definitions, and the locale \<open>debug_bridge\<close> states what its documentation promises and the code
  relies on. A reference bridge interprets the locale for every JTAG chain and latency.
\<close>

section \<open>Bits\<close>

definition bit_at :: "byte list \<Rightarrow> nat \<Rightarrow> bool" where
  "bit_at bs i \<longleftrightarrow> bit (bs ! (i div 8)) (i mod 8)"

text \<open>\<open>memcpy\<close> of at most four bytes into a zeroed \<open>u32\<close> on a little-endian machine.\<close>

fun word_of_bytes :: "byte list \<Rightarrow> 32 word" where
  "word_of_bytes [] = 0"
| "word_of_bytes (b # bs) = ucast b OR push_bit 8 (word_of_bytes bs)"

lemma bit_word_of_bytes:
  "bit (word_of_bytes bs) i \<longleftrightarrow> i < 32 \<and> i div 8 < length bs \<and> bit_at bs i"
proof (induction bs arbitrary: i)
  case (Cons b bs)
  show ?case
  proof (cases "i < 8")
    case True
    then show ?thesis by (simp add: bit_simps bit_at_def)
  next
    case False
    then obtain j where j: "i = j + 8" by (metis add.commute le_add_diff_inverse not_less)
    have b: "\<not> bit b i" using False bit_imp_le_length [of b i] by auto
    have "bit (word_of_bytes (b # bs)) i \<longleftrightarrow> i < 32 \<and> bit (word_of_bytes bs) j"
      using b j by (auto simp: bit_simps)
    moreover have "(j + 8) div 8 = Suc (j div 8)" by simp
    ultimately show ?thesis using Cons.IH [of j] by (auto simp del: word_of_bytes.simps simp: j bit_at_def)
  qed
qed (simp add: bit_at_def)

lemma bit_at_chunk:
  assumes "c mod 8 = 0" "i < 8 * n" "c div 8 + n \<le> length bs"
  shows "bit_at (take n (drop (c div 8) bs)) i = bit_at bs (c + i)"
proof -
  obtain k where c: "c = 8 * k" using assms(1) by auto
  have "(c + i) div 8 = c div 8 + i div 8" "(c + i) mod 8 = i mod 8" by (simp_all add: c)
  moreover have "i div 8 < n" using assms(2) by (simp add: less_mult_imp_div_less mult.commute)
  ultimately show ?thesis using assms(3) by (simp add: bit_at_def)
qed

lemma bit_at_le_bytes: "i < 8 * n \<Longrightarrow> bit_at (le_bytes n w) i = bit w i"
proof -
  assume i: "i < 8 * n"
  then have "i div 8 < n" by (simp add: less_mult_imp_div_less mult.commute)
  moreover have "8 * (i div 8) + i mod 8 = i" by simp
  ultimately show "bit_at (le_bytes n w) i = bit w i"
    by (simp add: bit_at_def le_bytes_def bit_simps)
qed

lemma bit_at_outside:
  assumes "write_at xs p ys = Inr zs" "i div 8 < p \<or> p + length ys \<le> i div 8" "i div 8 < length xs"
  shows "bit_at zs i = bit_at xs i"
  using write_at_nth [OF assms(1,3)] assms(2) by (auto simp: bit_at_def)

lemma bit_at_inside:
  assumes "write_at xs (c div 8) (le_bytes m w) = Inr zs" "c mod 8 = 0" "j < 8 * m" "c div 8 + m \<le> length xs"
  shows "bit_at zs (c + j) = bit w j"
proof -
  have "take m (drop (c div 8) zs) = le_bytes m w"
    using read_write_same [OF assms(1)] by (simp add: read_range_def split: if_split_asm)
  moreover have "length zs = length xs" using assms(1) by (rule length_write_at)
  ultimately show ?thesis
    using bit_at_chunk [OF assms(2,3), of zs] bit_at_le_bytes [OF assms(3), of w] assms(4) by simp
qed

text \<open>\<open>out'\<close> is \<open>out\<close> with \<open>bits\<close> from bit \<open>c\<close> up to bit \<open>e\<close>; what follows is not specified.\<close>

definition filled :: "byte list \<Rightarrow> byte list \<Rightarrow> nat \<Rightarrow> nat \<Rightarrow> bool list \<Rightarrow> bool" where
  "filled out out' c e bits \<longleftrightarrow>
     length out' = length out \<and> (\<forall>i < c. i < 8 * length out \<longrightarrow> bit_at out' i = bit_at out i) \<and>
     (\<forall>i. c \<le> i \<longrightarrow> i < e \<longrightarrow> bit_at out' i = bits ! (i - c))"

lemma filled_done: "e \<le> c \<Longrightarrow> filled out out c e bits"
  by (simp add: filled_def)

text \<open>One piece of \<open>k\<close> bits is stored and the rest is filled after it.\<close>

lemma filled_piece:
  assumes wr: "write_at out (c div 8) (le_bytes m w) = Inr out1" and c8: "c mod 8 = 0"
    and k: "k \<le> 8 * m" "c div 8 + m \<le> length out" "length bits1 = k" "\<forall>i < k. bit w i = bits1 ! i"
    and f: "filled out1 out' (c + k) e bits2"
  shows "filled out out' c e (bits1 @ bits2)"
proof -
  have l1: "length out1 = length out" using wr by (rule length_write_at)
  have keep: "bit_at out' i = bit_at out i" if i: "i < c" "i < 8 * length out" for i
  proof -
    have "i div 8 < c div 8" using i(1) c8 by (auto simp: less_mult_imp_div_less elim!: dvdE simp flip: dvd_eq_mod_eq_0)
    moreover have "i div 8 < length out" using i(2) by (simp add: less_mult_imp_div_less mult.commute)
    ultimately have "bit_at out1 i = bit_at out i" using bit_at_outside [OF wr] by auto
    with f i l1 show ?thesis by (simp add: filled_def)
  qed
  have fresh: "bit_at out' i = (bits1 @ bits2) ! (i - c)" if i: "c \<le> i" "i < e" for i
  proof (cases "i < c + k")
    case True
    define j where "j = i - c"
    have j: "i = c + j" "j < k" "j < 8 * m" using i True k(1) by (auto simp: j_def)
    have "j div 8 < m" using j(3) by (simp add: less_mult_imp_div_less mult.commute)
    moreover have "i div 8 = c div 8 + j div 8"
    proof -
      obtain d where "c = 8 * d" using c8 by auto
      then show ?thesis by (simp add: j(1))
    qed
    ultimately have "i div 8 < length out" using k(2) by simp
    then have "i < 8 * length out" by linarith
    with f True l1 have "bit_at out' i = bit_at out1 i" by (simp add: filled_def)
    also have "\<dots> = bit w j" unfolding j(1) using k(2) j by (intro bit_at_inside [OF wr c8]) auto
    finally show ?thesis using k(3,4) j by (simp add: nth_append j_def [symmetric])
  next
    case False
    then have "\<not> i - c < k" "i - c - k = i - (c + k)" by linarith+
    then show ?thesis using f i False k(3) by (simp add: nth_append filled_def)
  qed
  show ?thesis using keep fresh f l1 by (simp add: filled_def)
qed

section \<open>The JTAG chain, one clock at a time\<close>

text \<open>\<open>tap\<close> is one TCK: TMS and TDI in, TDO out. This is the specification of a shift.\<close>

type_synonym 't tap = "'t \<Rightarrow> bool \<Rightarrow> bool \<Rightarrow> bool \<times> 't"

primrec clock_bits :: "'t tap \<Rightarrow> 't \<Rightarrow> (bool \<times> bool) list \<Rightarrow> bool list \<times> 't" where
  "clock_bits tap t [] = ([], t)"
| "clock_bits tap t (p # ps) =
     (case tap t (fst p) (snd p) of (tdo, t1) \<Rightarrow>
      case clock_bits tap t1 ps of (tdos, t2) \<Rightarrow> (tdo # tdos, t2))"

lemma length_clock_bits [simp]: "length (fst (clock_bits tap t ps)) = length ps"
  by (induction ps arbitrary: t) (simp_all add: case_prod_beta)

lemma clock_bits_append:
  "clock_bits tap t (ps @ qs) =
     (fst (clock_bits tap t ps) @ fst (clock_bits tap (snd (clock_bits tap t ps)) qs),
      snd (clock_bits tap (snd (clock_bits tap t ps)) qs))"
  by (induction ps arbitrary: t) (simp_all add: case_prod_beta)

text \<open>The pins for the bits \<open>[a, b)\<close> of two buffers, and for the low bits of two registers.\<close>

definition pins :: "byte list \<Rightarrow> byte list \<Rightarrow> nat \<Rightarrow> nat \<Rightarrow> (bool \<times> bool) list" where
  "pins tms tdi a b = map (\<lambda>i. (bit_at tms i, bit_at tdi i)) [a..<b]"

definition reg_pins :: "32 word \<Rightarrow> 32 word \<Rightarrow> nat \<Rightarrow> (bool \<times> bool) list" where
  "reg_pins tms tdi n = map (\<lambda>i. (bit tms i, bit tdi i)) [0..<n]"

lemma length_pins [simp]: "length (pins tms tdi a b) = b - a" "length (reg_pins x y n) = n"
  by (simp_all add: pins_def reg_pins_def)

lemma pins_split: "a \<le> b \<Longrightarrow> b \<le> c \<Longrightarrow> pins tms tdi a c = pins tms tdi a b @ pins tms tdi b c"
  using upt_add_eq_append [of a b "c - b"] by (simp add: pins_def)

lemma reg_pins_chunk:
  assumes "c mod 8 = 0" "n \<le> 8 * m" "n \<le> 32" "c div 8 + m \<le> length tms" "c div 8 + m \<le> length tdi"
  shows "reg_pins (word_of_bytes (take m (drop (c div 8) tms))) (word_of_bytes (take m (drop (c div 8) tdi))) n =
    pins tms tdi c (c + n)"
proof -
  have "bit (word_of_bytes (take m (drop (c div 8) bs))) i = bit_at bs (c + i)"
    if "i < n" "c div 8 + m \<le> length bs" for bs i
  proof -
    have "i < m * 8" using that(1) assms(2) by linarith
    then have "i div 8 < m" by (rule less_mult_imp_div_less)
    then have "i div 8 < length (take m (drop (c div 8) bs))" using that(2) by simp
    then show ?thesis
      using that assms(1-3) bit_at_chunk [of c i m bs] by (simp add: bit_word_of_bytes)
  qed
  then show ?thesis
    using assms(4,5) by (intro nth_equalityI) (simp_all add: reg_pins_def pins_def)
qed

section \<open>The bridge\<close>

record 'b io =
  io_read :: "'b \<Rightarrow> nat \<Rightarrow> 32 word \<times> 'b"     \<comment> \<open>\<open>ioread32(db_ptr + off)\<close>\<close>
  io_write :: "'b \<Rightarrow> nat \<Rightarrow> 32 word \<Rightarrow> 'b"    \<comment> \<open>\<open>iowrite32(v, db_ptr + off)\<close>\<close>

definition length_reg :: nat where "length_reg = 0"
definition tms_reg :: nat where "tms_reg = 4"
definition tdi_reg :: nat where "tdi_reg = 8"
definition tdo_reg :: nat where "tdo_reg = 12"
definition control_reg :: nat where "control_reg = 16"

lemmas reg_defs = length_reg_def tms_reg_def tdi_reg_def tdo_reg_def control_reg_def

text \<open>
  What the registers hold; \<open>v_busy\<close> is how many more reads of the control register will show the
  shift as running.
\<close>

record 't view =
  v_len :: "32 word"
  v_tms :: "32 word"
  v_tdi :: "32 word"
  v_tdo :: "32 word"
  v_ctrl :: "32 word"
  v_busy :: nat
  v_chain :: 't

definition shifted :: "(bool \<Rightarrow> 't tap) \<Rightarrow> 't view \<Rightarrow> bool \<Rightarrow> bool list \<times> 't" where
  "shifted tap v bypass = clock_bits (tap bypass) (v_chain v) (reg_pins (v_tms v) (v_tdi v) (unat (v_len v)))"

locale debug_bridge =
  fixes io :: "'b io" and view :: "'b \<Rightarrow> 't view" and tap :: "bool \<Rightarrow> 't tap"
  assumes write_length: "v_busy (view b) = 0 \<Longrightarrow> view (io_write io b length_reg v) = (view b)\<lparr>v_len := v\<rparr>"
    and write_tms: "v_busy (view b) = 0 \<Longrightarrow> view (io_write io b tms_reg v) = (view b)\<lparr>v_tms := v\<rparr>"
    and write_tdi: "v_busy (view b) = 0 \<Longrightarrow> view (io_write io b tdi_reg v) = (view b)\<lparr>v_tdi := v\<rparr>"
    and write_control:
      "v_busy (view b) = 0 \<Longrightarrow> \<not> bit v 0 \<Longrightarrow> view (io_write io b control_reg v) = (view b)\<lparr>v_ctrl := v\<rparr>"
    and start_shift:
      "v_busy (view b) = 0 \<Longrightarrow> bit v 0 \<Longrightarrow> unat (v_len (view b)) \<le> 32 \<Longrightarrow>
       \<exists>k w. view (io_write io b control_reg v) = (view b)\<lparr>v_ctrl := v, v_busy := k, v_tdo := w,
               v_chain := snd (shifted tap (view b) (bit v 1))\<rparr> \<and>
             (\<forall>i < unat (v_len (view b)). bit w i = fst (shifted tap (view b) (bit v 1)) ! i)"
    and read_busy:
      "v_busy (view b) = Suc k \<Longrightarrow> bit (fst (io_read io b control_reg)) 0 \<and>
       view (snd (io_read io b control_reg)) = (view b)\<lparr>v_busy := k\<rparr>"
    and read_idle:
      "v_busy (view b) = 0 \<Longrightarrow> fst (io_read io b control_reg) = v_ctrl (view b) AND NOT 1 \<and>
       view (snd (io_read io b control_reg)) = (view b)\<lparr>v_ctrl := v_ctrl (view b) AND NOT 1\<rparr>"
    and read_tdo:
      "v_busy (view b) = 0 \<Longrightarrow> fst (io_read io b tdo_reg) = v_tdo (view b) \<and>
       view (snd (io_read io b tdo_reg)) = view b"
begin

text \<open>The state after the parameters of a shift are written and it is started.\<close>

lemma started:
  fixes x y c :: "32 word"
  assumes "v_busy (view b) = 0" "unat (v_len (view b)) \<le> 32" "bit c 0"
  shows "\<exists>k w. view (io_write io (io_write io (io_write io b tms_reg x) tdi_reg y) control_reg c) = (view b)\<lparr>v_tms := x, v_tdi := y, v_ctrl := c, v_busy := k, v_tdo := w,
      v_chain := snd (clock_bits (tap (bit c 1)) (v_chain (view b)) (reg_pins x y (unat (v_len (view b)))))\<rparr> \<and>
    (\<forall>i < unat (v_len (view b)).
       bit w i = fst (clock_bits (tap (bit c 1)) (v_chain (view b)) (reg_pins x y (unat (v_len (view b))))) ! i)"
proof -
  let ?b2 = "io_write io (io_write io b tms_reg x) tdi_reg y"
  have v: "view ?b2 = (view b)\<lparr>v_tms := x, v_tdi := y\<rparr>"
    using assms(1) by (simp add: write_tms write_tdi)
  from start_shift [of ?b2 c] assms(1-3) show ?thesis
    by (simp add: v shifted_def)
qed

end

locale fast_bridge = debug_bridge +
  assumes fast: "v_busy (view b) = 0 \<Longrightarrow> v_busy (view (io_write io b control_reg v)) < 100"

section \<open>A reference bridge\<close>

definition ref_write :: "(bool \<Rightarrow> 't tap) \<Rightarrow> nat \<Rightarrow> 't view \<Rightarrow> nat \<Rightarrow> 32 word \<Rightarrow> 't view" where
  "ref_write tap latency b off v =
     (if off = length_reg then b\<lparr>v_len := v\<rparr>
      else if off = tms_reg then b\<lparr>v_tms := v\<rparr>
      else if off = tdi_reg then b\<lparr>v_tdi := v\<rparr>
      else if off = control_reg then
        if bit v 0 then
          (case shifted tap b (bit v 1) of (tdos, t) \<Rightarrow>
             b\<lparr>v_ctrl := v, v_busy := latency, v_tdo := horner_sum of_bool 2 tdos, v_chain := t\<rparr>)
        else b\<lparr>v_ctrl := v\<rparr>
      else b)"

definition ref_read :: "'t view \<Rightarrow> nat \<Rightarrow> 32 word \<times> 't view" where
  "ref_read b off =
     (if off = control_reg then
        (case v_busy b of
           0 \<Rightarrow> (v_ctrl b AND NOT 1, b\<lparr>v_ctrl := v_ctrl b AND NOT 1\<rparr>)
         | Suc k \<Rightarrow> (v_ctrl b OR 1, b\<lparr>v_busy := k\<rparr>))
      else if off = tdo_reg then (v_tdo b, b)
      else (0, b))"

definition ref_io :: "(bool \<Rightarrow> 't tap) \<Rightarrow> nat \<Rightarrow> 't view io" where
  "ref_io tap latency = \<lparr>io_read = ref_read, io_write = ref_write tap latency\<rparr>"

interpretation ref: debug_bridge "ref_io tap latency" "\<lambda>b. b" tap for tap latency
proof unfold_locales
  fix b :: "'a view" and v :: "32 word"
  assume "v_busy b = 0" and v: "bit v 0" and n: "unat (v_len b) \<le> 32"
  let ?r = "shifted tap b (bit v 1)"
  have "length (fst ?r) = unat (v_len b)" by (simp add: shifted_def)
  then have "\<forall>i < unat (v_len b). bit (horner_sum of_bool 2 (fst ?r) :: 32 word) i = fst ?r ! i"
    using n by (auto simp: bit_horner_sum_bit_word_iff)
  then show "\<exists>k w. io_write (ref_io tap latency) b control_reg v = b\<lparr>v_ctrl := v, v_busy := k, v_tdo := w,
      v_chain := snd ?r\<rparr> \<and> (\<forall>i < unat (v_len b). bit w i = fst ?r ! i)"
    using v by (intro exI [of _ latency] exI [of _ "horner_sum of_bool 2 (fst ?r)"])
      (simp add: ref_io_def ref_write_def reg_defs case_prod_beta)
qed (simp_all add: ref_io_def ref_write_def ref_read_def reg_defs bit_simps)

interpretation fast_ref: fast_bridge "ref_io tap (min latency 99)" "\<lambda>b. b" tap for tap latency
  by unfold_locales (simp add: ref_io_def ref_write_def reg_defs case_prod_beta min_less_iff_disj)

end
