(* ===== verification/Jtag_Driver.thy ===== *)
theory Jtag_Driver
  imports Jtag_Bridge
begin

unbundle bit_operations_syntax

text \<open>
  The shift operation of the Linux driver, \<open>jtag/zynqMP/src/driver/xvc_driver.c\<close>:
  \<open>xil_xvc_shift_bits\<close> runs up to 32 clocks on the debug bridge, \<open>xil_xvc_ioctl\<close> cuts a shift of any
  length in such pieces, \<open>xil_xvc_readprops\<close> reports the bridge's address. User memory is the
  bytes that can be read at the pointer; \<open>copy_from_user\<close> returns how many it could not copy.
  The theorem is that the pieces make up the shift, bit by bit.
\<close>

section \<open>The operations\<close>

definition ETIMEDOUT :: int where "ETIMEDOUT = 110"
definition ENOMEM :: int where "ENOMEM = 12"
definition EFAULT :: int where "EFAULT = 14"
definition EINVAL :: int where "EINVAL = 22"

text \<open>\<open>while (count) { ...; if ((control_reg_data & 0x01) == 0) break; count--; }\<close>\<close>

primrec poll_control :: "'b io \<Rightarrow> nat \<Rightarrow> 'b \<Rightarrow> nat \<times> 'b" where
  "poll_control io 0 b = (0, b)"
| "poll_control io (Suc n) b =
     (case io_read io b control_reg of
        (c, b') \<Rightarrow> if c AND 1 = 0 then (Suc n, b') else poll_control io n b')"

definition xil_xvc_shift_bits ::
    "'b io \<Rightarrow> 'b \<Rightarrow> 32 word \<Rightarrow> 32 word \<Rightarrow> 32 word \<Rightarrow> int \<times> 32 word \<times> 'b" where
  "xil_xvc_shift_bits io b tms_bits tdi_bits tdo_bits =
     (let b1 = io_write io (io_write io b tms_reg tms_bits) tdi_reg tdi_bits in
      case io_read io b1 control_reg of
        (control_reg_data, b2) \<Rightarrow>
          case poll_control io 100 (io_write io b2 control_reg (control_reg_data OR 1)) of
            (count, b3) \<Rightarrow>
              if count = 0 then (- ETIMEDOUT, tdo_bits, b3)
              else case io_read io b3 tdo_reg of (w, b4) \<Rightarrow> (0, w, b4))"

record ioc =
  i_opcode :: "32 word"
  i_length :: "32 word"
  i_tms :: "byte list"   \<comment> \<open>what can be read at \<open>tms_buf\<close>\<close>
  i_tdi :: "byte list"
  i_tdo_room :: nat      \<comment> \<open>how many bytes can be written at \<open>tdo_buf\<close>\<close>

definition copy_from_user :: "byte list \<Rightarrow> nat \<Rightarrow> nat \<times> byte list" where
  "copy_from_user mem n = (n - min n (length mem), take n mem)"

text \<open>The loop over \<open>current_bit\<close>, which is an \<open>int\<close>.\<close>

function shift_loop ::
    "'b io \<Rightarrow> nat \<Rightarrow> byte list \<Rightarrow> byte list \<Rightarrow> byte list \<Rightarrow> 'b \<Rightarrow> nat \<Rightarrow> (int \<times> byte list \<times> 'b) res" where
  "shift_loop io num_bits tms tdi tdo b current_bit =
     (if current_bit < num_bits then
        let last = (num_bits - current_bit < 32);
            shift_num_bits = (if last then num_bits - current_bit else 32);
            b1 = (if last then io_write io b length_reg (word_of_nat shift_num_bits) else b);
            shift_num_bytes = (shift_num_bits + 7) div 8
        in and_then (read_range tms (current_bit div 8) shift_num_bytes) (\<lambda>x.
           and_then (read_range tdi (current_bit div 8) shift_num_bytes) (\<lambda>y.
             case xil_xvc_shift_bits io b1 (word_of_bytes x) (word_of_bytes y) 0 of
               (status, w, b2) \<Rightarrow>
                 if status \<noteq> 0 then Inr (status, tdo, b2)
                 else
                   and_then (write_at tdo (current_bit div 8) (le_bytes shift_num_bytes w)) (\<lambda>tdo'.
                   and_then (ensure (current_bit + shift_num_bits < 2 ^ 31) Int_overflow) (\<lambda>_.
                     shift_loop io num_bits tms tdi tdo' b2 (current_bit + shift_num_bits)))))
      else Inr (0, tdo, b))"
  by pat_completeness auto
termination
  by (relation "measure (\<lambda>(io, n, tms, tdi, tdo, b, c). n - c)") auto

declare shift_loop.simps [simp del]

text \<open>The control register gets the bypass bit, the length register 32 if there is a full piece.\<close>

definition select_mode :: "'b io \<Rightarrow> 32 word \<Rightarrow> 32 word \<Rightarrow> 'b \<Rightarrow> 'b" where
  "select_mode io operation_code num_bits b =
     (let b1 = io_write io b control_reg (if operation_code = 2 then 2 else 0)
      in if 32 \<le> num_bits then io_write io b1 length_reg 0x20 else b1)"

text \<open>
  The result is the returned status, what was copied to \<open>tdo_buf\<close> (\<open>None\<close> if nothing) and the bridge.
  \<open>kmalloc i n\<close> tells whether the \<open>i\<close>-th allocation, of \<open>n\<close> bytes, succeeds; \<open>heap\<close> is what fresh
  memory holds; \<open>mapped\<close> is whether \<open>db_ptr\<close> is the mapped bridge; \<open>arg_missing\<close> is how much of the request itself could not be copied.
\<close>

definition xil_xvc_ioctl ::
    "'b io \<Rightarrow> bool \<Rightarrow> (nat \<Rightarrow> nat \<Rightarrow> bool) \<Rightarrow> (nat \<Rightarrow> byte) \<Rightarrow> 'b \<Rightarrow> nat \<Rightarrow> ioc \<Rightarrow> (int \<times> byte list option \<times> 'b) res" where
  "xil_xvc_ioctl io mapped kmalloc heap b arg_missing arg =
     (if arg_missing \<noteq> 0 then Inr (int arg_missing, None, b)
      else if i_opcode arg \<noteq> 1 \<and> i_opcode arg \<noteq> 2 then Inr (0, None, b)
      else
        let num_bits = i_length arg;
            num_bytes = unat ((num_bits + 7) div 8)
        in if \<not> kmalloc 0 num_bytes then Inr (- ENOMEM, None, b)
           else case copy_from_user (i_tms arg) num_bytes of (left1, tms) \<Rightarrow>
             if left1 \<noteq> 0 then Inr (int left1, None, b)
             else if \<not> kmalloc 1 num_bytes then Inr (- ENOMEM, None, b)
             else case copy_from_user (i_tdi arg) num_bytes of (left2, tdi) \<Rightarrow>
               if left2 \<noteq> 0 then Inr (int left2, None, b)
               else if \<not> kmalloc 2 num_bytes then Inr (- ENOMEM, None, b)
               else
                 and_then (ensure mapped Out_of_bounds) (\<lambda>_.
                 and_then (shift_loop io (unat num_bits) tms tdi (map heap [0..<num_bytes])
                     (select_mode io (i_opcode arg) num_bits b) 0) (\<lambda>(status, tdo, b3).
                   if status \<noteq> 0 then Inr (status, None, b3)
                   else if i_tdo_room arg < num_bytes then Inr (- EFAULT, Some (take (i_tdo_room arg) tdo), b3)
                   else Inr (0, Some tdo, b3))))"

section \<open>One piece\<close>

lemma and_1_eq_0: "(c :: 32 word) AND 1 = 0 \<longleftrightarrow> \<not> bit c 0"
  by (simp add: and_one_eq bit_0 even_iff_mod_2_eq_zero)

context debug_bridge
begin

lemma poll_done:
  "v_busy (view b) = k \<Longrightarrow> k < n \<Longrightarrow>
   \<exists>b'. poll_control io n b = (n - k, b') \<and>
     view b' = (view b)\<lparr>v_busy := 0, v_ctrl := v_ctrl (view b) AND NOT 1\<rparr>"
proof (induction n arbitrary: b k)
  case (Suc n)
  obtain c b' where r: "io_read io b control_reg = (c, b')" by force
  show ?case
  proof (cases k)
    case 0
    with read_idle [of b] Suc.prems r have "c = v_ctrl (view b) AND NOT 1"
      "view b' = (view b)\<lparr>v_ctrl := v_ctrl (view b) AND NOT 1\<rparr>" by simp_all
    with 0 r Suc.prems show ?thesis by (simp add: and_1_eq_0 bit_simps)
  next
    case (Suc j)
    with read_busy [of b j] Suc.prems r have "bit c 0" "view b' = (view b)\<lparr>v_busy := j\<rparr>" by simp_all
    with Suc.IH [of b' j] Suc Suc.prems r show ?thesis by (simp add: and_1_eq_0)
  qed
qed simp

lemma poll_timeout: "n \<le> v_busy (view b) \<Longrightarrow> fst (poll_control io n b) = 0"
proof (induction n arbitrary: b)
  case (Suc n)
  then obtain j where j: "v_busy (view b) = Suc j" by (cases "v_busy (view b)") auto
  obtain c b' where r: "io_read io b control_reg = (c, b')" by force
  from read_busy [OF j] r have "bit c 0" "view b' = (view b)\<lparr>v_busy := j\<rparr>" by simp_all
  with Suc.IH [of b'] Suc.prems r j show ?case by (simp add: and_1_eq_0)
qed simp

lemma shift_bits_view:
  fixes x y z :: "32 word"
  assumes "v_busy (view b) = 0" "unat (v_len (view b)) \<le> 32"
  defines "r \<equiv> clock_bits (tap (bit (v_ctrl (view b)) 1)) (v_chain (view b)) (reg_pins x y (unat (v_len (view b))))"
  shows "(\<exists>w b'. xil_xvc_shift_bits io b x y z = (0, w, b') \<and> v_busy (view b') = 0 \<and>
       v_len (view b') = v_len (view b) \<and> v_ctrl (view b') = v_ctrl (view b) AND NOT 1 \<and>
       v_chain (view b') = snd r \<and> (\<forall>i < unat (v_len (view b)). bit w i = fst r ! i)) \<or>
    (\<exists>b0 v. v_busy (view b0) = 0 \<and> 100 \<le> v_busy (view (io_write io b0 control_reg v)) \<and>
       (\<exists>b'. xil_xvc_shift_bits io b x y z = (- ETIMEDOUT, z, b')))"
proof -
  let ?b1 = "io_write io (io_write io b tms_reg x) tdi_reg y"
  obtain c b2 where rd: "io_read io ?b1 control_reg = (c, b2)" by force
  have v1: "view ?b1 = (view b)\<lparr>v_tms := x, v_tdi := y\<rparr>" using assms(1) by (simp add: write_tms write_tdi)
  from read_idle [of ?b1] assms(1) rd have c: "c = v_ctrl (view b) AND NOT 1"
    and v2: "view b2 = (view b)\<lparr>v_tms := x, v_tdi := y, v_ctrl := v_ctrl (view b) AND NOT 1\<rparr>"
    by (simp_all add: v1)
  let ?v = "c OR 1"
  let ?b3 = "io_write io b2 control_reg ?v"
  have byp: "bit ?v 1 = bit (v_ctrl (view b)) 1" "bit ?v 0" by (simp_all add: c bit_simps)
  have ctl: "?v AND NOT 1 = v_ctrl (view b) AND NOT 1"
    by (intro bit_word_eqI) (auto simp: c bit_simps)
  have idle2: "v_busy (view b2) = 0" using assms(1) by (simp add: v2)
  have "unat (v_len (view b2)) \<le> 32" using assms(2) by (simp add: v2)
  from start_shift [OF idle2 byp(2) this] obtain k w where
    v3: "view ?b3 = (view b2)\<lparr>v_ctrl := ?v, v_busy := k, v_tdo := w, v_chain := snd r\<rparr>"
    and w: "\<forall>i < unat (v_len (view b)). bit w i = fst r ! i"
    unfolding shifted_def byp(1) r_def by (auto simp: v2)
  show ?thesis
  proof (cases "k < 100")
    case True
    from poll_done [of ?b3 k 100] True obtain b4 where
      p: "poll_control io 100 ?b3 = (100 - k, b4)" and
      v4: "view b4 = (view ?b3)\<lparr>v_busy := 0, v_ctrl := v_ctrl (view ?b3) AND NOT 1\<rparr>"
      by (auto simp: v3)
    from read_tdo [of b4] obtain b5 where t: "io_read io b4 tdo_reg = (w, b5)" "view b5 = view b4"
      by (cases "io_read io b4 tdo_reg") (simp add: v4 v3)
    have "xil_xvc_shift_bits io b x y z = (0, w, b5)"
      using True by (simp add: xil_xvc_shift_bits_def Let_def rd p t(1))
    moreover have "view b5 = (view b)\<lparr>v_tms := x, v_tdi := y, v_tdo := w, v_chain := snd r,
        v_ctrl := v_ctrl (view b) AND NOT 1, v_busy := 0\<rparr>"
      using ctl by (simp add: t(2) v4 v3 v2)
    ultimately show ?thesis using w by simp
  next
    case False
    then have "fst (poll_control io 100 ?b3) = 0" by (intro poll_timeout) (simp add: v3)
    then have "\<exists>b'. xil_xvc_shift_bits io b x y z = (- ETIMEDOUT, z, b')"
      by (simp add: xil_xvc_shift_bits_def Let_def rd case_prod_beta)
    moreover have "100 \<le> v_busy (view ?b3)" using False by (simp add: v3)
    ultimately show ?thesis using idle2 by blast
  qed
qed

end

section \<open>All pieces\<close>

definition shift_bytes :: "32 word \<Rightarrow> nat" where
  "shift_bytes n = unat ((n + 7) div 8)"

lemma shift_bytes_eq: "unat n < 2 ^ 31 \<Longrightarrow> shift_bytes n = (unat n + 7) div 8"
proof -
  assume n: "unat n < 2 ^ 31"
  have "unat (n + 7) = unat n + 7" using n by (simp add: unat_word_ariths)
  then show ?thesis by (simp add: shift_bytes_def unat_div_distrib)
qed

lemma bit_at_take: "i < 8 * n \<Longrightarrow> n \<le> length bs \<Longrightarrow> bit_at (take n bs) i = bit_at bs i"
  using bit_at_chunk [of 0 i n bs] by simp

lemma pins_take:
  "b \<le> 8 * n \<Longrightarrow> n \<le> length tms \<Longrightarrow> n \<le> length tdi \<Longrightarrow> pins (take n tms) (take n tdi) a b = pins tms tdi a b"
  by (auto simp: pins_def bit_at_take)

lemma ioctl_loop:
  assumes "i_opcode arg = 1 \<or> i_opcode arg = 2" "\<And>i. kmalloc i (shift_bytes (i_length arg))"
    and "shift_bytes (i_length arg) \<le> length (i_tms arg)" "shift_bytes (i_length arg) \<le> length (i_tdi arg)"
  shows "xil_xvc_ioctl io True kmalloc heap b 0 arg =
    and_then (shift_loop io (unat (i_length arg)) (take (shift_bytes (i_length arg)) (i_tms arg))
      (take (shift_bytes (i_length arg)) (i_tdi arg)) (map heap [0..<shift_bytes (i_length arg)])
      (select_mode io (i_opcode arg) (i_length arg) b) 0) (\<lambda>(status, tdo, b3).
        if status \<noteq> 0 then Inr (status, None, b3)
        else if i_tdo_room arg < shift_bytes (i_length arg) then
          Inr (- EFAULT, Some (take (i_tdo_room arg) tdo), b3)
        else Inr (0, Some tdo, b3))"
proof -
  let ?m = "shift_bytes (i_length arg)"
  have "copy_from_user (i_tms arg) ?m = (0, take ?m (i_tms arg))" "copy_from_user (i_tdi arg) ?m = (0, take ?m (i_tdi arg))"
    using assms(3,4) by (simp_all add: copy_from_user_def)
  moreover have "\<not> (i_opcode arg \<noteq> 1 \<and> i_opcode arg \<noteq> 2)" using assms(1) by blast
  ultimately show ?thesis
    using assms(2) unfolding xil_xvc_ioctl_def Let_def shift_bytes_def [symmetric] by auto
qed

context debug_bridge
begin

lemma select_mode_view:
  assumes "v_busy (view b) = 0"
  shows "v_busy (view (select_mode io op n b)) = 0" "v_chain (view (select_mode io op n b)) = v_chain (view b)"
    "bit (v_ctrl (view (select_mode io op n b))) 1 = (op = 2)"
    "32 \<le> n \<Longrightarrow> v_len (view (select_mode io op n b)) = 32"
proof -
  let ?v = "if op = 2 then 2 else 0 :: 32 word"
  define b1 where "b1 = io_write io b control_reg ?v"
  have v1: "view b1 = (view b)\<lparr>v_ctrl := ?v\<rparr>"
    unfolding b1_def using assms by (intro write_control) (auto simp: bit_simps)
  have s: "view (select_mode io op n b) = (if 32 \<le> n then (view b1)\<lparr>v_len := 32\<rparr> else view b1)"
    using write_length [of b1 32] assms unfolding select_mode_def Let_def b1_def [symmetric] by (simp add: v1)
  show "v_busy (view (select_mode io op n b)) = 0" "v_chain (view (select_mode io op n b)) = v_chain (view b)"
    "bit (v_ctrl (view (select_mode io op n b))) 1 = (op = 2)"
    "32 \<le> n \<Longrightarrow> v_len (view (select_mode io op n b)) = 32"
    using assms by (simp_all add: s v1 bit_simps)
qed

end

context fast_bridge
begin

lemma shift_bits_fast:
  fixes x y z :: "32 word"
  assumes "v_busy (view b) = 0" "unat (v_len (view b)) \<le> 32"
  defines "r \<equiv> clock_bits (tap (bit (v_ctrl (view b)) 1)) (v_chain (view b)) (reg_pins x y (unat (v_len (view b))))"
  shows "\<exists>w b'. xil_xvc_shift_bits io b x y z = (0, w, b') \<and> v_busy (view b') = 0 \<and>
       v_len (view b') = v_len (view b) \<and> v_ctrl (view b') = v_ctrl (view b) AND NOT 1 \<and>
       v_chain (view b') = snd r \<and> (\<forall>i < unat (v_len (view b)). bit w i = fst r ! i)"
  using shift_bits_view [OF assms(1,2), of x y z] fast unfolding r_def by (metis not_less)

lemma shift_loop_serial:
  fixes tms tdi tdo :: "byte list"
  assumes "current_bit mod 32 = 0 \<or> num_bits \<le> current_bit" "num_bits < 2 ^ 31" "v_busy (view b) = 0"
    and "current_bit + 32 \<le> num_bits \<longrightarrow> unat (v_len (view b)) = 32"
    and "(num_bits + 7) div 8 \<le> length tms" "(num_bits + 7) div 8 \<le> length tdi" "(num_bits + 7) div 8 \<le> length tdo"
  defines "r \<equiv> clock_bits (tap (bit (v_ctrl (view b)) 1)) (v_chain (view b)) (pins tms tdi current_bit num_bits)"
  shows "\<exists>tdo' b'. shift_loop io num_bits tms tdi tdo b current_bit = Inr (0, tdo', b') \<and>
    filled tdo tdo' current_bit num_bits (fst r) \<and> v_busy (view b') = 0 \<and> v_chain (view b') = snd r"
  using assms(1-7) unfolding r_def
proof (induction "num_bits - current_bit" arbitrary: current_bit b tdo rule: less_induct)
  case less
  show ?case
  proof (cases "current_bit < num_bits")
    case False
    then show ?thesis using less.prems by (simp add: shift_loop.simps [of io num_bits] pins_def filled_done)
  next
    case True
    let ?c = current_bit
    define last where "last \<longleftrightarrow> num_bits - ?c < 32"
    define k where "k = (if last then num_bits - ?c else 32)"
    define b1 where "b1 = (if last then io_write io b length_reg (word_of_nat k) else b)"
    define m where "m = (k + 7) div 8"
    have c8: "?c mod 8 = 0"
    proof -
      have "?c mod 32 = 0" using less.prems(1) True by simp
      then have "32 dvd ?c" by (simp add: mod_eq_0_iff_dvd)
      then have "8 dvd ?c" by (rule dvd_trans [rotated]) simp
      then show ?thesis by simp
    qed
    have k: "0 < k" "k \<le> 32" "?c + k \<le> num_bits" "k \<le> 8 * m"
      using True by (auto simp: k_def last_def m_def)
    have cm: "?c div 8 + m \<le> (num_bits + 7) div 8"
    proof -
      have "?c = 8 * (?c div 8)" using mult_div_mod_eq [of 8 ?c] c8 by linarith
      then have "?c div 8 + m = (?c + k + 7) div 8" unfolding m_def by (metis add.assoc div_mult_self4 zero_neq_numeral)
      also have "\<dots> \<le> (num_bits + 7) div 8" using k(3) by (intro div_le_mono) simp
      finally show ?thesis .
    qed
    have v1: "v_busy (view b1) = 0" "unat (v_len (view b1)) = k" "v_chain (view b1) = v_chain (view b)"
      "v_ctrl (view b1) = v_ctrl (view b)"
    proof -
      have "unat (word_of_nat k :: 32 word) = k" using k(2) by (intro unat_word_of_nat_32) simp
      then show "v_busy (view b1) = 0" "unat (v_len (view b1)) = k" "v_chain (view b1) = v_chain (view b)"
        "v_ctrl (view b1) = v_ctrl (view b)"
        using less.prems(3,4) True by (auto simp: b1_def write_length k_def last_def)
    qed
    let ?x = "word_of_bytes (take m (drop (?c div 8) tms))"
    let ?y = "word_of_bytes (take m (drop (?c div 8) tdi))"
    have pin: "reg_pins ?x ?y k = pins tms tdi ?c (?c + k)"
      using less.prems(5,6) cm c8 k by (intro reg_pins_chunk) auto
    let ?tap = "tap (bit (v_ctrl (view b)) 1)"
    let ?r1 = "clock_bits ?tap (v_chain (view b)) (pins tms tdi ?c (?c + k))"
    obtain w b2 where sb: "xil_xvc_shift_bits io b1 ?x ?y 0 = (0, w, b2)"
      and v2: "v_busy (view b2) = 0" "v_len (view b2) = v_len (view b1)"
        "v_ctrl (view b2) = v_ctrl (view b) AND NOT 1" "v_chain (view b2) = snd ?r1"
      and w: "\<forall>i < k. bit w i = fst ?r1 ! i"
      using shift_bits_fast [OF v1(1), of ?x ?y 0] k(2) by (auto simp: v1 pin)
    have byp: "bit (v_ctrl (view b2)) 1 = bit (v_ctrl (view b)) 1" by (simp add: v2 bit_simps)
    obtain tdo1 where wr: "write_at tdo (?c div 8) (le_bytes m w) = Inr tdo1"
      using less.prems(7) cm by (simp add: write_at_ok)
    have l1: "length tdo1 = length tdo" using wr by (rule length_write_at)
    have step: "shift_loop io num_bits tms tdi tdo b ?c = shift_loop io num_bits tms tdi tdo1 b2 (?c + k)"
    proof -
      have "read_range tms (?c div 8) m = Inr (take m (drop (?c div 8) tms))"
        "read_range tdi (?c div 8) m = Inr (take m (drop (?c div 8) tdi))"
        using less.prems(5,6) cm by (auto intro!: read_range_ok)
      moreover have "?c + k < 2 ^ 31" using k(3) less.prems(2) by simp
      ultimately show ?thesis
        using True sb wr unfolding shift_loop.simps [of io num_bits tms tdi tdo b] Let_def last_def [symmetric]
          k_def [symmetric] b1_def [symmetric] m_def [symmetric]
        by simp
    qed
    have a1: "(?c + k) mod 32 = 0 \<or> num_bits \<le> ?c + k"
      using less.prems(1) True by (auto simp: k_def last_def mod_add_left_eq [symmetric])
    have a2: "?c + k + 32 \<le> num_bits \<longrightarrow> unat (v_len (view b2)) = 32"
      using v1(2) v2(2) k(1) by (auto simp: k_def last_def)
    have dec: "num_bits - (?c + k) < num_bits - ?c" using True k(1) by simp
    let ?r2 = "clock_bits ?tap (snd ?r1) (pins tms tdi (?c + k) num_bits)"
    have "(num_bits + 7) div 8 \<le> length tdo1" using less.prems(7) l1 by simp
    from less.hyps [OF dec a1 less.prems(2) v2(1) a2 less.prems(5,6) this, unfolded byp v2(4) l1]
    obtain tdo' b' where sl: "shift_loop io num_bits tms tdi tdo1 b2 (?c + k) = Inr (0, tdo', b')"
      and fl: "filled tdo1 tdo' (?c + k) num_bits (fst ?r2)" and vb: "v_busy (view b') = 0" "v_chain (view b') = snd ?r2"
      by blast
    have split: "pins tms tdi ?c num_bits = pins tms tdi ?c (?c + k) @ pins tms tdi (?c + k) num_bits"
      using k by (intro pins_split) auto
    have r: "clock_bits ?tap (v_chain (view b)) (pins tms tdi ?c num_bits) = (fst ?r1 @ fst ?r2, snd ?r2)"
      unfolding split clock_bits_append ..
    have "?c div 8 + m \<le> length tdo" using cm less.prems(7) by simp
    then have "filled tdo tdo' ?c num_bits (fst ?r1 @ fst ?r2)"
      using wr c8 k(4) w fl by (intro filled_piece [where k = k and m = m]) simp_all
    then show ?thesis
      unfolding r step sl using vb by simp
  qed
qed

text \<open>The outcome of a shift request on a bridge that finishes within the hundred polls.\<close>

lemma ioctl_serial:
  fixes arg :: ioc and b :: 'a
  defines "n \<equiv> unat (i_length arg)"
  defines "r \<equiv> clock_bits (tap (i_opcode arg = 2)) (v_chain (view b)) (pins (i_tms arg) (i_tdi arg) 0 n)"
  assumes "v_busy (view b) = 0" "i_opcode arg = 1 \<or> i_opcode arg = 2" "n < 2 ^ 31"
    and "\<And>i. kmalloc i (shift_bytes (i_length arg))"
    and "shift_bytes (i_length arg) \<le> length (i_tms arg)" "shift_bytes (i_length arg) \<le> length (i_tdi arg)"
    and "shift_bytes (i_length arg) \<le> i_tdo_room arg"
  shows "\<exists>tdo b'. xil_xvc_ioctl io True kmalloc heap b 0 arg = Inr (0, Some tdo, b') \<and>
    length tdo = (n + 7) div 8 \<and> (\<forall>i < n. bit_at tdo i = fst r ! i) \<and> v_chain (view b') = snd r \<and>
    v_busy (view b') = 0"
proof -
  let ?m = "shift_bytes (i_length arg)"
  let ?b2 = "select_mode io (i_opcode arg) (i_length arg) b"
  let ?tms = "take ?m (i_tms arg)" and ?tdi = "take ?m (i_tdi arg)" and ?tdo = "map heap [0..<?m]"
  have m: "?m = (n + 7) div 8" using assms(5) by (simp add: shift_bytes_eq n_def)
  have n8: "n \<le> 8 * ?m" unfolding m by simp
  note v2 = select_mode_view [OF assms(3), where op = "i_opcode arg" and n = "i_length arg"]
  have len: "0 + 32 \<le> n \<longrightarrow> unat (v_len (view ?b2)) = 32" using v2(4) by (simp add: n_def word_le_nat_alt)
  have pins: "pins ?tms ?tdi 0 n = pins (i_tms arg) (i_tdi arg) 0 n" using n8 assms(7,8) by (rule pins_take)
  have z: "(0 :: nat) mod 32 = 0 \<or> n \<le> 0" by simp
  have l: "(n + 7) div 8 \<le> length ?tms" "(n + 7) div 8 \<le> length ?tdi" "(n + 7) div 8 \<le> length ?tdo"
    using assms(7,8) by (simp_all add: m)
  from shift_loop_serial [OF z assms(5) v2(1) len l, unfolded v2(2,3) pins, folded r_def] obtain tdo b' where
    s: "shift_loop io n ?tms ?tdi ?tdo ?b2 0 = Inr (0, tdo, b')" and
    q: "filled ?tdo tdo 0 n (fst r)" "v_busy (view b') = 0" "v_chain (view b') = snd r"
    by blast
  have "xil_xvc_ioctl io True kmalloc heap b 0 arg = Inr (0, Some tdo, b')"
    using ioctl_loop [where arg = arg and kmalloc = kmalloc and io = io and heap = heap and b = b, OF assms(4,6,7,8)] assms(9) s by (simp add: n_def)
  then show ?thesis using q m by (simp add: filled_def)
qed

end

section \<open>A bridge that does not answer\<close>

locale slow_bridge = debug_bridge +
  assumes slow: "v_busy (view b) = 0 \<Longrightarrow> bit v 0 \<Longrightarrow> 100 \<le> v_busy (view (io_write io b control_reg v))"
begin

lemma shift_bits_slow:
  fixes x y z :: "32 word"
  assumes "v_busy (view b) = 0"
  shows "\<exists>b'. xil_xvc_shift_bits io b x y z = (- ETIMEDOUT, z, b')"
proof -
  let ?b1 = "io_write io (io_write io b tms_reg x) tdi_reg y"
  obtain c b2 where rd: "io_read io ?b1 control_reg = (c, b2)" by force
  have b1: "v_busy (view ?b1) = 0" using assms by (simp add: write_tms write_tdi)
  have "v_busy (view b2) = 0" using read_idle [OF b1] b1 by (simp add: rd)
  then have "100 \<le> v_busy (view (io_write io b2 control_reg (c OR 1)))" by (rule slow) (simp add: bit_simps)
  then have "fst (poll_control io 100 (io_write io b2 control_reg (c OR 1))) = 0" by (rule poll_timeout)
  then show ?thesis by (simp add: xil_xvc_shift_bits_def Let_def rd case_prod_beta)
qed

lemma ioctl_slow:
  fixes arg :: ioc and b :: 'a
  defines "m \<equiv> shift_bytes (i_length arg)"
  assumes "v_busy (view b) = 0" "i_opcode arg = 1 \<or> i_opcode arg = 2"
    and "0 < i_length arg" "unat (i_length arg) < 2 ^ 31" "\<And>i. kmalloc i m"
    and "m \<le> length (i_tms arg)" "m \<le> length (i_tdi arg)"
  shows "\<exists>b'. xil_xvc_ioctl io True kmalloc heap b 0 arg = Inr (- ETIMEDOUT, None, b')"
proof -
  let ?n = "unat (i_length arg)"
  define b2 where "b2 = select_mode io (i_opcode arg) (i_length arg) b"
  let ?last = "?n < 32"
  define k where "k = (if ?last then ?n else 32)"
  define b3 where "b3 = (if ?last then io_write io b2 length_reg (word_of_nat k) else b2)"
  have m: "m = (?n + 7) div 8" using assms(5) by (simp add: shift_bytes_eq m_def)
  have "v_busy (view b2) = 0" unfolding b2_def using assms(2) by (rule select_mode_view)
  then have idle3: "v_busy (view b3) = 0" using write_length [of b2 "word_of_nat k"] by (simp add: b3_def)
  have pos: "0 < ?n" using assms(4) by (simp add: word_less_nat_alt)
  have km: "(k + 7) div 8 \<le> m" unfolding m k_def by (intro div_le_mono) simp
  let ?tms = "take m (i_tms arg)" and ?tdi = "take m (i_tdi arg)" and ?tdo = "map heap [0..<m]"
  have rd: "read_range ?tms 0 ((k + 7) div 8) = Inr (take ((k + 7) div 8) (drop 0 ?tms))"
    "read_range ?tdi 0 ((k + 7) div 8) = Inr (take ((k + 7) div 8) (drop 0 ?tdi))"
    using km assms(7,8) by (simp_all add: read_range_def)
  obtain b' where sb: "xil_xvc_shift_bits io b3 (word_of_bytes (take ((k + 7) div 8) (drop 0 ?tms)))
      (word_of_bytes (take ((k + 7) div 8) (drop 0 ?tdi))) 0 = (- ETIMEDOUT, 0, b')"
    using shift_bits_slow [OF idle3] by blast
  have "shift_loop io ?n ?tms ?tdi ?tdo b2 0 = Inr (- ETIMEDOUT, ?tdo, b')"
    unfolding shift_loop.simps [of io ?n ?tms ?tdi ?tdo b2 0] Let_def minus_nat.diff_0 k_def [symmetric] b3_def [symmetric]
      div_0 rd and_then_simps sb
    using pos by (simp add: ETIMEDOUT_def)
  then show ?thesis
    using ioctl_loop [OF assms(3), of kmalloc io heap b] assms(6-8)
    by (simp add: m_def [symmetric] b2_def [symmetric] ETIMEDOUT_def)
qed

end

interpretation slow_ref: slow_bridge "ref_io tap (latency + 100)" "\<lambda>b. b" tap for tap latency
  by unfold_locales (simp add: ref_io_def ref_write_def reg_defs case_prod_beta)

section \<open>Lengths that wrap\<close>

text \<open>\<open>num_bits + 7\<close> is an addition of 32-bit words.\<close>

lemma shift_bytes_wrap: "0xFFFFFFF9 \<le> n \<Longrightarrow> shift_bytes n = 0"
proof -
  assume n: "0xFFFFFFF9 \<le> n"
  have m: "unat n < 2 ^ 32" using unsigned_less [of n] by simp
  have "0xFFFFFFF9 \<le> unat n" using n by (simp add: word_le_nat_alt)
  then have "unat (n + 7) = unat n + 7 - 2 ^ 32"
    using m by (simp add: unat_word_ariths mod_if)
  then show ?thesis
    using m by (simp add: shift_bytes_def unat_div_distrib)
qed

lemma ioctl_wrap:
  assumes "0xFFFFFFF9 \<le> i_length arg" "i_opcode arg = 1 \<or> i_opcode arg = 2" "\<And>i. kmalloc i 0"
  shows "xil_xvc_ioctl io True kmalloc heap b 0 arg = Inl Out_of_bounds"
proof -
  have n: "32 < unat (i_length arg)" using assms(1) by (simp add: word_le_nat_alt)
  have o: "\<not> (i_opcode arg \<noteq> 1 \<and> i_opcode arg \<noteq> 2)" using assms(2) by blast
  have s: "shift_loop io (unat (i_length arg)) [] tdi tdo b' 0 = Inl Out_of_bounds" for tdi tdo b'
    using n by (simp add: shift_loop.simps [of io "unat (i_length arg)" "[]" tdi tdo b' 0] read_range_def)
  show ?thesis
    using o assms(3) unfolding xil_xvc_ioctl_def Let_def shift_bytes_def [symmetric] shift_bytes_wrap [OF assms(1)]
    by (simp add: copy_from_user_def s)
qed

section \<open>Properties of the bridge\<close>

text \<open>
  \<open>xil_xvc_readprops\<close>: the base address, the size and the compatibility string of the bridge. The
  object is on the stack, which holds \<open>stack\<close>; \<open>strcpy\<close> fills the string and its NUL. \<open>user_ok\<close> is
  whether the whole object could be copied to the user.
\<close>

record db_config =
  base_addr :: "64 word"
  db_size :: "64 word"

record xvc_properties =
  debug_bridge_base_addr :: "64 word"
  debug_bridge_size :: "64 word"
  debug_bridge_compat_string :: "byte list"

definition compat_string :: "byte list" where
  "compat_string = bytes_of ''xlnx,xvc''"

definition xil_xvc_readprops ::
    "byte list \<Rightarrow> db_config option \<Rightarrow> bool \<Rightarrow> (int \<times> xvc_properties option) res" where
  "xil_xvc_readprops stack config user_ok =
     (case config of
        None \<Rightarrow> Inr (- EINVAL, None)
      | Some c \<Rightarrow>
          and_then (write_at stack 0 (compat_string @ [0])) (\<lambda>name.
            if user_ok then
              Inr (0, Some \<lparr>debug_bridge_base_addr = base_addr c, debug_bridge_size = db_size c,
                            debug_bridge_compat_string = name\<rparr>)
            else Inr (- ENOMEM, None)))"

section \<open>Correctness of the shift\<close>

text \<open>C22. On every debug bridge that finishes a shift within a hundred reads of its control register,
  the \<open>ioctl\<close> shifts exactly the bits that were asked for, in order: TDO and the state of the chain are
  those of clocking the chain bit by bit, whatever the length, with bypass as the opcode says, and no
  access leaves a buffer.\<close>

theorem ioctl_shifts_bit_by_bit:
  assumes "fast_bridge io view tap" "v_busy (view b) = 0" "i_opcode arg = 1 \<or> i_opcode arg = 2"
    and "unat (i_length arg) < 2 ^ 31" "\<And>i. kmalloc i (shift_bytes (i_length arg))"
    and "shift_bytes (i_length arg) \<le> length (i_tms arg)" "shift_bytes (i_length arg) \<le> length (i_tdi arg)"
    and "shift_bytes (i_length arg) \<le> i_tdo_room arg"
  shows "\<exists>tdo b'. xil_xvc_ioctl io True kmalloc heap b 0 arg = Inr (0, Some tdo, b') \<and>
    length tdo = (unat (i_length arg) + 7) div 8 \<and>
    (\<forall>i < unat (i_length arg). bit_at tdo i =
       fst (clock_bits (tap (i_opcode arg = 2)) (v_chain (view b))
              (pins (i_tms arg) (i_tdi arg) 0 (unat (i_length arg)))) ! i) \<and>
    v_chain (view b') =
       snd (clock_bits (tap (i_opcode arg = 2)) (v_chain (view b))
              (pins (i_tms arg) (i_tdi arg) 0 (unat (i_length arg)))) \<and>
    v_busy (view b') = 0"
  by (rule fast_bridge.ioctl_serial) (fact assms)+

text \<open>A chain that is one flip-flop, on a bridge that needs three polls.\<close>

definition delay_tap :: "bool \<Rightarrow> bool tap" where
  "delay_tap bypass t tms tdi = (t, tdi)"

definition sample_view :: "bool view" where
  "sample_view = \<lparr>v_len = 0, v_tms = 0, v_tdi = 0, v_tdo = 0, v_ctrl = 0, v_busy = 0, v_chain = True\<rparr>"

definition sample_ioc :: "32 word \<Rightarrow> ioc" where
  "sample_ioc n = \<lparr>i_opcode = 1, i_length = n, i_tms = replicate 5 0, i_tdi = [0xA5, 1, 2, 3, 0x0C], i_tdo_room = 5\<rparr>"

theorem ioctl_shifts_bit_by_bit_witness:
  "\<exists>tdo b'. xil_xvc_ioctl (ref_io delay_tap (min 3 99)) True (\<lambda>_ _. True) (\<lambda>_. 0) sample_view 0 (sample_ioc 36) =
      Inr (0, Some tdo, b') \<and> length tdo = 5 \<and> v_chain b' = True \<and> v_busy b' = 0"
proof -
  have s: "shift_bytes 36 = 5" by (simp add: shift_bytes_def)
  have c: "snd (clock_bits (delay_tap False) True (pins (replicate 5 0) [0xA5, 1, 2, 3, 0x0C] 0 36)) = True"
    by (simp add: pins_def bit_at_def delay_tap_def upt_rec)
  show ?thesis
    using ioctl_shifts_bit_by_bit [where arg = "sample_ioc 36" and kmalloc = "\<lambda>_ _. True" and heap = "\<lambda>_. 0"
        and b = sample_view, OF fast_ref.fast_bridge_axioms [of delay_tap 3]]
    by (auto simp: sample_ioc_def sample_view_def s c)
qed

text \<open>C28. A bridge that is still busy after a hundred reads of its control register makes the request
  fail with a timeout, and nothing is copied to the user.\<close>

theorem ioctl_times_out:
  assumes "slow_bridge io view tap" "v_busy (view b) = 0" "i_opcode arg = 1 \<or> i_opcode arg = 2"
    and "0 < i_length arg" "unat (i_length arg) < 2 ^ 31" "\<And>i. kmalloc i (shift_bytes (i_length arg))"
    and "shift_bytes (i_length arg) \<le> length (i_tms arg)" "shift_bytes (i_length arg) \<le> length (i_tdi arg)"
  shows "\<exists>b'. xil_xvc_ioctl io True kmalloc heap b 0 arg = Inr (- ETIMEDOUT, None, b')"
  by (rule slow_bridge.ioctl_slow) (fact assms)+

theorem ioctl_times_out_witness:
  "\<exists>b'. xil_xvc_ioctl (ref_io delay_tap (0 + 100)) True (\<lambda>_ _. True) (\<lambda>_. 0) sample_view 0 (sample_ioc 36) =
    Inr (- 110, None, b')"
proof -
  have s: "shift_bytes 36 = 5" by (simp add: shift_bytes_def)
  show ?thesis
    using ioctl_times_out [where arg = "sample_ioc 36" and kmalloc = "\<lambda>_ _. True" and heap = "\<lambda>_. 0"
        and b = sample_view, OF slow_ref.slow_bridge_axioms [of delay_tap 0]]
    by (simp add: sample_ioc_def sample_view_def s ETIMEDOUT_def)
qed

text \<open>C36. A length from \<open>0xFFFFFFF9\<close> on wraps in \<open>num_bits + 7\<close>: no bytes are allocated and the shift loop
  reads past the end of the kernel's buffer.\<close>

theorem ioctl_length_wraps:
  assumes "0xFFFFFFF9 \<le> i_length arg" "i_opcode arg = 1 \<or> i_opcode arg = 2" "\<And>i. kmalloc i 0"
  shows "xil_xvc_ioctl io True kmalloc heap b 0 arg = Inl Out_of_bounds"
  using assms by (rule ioctl_wrap)

theorem ioctl_length_wraps_witness:
  "xil_xvc_ioctl (ref_io delay_tap 3) True (\<lambda>_ _. True) (\<lambda>_. 0) sample_view 0 (sample_ioc 0xFFFFFFFF) = Inl Out_of_bounds"
  by (rule ioctl_length_wraps) (simp_all add: sample_ioc_def)

end
