(* ===== verification/Jtag_Base.thy ===== *)
theory Jtag_Base
  imports Jtag_Driver
begin

text \<open>
  The platform driver around the shift, \<open>jtag/zynqMP/src/driver/xvc_driver_base.c\<close>, in the configuration
  of the source (\<open>xvc_user_config.h\<close> is empty: one bridge, found as the resource of the device):
  module initialisation, \<open>probe\<close>, \<open>remove\<close>, module exit, \<open>xil_xvc_cleanup\<close> and the \<open>ioctl\<close> entry. The
  kernel's functions are outside of the program: what they return is the argument \<open>kernel\<close>, and what the
  driver asks of them is the list \<open>calls\<close>. The log messages are left out.
\<close>

section \<open>State\<close>

text \<open>A kernel pointer: NULL, an error number, or an object.\<close>

datatype 'a kptr = Null | Err_ptr int | Ptr 'a

definition IS_ERR :: "'a kptr \<Rightarrow> bool" where
  "IS_ERR p = (case p of Err_ptr e \<Rightarrow> True | _ \<Rightarrow> False)"

datatype kcall =
    Alloc_region | Unregister_region
  | Create_class | Destroy_class "unit kptr"
  | Cdev_add | Cdev_del
  | Create_device nat | Destroy_device nat
  | Ioremap nat | Iounmap nat
  | Register_driver | Unregister_driver

record kernel =
  region_err :: int                           \<comment> \<open>\<open>alloc_chrdev_region\<close>\<close>
  register_err :: int                         \<comment> \<open>\<open>platform_driver_register\<close>\<close>
  new_class :: "unit kptr"                    \<comment> \<open>\<open>class_create\<close>\<close>
  cdev_err :: int                             \<comment> \<open>\<open>cdev_add\<close>\<close>
  new_device :: "unit kptr"                   \<comment> \<open>\<open>device_create\<close>\<close>
  resource_of :: "(64 word \<times> 64 word) option"  \<comment> \<open>\<open>platform_get_resource\<close>: start and size\<close>
  remapped :: "unit kptr"                     \<comment> \<open>\<open>devm_ioremap_resource\<close>\<close>

record driver =
  dev_class :: "unit kptr"
  cdev_owner :: bool
  db_ptr :: "unit kptr"
  db_res :: "(64 word \<times> 64 word) option"
  calls :: "kcall list"

definition driver0 :: driver where
  "driver0 = \<lparr>dev_class = Null, cdev_owner = False, db_ptr = Null, db_res = None, calls = []\<rparr>"

definition call :: "kcall \<Rightarrow> driver \<Rightarrow> driver" where
  "call c d = d\<lparr>calls := calls d @ [c]\<rparr>"

section \<open>Life cycle\<close>

definition xil_xvc_cleanup :: "driver \<Rightarrow> driver" where
  "xil_xvc_cleanup d =
     (if IS_ERR (dev_class d) then d
      else
        let d1 = (call (Destroy_class (dev_class d)) d)\<lparr>dev_class := Null\<rparr>;
            d2 = (if cdev_owner d1 then call Cdev_del d1 else d1)
        in call Unregister_region d2)"

text \<open>The class and the character device, made by the first probe: a status to return, or go on.\<close>

definition make_class :: "kernel \<Rightarrow> driver \<Rightarrow> (int + int) \<times> driver" where
  "make_class e d =
     (let d1 = (call Create_class d)\<lparr>dev_class := new_class e\<rparr> in
      case new_class e of
        Err_ptr n \<Rightarrow> (Inl n, xil_xvc_cleanup d1)
      | _ \<Rightarrow>
          let d2 = call Cdev_add (d1\<lparr>cdev_owner := True\<rparr>)
          in if cdev_err e \<noteq> 0 then (Inl (cdev_err e), xil_xvc_cleanup d2) else (Inr (cdev_err e), d2))"

text \<open>The body of the loop over the bridges; \<open>status\<close> is the variable of \<open>probe\<close>.\<close>

definition probe_bridge :: "kernel \<Rightarrow> int \<Rightarrow> driver \<Rightarrow> int \<times> driver" where
  "probe_bridge e status d =
     (if db_ptr d \<noteq> Null then (0, d)
      else
        let d1 = call (Create_device 0) d in
        if IS_ERR (new_device e) then (status, xil_xvc_cleanup d1)
        else
          let d2 = d1\<lparr>db_res := resource_of e, db_ptr := remapped e\<rparr>
          in if remapped e = Null \<or> IS_ERR (remapped e) then (- ENOMEM, d2) else (0, d2))"

text \<open>\<open>stack\<close> is the value of the uninitialised \<open>status\<close>.\<close>

definition probe :: "kernel \<Rightarrow> int \<Rightarrow> driver \<Rightarrow> int \<times> driver" where
  "probe e stack d =
     (if dev_class d = Null then
        case make_class e d of
          (Inl err, d1) \<Rightarrow> (err, d1)
        | (Inr status, d1) \<Rightarrow> probe_bridge e status d1
      else probe_bridge e stack d)"

definition remove :: "driver \<Rightarrow> int \<times> driver" where
  "remove d =
     (if db_ptr d \<noteq> Null then (0, call (Destroy_device 0) (d\<lparr>db_ptr := Null\<rparr>)) else (0, d))"

definition xil_xvc_init :: "kernel \<Rightarrow> driver \<Rightarrow> int \<times> driver" where
  "xil_xvc_init e d =
     (let d1 = call Alloc_region d in
      if region_err e \<noteq> 0 then (region_err e, xil_xvc_cleanup d1)
      else (register_err e, call Register_driver (d1\<lparr>db_ptr := Null\<rparr>)))"

definition xil_xvc_exit :: "driver \<Rightarrow> driver" where
  "xil_xvc_exit d = xil_xvc_cleanup (call Unregister_driver d)"

section \<open>The entry of the \<open>ioctl\<close>\<close>

datatype ctrl_cmd = XDMA_IOCXVC | XDMA_RDXVC_PROPS | Other_cmd

datatype user_copy = Nothing | Tdo "byte list" | Properties xvc_properties

definition ENOIOCTLCMD :: int where "ENOIOCTLCMD = 515"

text \<open>
  The inode's lock is held around the body, so that shifts do not interleave. A \<open>db_ptr\<close> that is NULL or
  an error number is not the address of a bridge.
\<close>

definition char_ctrl_ioctl ::
    "'b io \<Rightarrow> (nat \<Rightarrow> nat \<Rightarrow> bool) \<Rightarrow> (nat \<Rightarrow> byte) \<Rightarrow> byte list \<Rightarrow> driver \<Rightarrow> 'b \<Rightarrow> ctrl_cmd \<Rightarrow> nat \<Rightarrow> ioc \<Rightarrow> bool \<Rightarrow>
     (int \<times> user_copy \<times> 'b) res" where
  "char_ctrl_ioctl io kmalloc heap stack d b cmd arg_missing arg user_ok =
     (case cmd of
        XDMA_IOCXVC \<Rightarrow>
          and_then (xil_xvc_ioctl io (db_ptr d = Ptr ()) kmalloc heap b arg_missing arg) (\<lambda>(status, out, b').
            Inr (status, (case out of None \<Rightarrow> Nothing | Some bs \<Rightarrow> Tdo bs), b'))
      | XDMA_RDXVC_PROPS \<Rightarrow>
          and_then (xil_xvc_readprops stack
              (Some (case db_res d of
                 None \<Rightarrow> \<lparr>base_addr = 0, db_size = 0\<rparr>
               | Some (start, sz) \<Rightarrow> \<lparr>base_addr = start, db_size = sz\<rparr>)) user_ok) (\<lambda>(status, p).
            Inr (status, (case p of None \<Rightarrow> Nothing | Some x \<Rightarrow> Properties x), b))
      | Other_cmd \<Rightarrow> Inr (- ENOIOCTLCMD, Nothing, b))"

section \<open>What the calls balance to\<close>

definition balance :: "kcall \<Rightarrow> kcall \<Rightarrow> driver \<Rightarrow> int" where
  "balance get put d = int (count_list (calls d) get) - int (count_list (calls d) put)"

text \<open>
  The module between initialisation and exit: devices come and go. The kernel counts the devices the
  driver is bound to: a probe that returns 0 binds one, and \<open>remove\<close> is called for a bound one only.
\<close>

datatype event = Probe kernel int | Remove

fun attend :: "event \<Rightarrow> driver \<times> nat \<Rightarrow> driver \<times> nat" where
  "attend (Probe e stack) (d, bound) =
     (case probe e stack d of (status, d') \<Rightarrow> (d', if status = 0 then Suc bound else bound))"
| "attend Remove (d, bound) = (if bound = 0 then (d, bound) else (snd (remove d), bound - 1))"

text \<open>\<open>platform_driver_unregister\<close>, which the exit calls first, removes the devices that are still bound.\<close>

definition detach :: "nat \<Rightarrow> driver \<Rightarrow> driver" where
  "detach bound d = ((\<lambda>d. snd (remove d)) ^^ bound) d"

text \<open>
  The kernel makes the class, the character device and the device when it is asked to. The mapping may fail:
  \<open>devm_ioremap_resource\<close> answers with an error pointer then, never with NULL.
\<close>

fun made_devices :: "event \<Rightarrow> bool" where
  "made_devices (Probe e stack) \<longleftrightarrow>
     new_class e = Ptr () \<and> cdev_err e = 0 \<and> new_device e = Ptr () \<and> remapped e \<noteq> Null"
| "made_devices Remove \<longleftrightarrow> True"

definition driver_ok :: "driver \<Rightarrow> bool" where
  "driver_ok d \<longleftrightarrow>
     (dev_class d = Null \<or> dev_class d = Ptr ()) \<and> (cdev_owner d \<longleftrightarrow> dev_class d = Ptr ()) \<and>
     balance Create_class (Destroy_class (Ptr ())) d = (if dev_class d = Ptr () then 1 else 0) \<and>
     balance Cdev_add Cdev_del d = (if cdev_owner d then 1 else 0) \<and>
     balance Alloc_region Unregister_region d = 1 \<and>
     balance (Create_device 0) (Destroy_device 0) d = (if db_ptr d = Null then 0 else 1) \<and>
     (db_ptr d \<noteq> Null \<longrightarrow> dev_class d = Ptr ())"

definition life_ok :: "driver \<times> nat \<Rightarrow> bool" where
  "life_ok s \<longleftrightarrow> driver_ok (fst s) \<and> (db_ptr (fst s) = Ptr () \<longrightarrow> 0 < snd s)"

lemma probe_ok:
  assumes "driver_ok d" "made_devices (Probe e stack)"
  shows "driver_ok (snd (probe e stack d)) \<and> (db_ptr (snd (probe e stack d)) = Ptr () \<longrightarrow> fst (probe e stack d) = 0)"
  using assms
  by (auto simp: driver_ok_def probe_def make_class_def probe_bridge_def call_def balance_def IS_ERR_def
      Let_def split: kptr.splits)

lemma remove_ok: "driver_ok d \<Longrightarrow> driver_ok (snd (remove d)) \<and> db_ptr (snd (remove d)) = Null"
  by (auto simp: driver_ok_def remove_def call_def balance_def)

lemma attend_ok: "life_ok s \<Longrightarrow> made_devices ev \<Longrightarrow> life_ok (attend ev s)"
proof (cases s)
  fix d n assume s: "s = (d, n)" "life_ok s" "made_devices ev"
  then show ?thesis
    using probe_ok [of d] remove_ok [of d]
    by (cases ev) (fastforce simp: life_ok_def case_prod_beta simp del: made_devices.simps)+
qed

lemma life_ok_events: "life_ok s \<Longrightarrow> \<forall>ev \<in> set evs. made_devices ev \<Longrightarrow> life_ok (fold attend evs s)"
  by (induction evs arbitrary: s) (simp_all add: attend_ok)

lemma detach_ok: "driver_ok d \<Longrightarrow> driver_ok (detach n d) \<and> db_ptr (detach n d) = (if n = 0 then db_ptr d else Null)"
  by (induction n) (simp_all add: detach_def remove_ok)

lemma exit_releases:
  assumes "driver_ok d"
  shows "balance Alloc_region Unregister_region (xil_xvc_exit d) = 0" "balance Cdev_add Cdev_del (xil_xvc_exit d) = 0"
    "balance Create_class (Destroy_class (Ptr ())) (xil_xvc_exit d) = 0"
    "balance (Create_device 0) (Destroy_device 0) (xil_xvc_exit d) = (if db_ptr d = Null then 0 else 1)"
  using assms
  by (auto simp: driver_ok_def xil_xvc_exit_def xil_xvc_cleanup_def IS_ERR_def call_def balance_def)

text \<open>C25. In every life of the module in which the kernel makes the class, the character device and the devices it is
  asked for, over any probes, with mappings that succeed or fail, and any removals: before the exit there is
  a device node exactly while \<open>db_ptrs\<close> is not NULL, be it a bridge or the error pointer of a failed mapping; and
  the exit, with the removals of the bound devices it brings about, leaves the region, the class and the
  character device released exactly as often as they were acquired. The device node is released, too, except
  in one case: when no device is bound at the exit and the last mapping failed, the node is left behind.\<close>

theorem driver_releases_everything:
  assumes "region_err e = 0" "\<forall>ev \<in> set evs. made_devices ev"
  shows "let (d, bound) = fold attend evs (snd (xil_xvc_init e driver0), 0); d' = xil_xvc_exit (detach bound d) in
    balance (Create_device 0) (Destroy_device 0) d = (if db_ptr d = Null then 0 else 1) \<and>
    balance Alloc_region Unregister_region d' = 0 \<and> balance Cdev_add Cdev_del d' = 0 \<and>
    balance Create_class (Destroy_class (Ptr ())) d' = 0 \<and>
    balance (Create_device 0) (Destroy_device 0) d' = (if bound = 0 \<and> IS_ERR (db_ptr d) then 1 else 0)"
proof -
  obtain d n where s: "fold attend evs (snd (xil_xvc_init e driver0), 0) = (d, n)" by fastforce
  have "life_ok (snd (xil_xvc_init e driver0), 0)"
    using assms(1) by (simp add: life_ok_def driver_ok_def xil_xvc_init_def driver0_def call_def balance_def Let_def)
  from life_ok_events [OF this assms(2)] have ok: "driver_ok d" and b: "db_ptr d = Ptr () \<longrightarrow> 0 < n"
    by (simp_all add: s life_ok_def)
  have "n = 0 \<Longrightarrow> db_ptr d \<noteq> Null \<longleftrightarrow> IS_ERR (db_ptr d)" using b by (cases "db_ptr d") (auto simp: IS_ERR_def)
  with ok exit_releases [of "detach n d"] detach_ok [OF ok, of n] show ?thesis
    by (auto simp: s driver_ok_def)
qed

definition sample_kernel :: kernel where
  "sample_kernel = \<lparr>region_err = 0, register_err = 0, new_class = Ptr (), cdev_err = 0, new_device = Ptr (),
     resource_of = Some (0xA0000000, 0x10000), remapped = Ptr ()\<rparr>"

definition unmapped_kernel :: kernel where
  "unmapped_kernel = sample_kernel\<lparr>remapped := Err_ptr (- 12)\<rparr>"

theorem driver_releases_everything_witness:
  "(let (d, bound) = fold attend [Probe sample_kernel 7, Remove, Probe sample_kernel 7] (snd (xil_xvc_init sample_kernel driver0), 0);
       d' = xil_xvc_exit (detach bound d)
    in bound = 1 \<and> balance (Create_device 0) (Destroy_device 0) d = 1 \<and> balance Alloc_region Unregister_region d' = 0 \<and>
      balance Cdev_add Cdev_del d' = 0 \<and> balance Create_class (Destroy_class (Ptr ())) d' = 0 \<and>
      balance (Create_device 0) (Destroy_device 0) d' = 0) \<and>
   (let (d, bound) = fold attend [Probe unmapped_kernel 7] (snd (xil_xvc_init sample_kernel driver0), 0)
   in bound = 0 \<and> balance (Create_device 0) (Destroy_device 0) (xil_xvc_exit (detach bound d)) = 1)"
  using driver_releases_everything [of sample_kernel "[Probe sample_kernel 7, Remove, Probe sample_kernel 7]"]
    driver_releases_everything [of sample_kernel "[Probe unmapped_kernel 7]"]
  by (simp add: sample_kernel_def unmapped_kernel_def Let_def probe_def make_class_def probe_bridge_def remove_def call_def
      IS_ERR_def xil_xvc_init_def driver0_def ENOMEM_def)

text \<open>C39. When the first \<open>probe\<close> makes the class and the character device but \<open>device_create\<close> fails, the driver
  releases the region and the character device and \<open>probe\<close> still returns 0; the exit of the module then
  deletes the character device and the region a second time.\<close>

theorem failed_probe_succeeds:
  assumes "region_err e = 0" "new_class e = Ptr ()" "cdev_err e = 0" "IS_ERR (new_device e)"
  shows "let (status, d) = probe e stack (snd (xil_xvc_init e driver0)) in
    status = 0 \<and> db_ptr d = Null \<and> balance Alloc_region Unregister_region d = 0 \<and>
    balance Cdev_add Cdev_del (xil_xvc_exit d) = - 1 \<and>
    balance Alloc_region Unregister_region (xil_xvc_exit d) = - 1"
  using assms
  by (simp add: probe_def make_class_def probe_bridge_def xil_xvc_init_def xil_xvc_exit_def xil_xvc_cleanup_def
      driver0_def call_def balance_def IS_ERR_def Let_def)

theorem failed_probe_succeeds_witness:
  "let (status, d) = probe (sample_kernel\<lparr>new_device := Err_ptr (- 12)\<rparr>) 7
       (snd (xil_xvc_init (sample_kernel\<lparr>new_device := Err_ptr (- 12)\<rparr>) driver0)) in
    status = 0 \<and> db_ptr d = Null \<and> balance Alloc_region Unregister_region d = 0 \<and>
    balance Cdev_add Cdev_del (xil_xvc_exit d) = - 1 \<and>
    balance Alloc_region Unregister_region (xil_xvc_exit d) = - 1"
  by (rule failed_probe_succeeds) (simp_all add: sample_kernel_def IS_ERR_def)

end
