(* ===== verification/Jtag_Session.thy ===== *)
theory Jtag_Session
  imports Jtag_Bridge Sock
begin

text \<open>
  What the \<open>xvcServer.c\<close> of \<open>jtag/zynqMP/src/user\<close> and of \<open>jtag/zynq7000/XAPP1251/src\<close> share:
  \<open>sread\<close> and the protocol part of \<open>handle_data\<close>, which differ only in the sizes of the buffers and in
  how a shift is done. The record \<open>data_server\<close> holds these; the theories \<open>Jtag_User\<close> and \<open>Jtag_Mmap\<close>
  fill it in. The locale \<open>jtag_shifter\<close> is what \<open>handle_data\<close> relies on to shift, and the conversation
  theorem is proved once inside it.
\<close>

section \<open>Reading\<close>

text \<open>\<open>read\<close> until all bytes are there: 1, or what \<open>read\<close> returned at end of file or on an error.\<close>

function sread_loop :: "nat \<Rightarrow> byte list \<Rightarrow> sock \<Rightarrow> int \<times> byte list \<times> sock" where
  "sread_loop n acc k =
     (if n = 0 then (1, acc, k)
      else case sock_recv n k of
        (Got bs, k') \<Rightarrow> sread_loop (n - length bs) (acc @ bs) k'
      | (Eof, k') \<Rightarrow> (0, acc, k')
      | (Recv_error, k') \<Rightarrow> (- 1, acc, k'))"
  by pat_completeness auto
termination
  by (relation "measure (\<lambda>(n, acc, k). n)") (auto dest!: sock_recv_Got [OF sym])

declare sread_loop.simps [simp del]

definition sread :: "nat \<Rightarrow> sock \<Rightarrow> int \<times> byte list \<times> sock" where
  "sread n k = sread_loop n [] k"

lemma sread_loop_frame:
  assumes "sread_loop n acc k = (r, bs, k')"
  shows "tx k' = tx k \<and> sends_ok k' = sends_ok k \<and> rx_error k' = rx_error k \<and> rx_total k' \<le> rx_total k \<and>
    (r = 1 \<longrightarrow> length bs = length acc + n \<and> rx_total k = rx_total k' + n) \<and> r \<in> {1, 0, - 1}"
  using assms
proof (induction n acc k arbitrary: r bs k' rule: sread_loop.induct)
  case (1 n acc k)
  show ?case
  proof (cases "n = 0")
    case True
    then show ?thesis using "1.prems" by (auto simp: sread_loop.simps [of 0])
  next
    case False
    obtain g k1 where g: "sock_recv n k = (g, k1)" by force
    show ?thesis
    proof (cases g)
      case (Got xs)
      with g have f: "0 < length xs \<and> length xs \<le> n \<and> rx_total k = rx_total k1 + length xs \<and> tx k1 = tx k \<and>
          sends_ok k1 = sends_ok k \<and> rx_error k1 = rx_error k"
        by (auto dest!: sock_recv_Got)
      have "sread_loop (n - length xs) (acc @ xs) k1 = (r, bs, k')"
        using "1.prems" False g Got by (simp add: sread_loop.simps [of n])
      from "1.IH" [OF False g [unfolded Got, symmetric] refl this] f show ?thesis by auto
    next
      case Eof
      then show ?thesis using "1.prems" False g
        by (auto simp: sread_loop.simps [of n] sock_recv_def rx_total_def split: if_split_asm list.split_asm)
    next
      case Recv_error
      then show ?thesis using "1.prems" False g
        by (auto simp: sread_loop.simps [of n] sock_recv_def rx_total_def split: if_split_asm list.split_asm)
    qed
  qed
qed

lemmas sread_frame = sread_loop_frame [where acc = "[]", folded sread_def, simplified]

text \<open>A socket that still delivers \<open>xs\<close>, in some segmentation.\<close>

definition pending :: "sock \<Rightarrow> byte list \<Rightarrow> bool" where
  "pending k xs \<longleftrightarrow> concat (rx k) = xs \<and> [] \<notin> set (rx k)"

lemma sock_recv_pending:
  assumes "pending k xs" "0 < n" "xs \<noteq> []"
  shows "\<exists>bs k'. sock_recv n k = (Got bs, k') \<and> 0 < length bs \<and> length bs \<le> n \<and> bs = take (length bs) xs \<and>
    pending k' (drop (length bs) xs) \<and> tx k' = tx k \<and> sends_ok k' = sends_ok k \<and> rx_error k' = rx_error k"
proof -
  from assms obtain seg segs where r: "rx k = seg # segs" and s: "seg \<noteq> []"
    by (cases "rx k") (auto simp: pending_def)
  show ?thesis
    using assms r s by (auto simp: sock_recv_def pending_def)
qed

lemma sread_loop_pending:
  assumes "pending k (xs @ ys)" "length xs = n"
  shows "\<exists>k'. sread_loop n acc k = (1, acc @ xs, k') \<and> pending k' ys \<and> tx k' = tx k \<and> sends_ok k' = sends_ok k"
  using assms
proof (induction n arbitrary: acc k xs rule: less_induct)
  case (less n)
  show ?case
  proof (cases "n = 0")
    case True
    then show ?thesis using less.prems by (simp add: sread_loop.simps)
  next
    case False
    then have "xs @ ys \<noteq> []" "0 < n" using less.prems by auto
    from sock_recv_pending [OF less.prems(1) this(2,1)] obtain bs k1 where
      r: "sock_recv n k = (Got bs, k1)" and b: "0 < length bs" "length bs \<le> n" "bs = take (length bs) (xs @ ys)"
        "pending k1 (drop (length bs) (xs @ ys))" "tx k1 = tx k" "sends_ok k1 = sends_ok k" by blast
    have xs: "xs = bs @ drop (length bs) xs" using b(2,3) less.prems(2) by (metis append_take_drop_id append_eq_append_conv_if)
    have p: "pending k1 (drop (length bs) xs @ ys)" using b(2,4) less.prems(2) by simp
    have l: "n - length bs < n" "length (drop (length bs) xs) = n - length bs" using b False less.prems(2) by auto
    from less.IH [OF l(1) p l(2), of "acc @ bs"] obtain k' where
      "sread_loop (n - length bs) (acc @ bs) k1 = (1, (acc @ bs) @ drop (length bs) xs, k')" "pending k' ys"
      "tx k' = tx k1" "sends_ok k' = sends_ok k1" by blast
    then show ?thesis using False r b(5,6) xs by (simp add: sread_loop.simps [of n])
  qed
qed

lemma sread_pending:
  "pending k (xs @ ys) \<Longrightarrow> length xs = n \<Longrightarrow>
   \<exists>k'. sread n k = (1, xs, k') \<and> pending k' ys \<and> tx k' = tx k \<and> sends_ok k' = sends_ok k"
  using sread_loop_pending [of k xs ys n "[]"] by (simp add: sread_def)

section \<open>The protocol\<close>

text \<open>
  \<open>ds_shift len nr_bytes buffer result\<close> does a shift on the device: a status that is returned if it is not
  0, the content of \<open>result\<close> and the device after it. \<open>ds_buffer\<close> and \<open>ds_result\<close> are the sizes of the
  arrays \<open>buffer\<close> and \<open>result\<close>, whose content is what is on the stack until it is written.
\<close>

record 'b data_server =
  ds_info :: "byte list"
  ds_buffer :: nat
  ds_result :: nat
  ds_shift :: "int \<Rightarrow> nat \<Rightarrow> byte list \<Rightarrow> byte list \<Rightarrow> 'b \<Rightarrow> (int \<times> byte list \<times> 'b) res"

datatype 'b data_step = Again sock 'b | Return int sock 'b

text \<open>C division by 8 rounds towards 0.\<close>

definition div8 :: "int \<Rightarrow> int" where
  "div8 x = (if 0 \<le> x then x div 8 else - (- x div 8))"

text \<open>
  From the length on. \<open>nr_bytes * 2 > sizeof(buffer)\<close> is a comparison of \<open>size_t\<close>: a negative number
  is larger than any buffer.
\<close>

definition shift_request :: "'b data_server \<Rightarrow> (nat \<Rightarrow> byte) \<Rightarrow> sock \<Rightarrow> 'b \<Rightarrow> 'b data_step res" where
  "shift_request D stack k b =
     (case sread 4 k of (r, l, k1) \<Rightarrow>
        if r \<noteq> 1 then Inr (Return 1 k1 b)
        else
          let len = sint (word_of_bytes l) in
          and_then (ensure (len + 7 < 2 ^ 31) Int_overflow) (\<lambda>_.
          let nr_bytes = div8 (len + 7) in
          if nr_bytes < 0 \<or> int (ds_buffer D) < nr_bytes * 2 then Inr (Return 1 k1 b)
          else
            let n = nat nr_bytes in
            case sread (n * 2) k1 of (r, d, k2) \<Rightarrow>
              if r \<noteq> 1 then Inr (Return 1 k2 b)
              else
                and_then (write_at (map stack [0..<ds_buffer D]) 0 d) (\<lambda>buffer.
                and_then (write_at (map stack [0..<ds_result D]) 0 (replicate n 0)) (\<lambda>result.
                and_then (ds_shift D len n buffer result b) (\<lambda>(status, result', b').
                  if status \<noteq> 0 then Inr (Return status k2 b')
                  else
                    and_then (read_range result' 0 n) (\<lambda>out.
                      case sock_send out k2 of (sent, k3) \<Rightarrow>
                        Inr (if sent then Again k3 b' else Return 1 k3 b')))))))"

definition answer :: "'b data_server \<Rightarrow> (nat \<Rightarrow> byte) \<Rightarrow> byte list \<Rightarrow> sock \<Rightarrow> 'b \<Rightarrow> 'b data_step res" where
  "answer D stack bs k b =
     and_then (write_at (map stack [0..<ds_result D]) 0 bs) (\<lambda>result.
     and_then (read_range result 0 (length bs)) (\<lambda>out.
       case sock_send out k of (sent, k1) \<Rightarrow> Inr (Return (if sent then 0 else 1) k1 b)))"

text \<open>One round of \<open>do { ... } while (1)\<close>; \<open>break\<close> is the return of 0.\<close>

definition data_step :: "'b data_server \<Rightarrow> (nat \<Rightarrow> byte) \<Rightarrow> sock \<Rightarrow> 'b \<Rightarrow> 'b data_step res" where
  "data_step D stack k b =
     (case sread 2 k of (r, cmd, k1) \<Rightarrow>
        if r \<noteq> 1 then Inr (Return 1 k1 b)
        else if cmd = bytes_of ''ge'' then
          (case sread 6 k1 of (r, _, k2) \<Rightarrow>
             if r \<noteq> 1 then Inr (Return 1 k2 b) else answer D stack (ds_info D) k2 b)
        else if cmd = bytes_of ''se'' then
          (case sread 9 k1 of (r, cmd, k2) \<Rightarrow>
             if r \<noteq> 1 then Inr (Return 1 k2 b) else answer D stack (take 4 (drop 5 cmd)) k2 b)
        else if cmd = bytes_of ''sh'' then
          (case sread 4 k1 of (r, _, k2) \<Rightarrow>
             if r \<noteq> 1 then Inr (Return 1 k2 b) else shift_request D stack k2 b)
        else Inr (Return 1 k1 b))"

lemma sock_send_rx: "rx_total (snd (sock_send bs k)) = rx_total k"
  using sock_send_frame [of bs k] by (cases "sock_send bs k") auto

lemma shift_request_rx:
  assumes "shift_request D stack k b = Inr (Again k' b')"
  shows "rx_total k' \<le> rx_total k"
proof -
  obtain r l k1 where s1: "sread 4 k = (r, l, k1)" by (metis prod_cases3)
  define n where "n = nat (div8 (sint (word_of_bytes l) + 7))"
  obtain r2 d k2 where s2: "sread (n * 2) k1 = (r2, d, k2)" by (metis prod_cases3)
  have "\<exists>out. k' = snd (sock_send out k2)"
    using assms unfolding shift_request_def Let_def s1 prod.case n_def [symmetric] s2
    by (auto simp: and_then_eq_Inr case_prod_beta split: if_split_asm)
  then show ?thesis using sread_frame [OF s1] sread_frame [OF s2] by (auto simp: sock_send_rx)
qed

lemma answer_returns: "answer D stack bs k b \<noteq> Inr (Again k' b')"
  by (auto simp: answer_def and_then_eq_Inr split: prod.split_asm)

lemma data_step_rx:
  assumes "data_step D stack k b = Inr (Again k' b')"
  shows "rx_total k' < rx_total k"
proof -
  obtain r cmd k1 where s1: "sread 2 k = (r, cmd, k1)" by (metis prod_cases3)
  obtain r2 d k2 where s2: "sread 4 k1 = (r2, d, k2)" by (metis prod_cases3)
  have "r = 1" and s: "shift_request D stack k2 b = Inr (Again k' b')"
    using assms unfolding data_step_def s1 s2 prod.case
    by (auto simp: answer_returns split: if_split_asm prod.split_asm)
  then show ?thesis
    using sread_frame [OF s1] sread_frame [OF s2] shift_request_rx [OF s] by simp
qed

function handle_data :: "'b data_server \<Rightarrow> (nat \<Rightarrow> byte) \<Rightarrow> sock \<Rightarrow> 'b \<Rightarrow> (int \<times> sock \<times> 'b) res" where
  "handle_data D stack k b =
     and_then (data_step D stack k b) (\<lambda>s.
       case s of Again k' b' \<Rightarrow> handle_data D stack k' b' | Return r k' b' \<Rightarrow> Inr (r, k', b'))"
  by pat_completeness auto
termination
  by (relation "measure (\<lambda>(D, stack, k, b). rx_total k)") (auto dest!: data_step_rx)

declare handle_data.simps [simp del]

section \<open>Requests\<close>

datatype jtag_request = Shift nat "byte list" "byte list"  \<comment> \<open>bits, TMS, TDI\<close>

datatype last_request = Getinfo | Settck "byte list"

fun shift_bits_of :: "jtag_request \<Rightarrow> nat" where
  "shift_bits_of (Shift n tms tdi) = n"

fun request_wf :: "jtag_request \<Rightarrow> bool" where
  "request_wf (Shift n tms tdi) \<longleftrightarrow> length tms = (n + 7) div 8 \<and> length tdi = (n + 7) div 8"

fun encode_shift :: "jtag_request \<Rightarrow> byte list" where
  "encode_shift (Shift n tms tdi) = bytes_of ''shift:'' @ le_bytes 4 (word_of_nat n) @ tms @ tdi"

fun last_wf :: "last_request \<Rightarrow> bool" where
  "last_wf Getinfo \<longleftrightarrow> True"
| "last_wf (Settck p) \<longleftrightarrow> length p = 4"

fun encode_last :: "last_request \<Rightarrow> byte list" where
  "encode_last Getinfo = bytes_of ''getinfo:''"
| "encode_last (Settck p) = bytes_of ''settck:'' @ p"

fun answer_of :: "'b data_server \<Rightarrow> last_request \<Rightarrow> byte list" where
  "answer_of D Getinfo = ds_info D"
| "answer_of D (Settck p) = p"

text \<open>The specification: the chain clocked request by request, and what is a reply to the TDO bits.\<close>

fun clock_request :: "'t tap \<Rightarrow> 't \<Rightarrow> jtag_request \<Rightarrow> bool list \<times> 't" where
  "clock_request tap t (Shift n tms tdi) = clock_bits tap t (pins tms tdi 0 n)"

primrec clock_requests :: "'t tap \<Rightarrow> 't \<Rightarrow> jtag_request list \<Rightarrow> bool list list \<times> 't" where
  "clock_requests tap t [] = ([], t)"
| "clock_requests tap t (q # qs) =
     (case clock_request tap t q of (tdo, t1) \<Rightarrow>
      case clock_requests tap t1 qs of (tdos, t2) \<Rightarrow> (tdo # tdos, t2))"

definition holds_bits :: "byte list \<Rightarrow> bool list \<Rightarrow> bool" where
  "holds_bits out bits \<longleftrightarrow>
     length out = (length bits + 7) div 8 \<and> (\<forall>i < length bits. bit_at out i = bits ! i)"

text \<open>A request that is shifted with another number of clocks.\<close>

fun round_request :: "(nat \<Rightarrow> nat) \<Rightarrow> jtag_request \<Rightarrow> jtag_request" where
  "round_request clocks (Shift n tms tdi) = Shift (clocks n) tms tdi"

lemma round_request_same: "round_request (\<lambda>n. n) = (\<lambda>q. q)"
proof
  show "round_request (\<lambda>n. n) q = q" for q by (cases q) simp
qed

section \<open>What a shift has to do\<close>

text \<open>\<open>clocks\<close> is the number of clocks a length takes, within the bytes of the request.\<close>

locale jtag_shifter =
  fixes D :: "'b data_server" and tap :: "'t tap" and chain :: "'b \<Rightarrow> 't" and ready :: "'b \<Rightarrow> bool"
    and good :: "nat \<Rightarrow> bool" and clocks :: "nat \<Rightarrow> nat"
  assumes sizes: "length (ds_info D) \<le> ds_result D" "4 \<le> ds_result D"
    and good: "good n \<Longrightarrow> n + 7 < 2 ^ 31 \<and> 2 * ((n + 7) div 8) \<le> ds_buffer D \<and> (n + 7) div 8 \<le> ds_result D"
    and clocks: "good n \<Longrightarrow> n \<le> clocks n \<and> clocks n \<le> 8 * ((n + 7) div 8)"
    and shifts: "ready b \<Longrightarrow> good n \<Longrightarrow> length buffer = ds_buffer D \<Longrightarrow> length result = ds_result D \<Longrightarrow>
      \<exists>result' b'. ds_shift D (int n) ((n + 7) div 8) buffer result b = Inr (0, result', b') \<and>
        length result' = ds_result D \<and> ready b' \<and>
        chain b' = snd (clock_bits tap (chain b) (pins buffer (drop ((n + 7) div 8) buffer) 0 (clocks n))) \<and>
        (\<forall>i < clocks n. bit_at result' i = fst (clock_bits tap (chain b) (pins buffer (drop ((n + 7) div 8) buffer) 0 (clocks n))) ! i)"

lemma word_of_le_bytes: "word_of_bytes (le_bytes 4 w) = w"
  by (intro bit_word_eqI) (auto simp: bit_word_of_bytes bit_at_le_bytes)

lemma div8_nat: "div8 (int n + 7) = int ((n + 7) div 8)"
  by (simp add: div8_def zdiv_int)

lemma sint_word_of_nat_32: "n < 2 ^ 31 \<Longrightarrow> sint (word_of_nat n :: 32 word) = int n"
  by (simp add: signed_of_nat signed_take_bit_int_eq_self)

lemma bit_at_cong_take: "take m xs = take m ys \<Longrightarrow> i < 8 * m \<Longrightarrow> bit_at xs i = bit_at ys i"
proof -
  assume t: "take m xs = take m ys" and "i < 8 * m"
  then have "i div 8 < m" by (simp add: less_mult_imp_div_less mult.commute)
  with t show ?thesis by (metis bit_at_def nth_take)
qed

lemma pins_of_data:
  assumes "take (2 * m) buffer = tms @ tdi" "length tms = m" "length tdi = m" "n \<le> 8 * m"
  shows "pins buffer (drop m buffer) 0 n = pins tms tdi 0 n"
proof -
  have "take m buffer = take m tms"
    using arg_cong [OF assms(1), of "take m"] assms(2) by (simp add: min_def)
  moreover have "take m (drop m buffer) = take m tdi"
    using arg_cong [OF assms(1), of "drop m"] assms(2,3) by (simp add: drop_take)
  ultimately have "bit_at buffer i = bit_at tms i" "bit_at (drop m buffer) i = bit_at tdi i" if "i < n" for i
    using assms(4) that by (auto simp only: intro!: bit_at_cong_take [where m = m])
  then show ?thesis by (simp add: pins_def)
qed

lemma holds_bits_take:
  assumes "\<forall>i < n. bit_at out i = bits ! i" "length bits = n" "(n + 7) div 8 \<le> length out"
  shows "holds_bits (take ((n + 7) div 8) out) bits"
proof -
  have "bit_at (take ((n + 7) div 8) out) i = bit_at out i" if "i < n" for i
    using that by (intro bit_at_cong_take [where m = "(n + 7) div 8"]) auto
  then show ?thesis using assms by (simp add: holds_bits_def)
qed

lemma answer_sends:
  assumes "length bs \<le> ds_result D" "0 < sends_ok k"
  shows "\<exists>k'. answer D stack bs k b = Inr (Return 0 k' b) \<and> tx k' = tx k @ [bs] \<and> rx k' = rx k"
  using assms by (auto simp: answer_def write_at_def read_range_def sock_send_def)

lemma pending_frame: "rx k' = rx k \<Longrightarrow> pending k' xs = pending k xs"
  by (simp add: pending_def)

text \<open>What \<open>data_step\<close> comes down to once a whole shift request is read.\<close>

lemma data_step_shift:
  assumes "n + 7 < 2 ^ 31" "2 * ((n + 7) div 8) \<le> ds_buffer D" "request_wf (Shift n tms tdi)"
    and "pending k (encode_shift (Shift n tms tdi) @ rest)"
  shows "\<exists>k'. pending k' rest \<and> tx k' = tx k \<and> sends_ok k' = sends_ok k \<and>
    data_step D stack k b =
      and_then (write_at (map stack [0..<ds_buffer D]) 0 (tms @ tdi)) (\<lambda>buffer.
      and_then (write_at (map stack [0..<ds_result D]) 0 (replicate ((n + 7) div 8) 0)) (\<lambda>result.
      and_then (ds_shift D (int n) ((n + 7) div 8) buffer result b) (\<lambda>(status, result', b').
        if status \<noteq> 0 then Inr (Return status k' b')
        else
          and_then (read_range result' 0 ((n + 7) div 8)) (\<lambda>out.
            case sock_send out k' of (sent, k3) \<Rightarrow> Inr (if sent then Again k3 b' else Return 1 k3 b')))))"
proof -
  let ?m = "(n + 7) div 8" and ?l = "le_bytes 4 (word_of_nat n)"
  have len: "length tms = ?m" "length tdi = ?m" using assms(3) by simp_all
  have p0: "pending k (bytes_of ''sh'' @ bytes_of ''ift:'' @ ?l @ (tms @ tdi) @ rest)"
    using assms(4) by (simp add: bytes_of_def)
  obtain k1 where s1: "sread 2 k = (1, bytes_of ''sh'', k1)" and p1: "pending k1 (bytes_of ''ift:'' @ ?l @ (tms @ tdi) @ rest)"
    and f1: "tx k1 = tx k" "sends_ok k1 = sends_ok k" using sread_pending [OF p0, of 2] by auto
  obtain k2 where s2: "sread 4 k1 = (1, bytes_of ''ift:'', k2)" and p2: "pending k2 (?l @ (tms @ tdi) @ rest)"
    and f2: "tx k2 = tx k" "sends_ok k2 = sends_ok k" using sread_pending [OF p1, of 4] f1 by auto
  obtain k3 where s3: "sread 4 k2 = (1, ?l, k3)" and p3: "pending k3 ((tms @ tdi) @ rest)"
    and f3: "tx k3 = tx k" "sends_ok k3 = sends_ok k" using sread_pending [OF p2, of 4] f2 by auto
  obtain k4 where s4: "sread (?m * 2) k3 = (1, tms @ tdi, k4)" and p4: "pending k4 rest"
    and f4: "tx k4 = tx k" "sends_ok k4 = sends_ok k" using sread_pending [OF p3, of "?m * 2"] f3 len by auto
  have si: "sint (word_of_bytes ?l) = int n" using assms(1) by (simp add: word_of_le_bytes sint_word_of_nat_32)
  have no: "\<not> (int ?m < 0 \<or> int (ds_buffer D) < int ?m * 2)" using assms(2) by linarith
  have ov: "ensure (int n + 7 < 2 ^ 31) Int_overflow = Inr ()" using assms(1) by (simp add: ensure_def)
  have "data_step D stack k b = shift_request D stack k2 b"
    unfolding data_step_def s1 prod.case by (simp add: s2 bytes_of_def)
  then show ?thesis
    using p4 f4 no
    unfolding shift_request_def Let_def s3 prod.case si div8_nat nat_int s4 ov and_then_simps if_not_P [OF no]
    by (intro exI [of _ k4]) simp
qed

context jtag_shifter
begin

lemma request_step:
  assumes "ready b" "good (shift_bits_of q)" "request_wf q" "pending k (encode_shift q @ rest)" "0 < sends_ok k"
  shows "\<exists>k' b' out. data_step D stack k b = Inr (Again k' b') \<and> pending k' rest \<and> tx k' = tx k @ [out] \<and>
    sends_ok k' = sends_ok k - 1 \<and> ready b' \<and> holds_bits out (fst (clock_request tap (chain b) (round_request clocks q))) \<and>
    chain b' = snd (clock_request tap (chain b) (round_request clocks q))"
proof -
  obtain n tms tdi where q: "q = Shift n tms tdi" by (cases q)
  let ?m = "(n + 7) div 8" and ?n = "clocks n"
  have g: "n + 7 < 2 ^ 31" "2 * ?m \<le> ds_buffer D" "?m \<le> ds_result D" using good assms(2) by (simp_all add: q)
  have c: "n \<le> ?n" "?n \<le> 8 * ?m" using clocks assms(2) by (auto simp: q)
  have cm: "(?n + 7) div 8 = ?m"
    using div_le_mono [of "n + 7" "?n + 7" 8] div_le_mono [of "?n + 7" "8 * ?m + 7" 8] c by simp
  have len: "length tms = ?m" "length tdi = ?m" using assms(3) by (simp_all add: q)
  obtain k4 where p4: "pending k4 rest" and f4: "tx k4 = tx k" "sends_ok k4 = sends_ok k"
    and step: "data_step D stack k b =
      and_then (write_at (map stack [0..<ds_buffer D]) 0 (tms @ tdi)) (\<lambda>buffer.
      and_then (write_at (map stack [0..<ds_result D]) 0 (replicate ?m 0)) (\<lambda>result.
      and_then (ds_shift D (int n) ?m buffer result b) (\<lambda>(status, result', b').
        if status \<noteq> 0 then Inr (Return status k4 b')
        else
          and_then (read_range result' 0 ?m) (\<lambda>out.
            case sock_send out k4 of (sent, k3) \<Rightarrow> Inr (if sent then Again k3 b' else Return 1 k3 b')))))"
    using data_step_shift [OF g(1,2) assms(3,4) [unfolded q], of stack b] by blast
  obtain buffer where wb: "write_at (map stack [0..<ds_buffer D]) 0 (tms @ tdi) = Inr buffer"
    using g(2) len by (simp add: write_at_def)
  obtain result where wr: "write_at (map stack [0..<ds_result D]) 0 (replicate ?m 0) = Inr result"
    using g(3) by (simp add: write_at_def)
  have lb: "length buffer = ds_buffer D" "length result = ds_result D"
    using length_write_at [OF wb] length_write_at [OF wr] by simp_all
  have "take (2 * ?m) buffer = tms @ tdi"
    using read_write_same [OF wb] len by (simp add: read_range_def mult_2 split: if_split_asm)
  then have pins: "pins buffer (drop ?m buffer) 0 ?n = pins tms tdi 0 ?n" using len c(2) by (rule pins_of_data)
  let ?r = "clock_bits tap (chain b) (pins tms tdi 0 ?n)"
  from shifts [OF assms(1) _ lb, of n] assms(2) obtain result' b' where
    sh: "ds_shift D (int n) ?m buffer result b = Inr (0, result', b')" and
    o: "length result' = ds_result D" "ready b'" "chain b' = snd ?r" "\<forall>i < ?n. bit_at result' i = fst ?r ! i"
    unfolding pins by (auto simp: q)
  let ?out = "take ?m result'"
  have rd: "read_range result' 0 ?m = Inr ?out" using o(1) g(3) by (simp add: read_range_def)
  obtain k5 where s5: "sock_send ?out k4 = (True, k5)" and f5: "tx k5 = tx k @ [?out]" "rx k5 = rx k4"
    "sends_ok k5 = sends_ok k - 1" using f4 assms(5) by (simp add: sock_send_def)
  have "data_step D stack k b = Inr (Again k5 b')" unfolding step wb wr and_then_simps sh prod.case by (simp add: rd s5)
  moreover have "holds_bits ?out (fst ?r)" 
    using o(1,4) g(3) unfolding cm [symmetric] by (intro holds_bits_take) simp_all
  moreover have "pending k5 rest" using p4 pending_frame [OF f5(2)] by simp
  ultimately show ?thesis using f5 o by (auto simp: q)
qed

lemma last_step:
  assumes "last_wf e" "pending k (encode_last e @ rest)" "0 < sends_ok k"
  shows "\<exists>k'. data_step D stack k b = Inr (Return 0 k' b) \<and> pending k' rest \<and> tx k' = tx k @ [answer_of D e]"
proof (cases e)
  case Getinfo
  have p0: "pending k (bytes_of ''ge'' @ bytes_of ''tinfo:'' @ rest)" using assms(2) by (simp add: Getinfo bytes_of_def)
  obtain k1 where s1: "sread 2 k = (1, bytes_of ''ge'', k1)" and p1: "pending k1 (bytes_of ''tinfo:'' @ rest)"
    and f1: "tx k1 = tx k" "sends_ok k1 = sends_ok k" using sread_pending [OF p0, of 2] by auto
  obtain k2 where s2: "sread 6 k1 = (1, bytes_of ''tinfo:'', k2)" and p2: "pending k2 rest"
    and f2: "tx k2 = tx k" "0 < sends_ok k2" using sread_pending [OF p1, of 6] f1 assms(3) by auto
  from answer_sends [OF sizes(1) f2(2), of stack b] obtain k3 where
    "answer D stack (ds_info D) k2 b = Inr (Return 0 k3 b)" "tx k3 = tx k @ [ds_info D]" "rx k3 = rx k2"
    using f2 by auto
  then show ?thesis
    using p2 pending_frame [of k3 k2 rest] unfolding data_step_def s1 prod.case by (simp add: s2 Getinfo)
next
  case (Settck p)
  have p0: "pending k (bytes_of ''se'' @ (bytes_of ''ttck:'' @ p) @ rest)"
    using assms(2) by (simp add: Settck bytes_of_def)
  have l: "length p = 4" using assms(1) by (simp add: Settck)
  obtain k1 where s1: "sread 2 k = (1, bytes_of ''se'', k1)" and p1: "pending k1 ((bytes_of ''ttck:'' @ p) @ rest)"
    and f1: "tx k1 = tx k" "sends_ok k1 = sends_ok k" using sread_pending [OF p0, of 2] by auto
  obtain k2 where s2: "sread 9 k1 = (1, bytes_of ''ttck:'' @ p, k2)" and p2: "pending k2 rest"
    and f2: "tx k2 = tx k" "0 < sends_ok k2" using sread_pending [OF p1, of 9] f1 assms(3) l by auto
  have d: "take 4 (drop 5 (bytes_of ''ttck:'' @ p)) = p" using l by simp
  have lp: "length p \<le> ds_result D" using l sizes(2) by simp
  from answer_sends [OF lp f2(2), of stack b] obtain k3 where
    "answer D stack p k2 b = Inr (Return 0 k3 b)" "tx k3 = tx k @ [p]" "rx k3 = rx k2"
    using f2 by auto
  then show ?thesis
    using p2 pending_frame [of k3 k2 rest] unfolding data_step_def s1 prod.case by (simp add: s2 d l Settck bytes_of_def)
qed

text \<open>A call of \<open>handle_data\<close>: shifts, answered one by one, up to the request that ends the call.\<close>

lemma conversation:
  assumes "ready b" "\<forall>q \<in> set qs. good (shift_bits_of q) \<and> request_wf q" "last_wf e"
    and "pending k (concat (map encode_shift qs) @ encode_last e @ rest)" "length qs < sends_ok k"
  shows "\<exists>k' b' outs. handle_data D stack k b = Inr (0, k', b') \<and> tx k' = tx k @ outs @ [answer_of D e] \<and>
    list_all2 holds_bits outs (fst (clock_requests tap (chain b) (map (round_request clocks) qs))) \<and>
    chain b' = snd (clock_requests tap (chain b) (map (round_request clocks) qs)) \<and> ready b' \<and> pending k' rest"
  using assms
proof (induction qs arbitrary: k b)
  case Nil
  then have "pending k (encode_last e @ rest)" "0 < sends_ok k" by auto
  from last_step [OF assms(3) this, of stack b] obtain k' where
    "data_step D stack k b = Inr (Return 0 k' b)" "pending k' rest" "tx k' = tx k @ [answer_of D e]" by blast
  with Nil.prems(1) show ?case by (simp add: handle_data.simps [of D stack k])
next
  case (Cons q qs)
  have p: "pending k (encode_shift q @ concat (map encode_shift qs) @ encode_last e @ rest)" "0 < sends_ok k"
    "good (shift_bits_of q)" "request_wf q" using Cons.prems by auto
  from request_step [OF Cons.prems(1) p(3,4,1,2), of stack] obtain k1 b1 out where
    s: "data_step D stack k b = Inr (Again k1 b1)" and p1: "pending k1 (concat (map encode_shift qs) @ encode_last e @ rest)"
    and o: "tx k1 = tx k @ [out]" "sends_ok k1 = sends_ok k - 1" "ready b1"
      "holds_bits out (fst (clock_request tap (chain b) (round_request clocks q)))" "chain b1 = snd (clock_request tap (chain b) (round_request clocks q))"
    by blast
  have "\<forall>q \<in> set qs. good (shift_bits_of q) \<and> request_wf q" "length qs < sends_ok k1" using Cons.prems o(2) by auto
  from Cons.IH [OF o(3) this(1) assms(3) p1 this(2)] obtain k' b' outs where
    "handle_data D stack k1 b1 = Inr (0, k', b')" "tx k' = tx k1 @ outs @ [answer_of D e]"
    "list_all2 holds_bits outs (fst (clock_requests tap (chain b1) (map (round_request clocks) qs)))"
    "chain b' = snd (clock_requests tap (chain b1) (map (round_request clocks) qs))" "ready b'" "pending k' rest" by blast
  then show ?case
    using s o
    by (intro exI [of _ k'] exI [of _ b'] exI [of _ "out # outs"])
       (simp add: handle_data.simps [of D stack k] case_prod_beta)
qed

end

end
