(* ===== verification/Jtag_User.thy ===== *)
theory Jtag_User
  imports Jtag_Base Jtag_Session
begin

text \<open>
  The server of \<open>jtag/zynqMP/src/user/xvcServer.c\<close> as its Makefile builds it (\<open>USE_IOCTL\<close>): a shift is one
  \<open>ioctl\<close> on the driver of \<open>Jtag_Base\<close>, and the driver meets the contract of \<open>Jtag_Session\<close>.
\<close>

text \<open>
  \<open>beyond\<close> is what can be read of the stack after \<open>buffer\<close> and \<open>room\<close> how much could be written after
  \<open>result\<close>. The kernel returns a negative error as \<open>errno\<close>; other values are a success to the caller.
\<close>

definition ioctl_shift ::
    "'b io \<Rightarrow> (nat \<Rightarrow> nat \<Rightarrow> bool) \<Rightarrow> (nat \<Rightarrow> byte) \<Rightarrow> driver \<Rightarrow> byte list \<Rightarrow> nat \<Rightarrow>
     int \<Rightarrow> nat \<Rightarrow> byte list \<Rightarrow> byte list \<Rightarrow> 'b \<Rightarrow> (int \<times> byte list \<times> 'b) res" where
  "ioctl_shift io kmalloc heap drv beyond room len nr_bytes buffer result b =
     and_then (char_ctrl_ioctl io kmalloc heap [] drv b XDMA_IOCXVC 0
        \<lparr>i_opcode = 1, i_length = word_of_int len, i_tms = buffer @ beyond, i_tdi = drop nr_bytes buffer @ beyond,
         i_tdo_room = length result + room\<rparr> True) (\<lambda>(status, out, b').
     and_then (case out of Tdo bs \<Rightarrow> write_at result 0 bs | _ \<Rightarrow> Inr result) (\<lambda>result'.
       Inr (if status < 0 then - status else 0, result', b')))"

definition zynqmp_server ::
    "'b io \<Rightarrow> (nat \<Rightarrow> nat \<Rightarrow> bool) \<Rightarrow> (nat \<Rightarrow> byte) \<Rightarrow> driver \<Rightarrow> byte list \<Rightarrow> nat \<Rightarrow> 'b data_server" where
  "zynqmp_server io kmalloc heap drv beyond room =
     \<lparr>ds_info = bytes_of ''xvcServer_v1.0:'' @ fmt_u 2048 @ [10], ds_buffer = 2048, ds_result = 1024,
      ds_shift = ioctl_shift io kmalloc heap drv beyond room\<rparr>"

lemma fmt_u_2048: "fmt_u 2048 = bytes_of ''2048''"
  by (simp add: fmt_u_def digits_in.simps digit_byte_def bytes_of_def)

section \<open>The driver shifts\<close>

lemma ioctl_shift_serial:
  fixes b :: 'b
  assumes "fast_bridge io view tap" "v_busy (view b) = 0" "n \<le> 8192"
    and "\<And>i m. m \<le> 1024 \<Longrightarrow> kmalloc i m" "db_ptr drv = Ptr ()"
    and "length buffer = 2048" "length result = 1024"
  defines "r \<equiv> clock_bits (tap False) (v_chain (view b)) (pins buffer (drop ((n + 7) div 8) buffer) 0 n)"
  shows "\<exists>result' b'. ioctl_shift io kmalloc heap drv beyond room (int n) ((n + 7) div 8) buffer result b =
      Inr (0, result', b') \<and> length result' = 1024 \<and> v_busy (view b') = 0 \<and> v_chain (view b') = snd r \<and>
      (\<forall>i < n. bit_at result' i = fst r ! i)"
proof -
  let ?m = "(n + 7) div 8"
  define arg where "arg = \<lparr>i_opcode = 1, i_length = word_of_int (int n), i_tms = buffer @ beyond,
      i_tdi = drop ?m buffer @ beyond, i_tdo_room = length result + room\<rparr>"
  have n: "unat (i_length arg) = n" using assms(3) by (simp add: arg_def unat_word_of_nat_32)
  have m: "?m \<le> 1024" using assms(3) by simp
  have s: "shift_bytes (i_length arg) = ?m" using n assms(3) by (subst shift_bytes_eq) simp_all
  have pins: "pins (i_tms arg) (i_tdi arg) 0 n = pins buffer (drop ?m buffer) 0 n"
  proof -
    have "bit_at (buffer @ beyond) i = bit_at buffer i" "bit_at (drop ?m buffer @ beyond) i = bit_at (drop ?m buffer) i"
      if "i < n" for i
      using that m assms(6) by (auto intro!: bit_at_cong_take [where m = ?m])
    then show ?thesis by (simp add: pins_def arg_def)
  qed
  have "\<exists>tdo b'. xil_xvc_ioctl io True kmalloc heap b 0 arg = Inr (0, Some tdo, b') \<and>
    length tdo = (unat (i_length arg) + 7) div 8 \<and>
    (\<forall>i < unat (i_length arg). bit_at tdo i =
       fst (clock_bits (tap (i_opcode arg = 2)) (v_chain (view b))
              (pins (i_tms arg) (i_tdi arg) 0 (unat (i_length arg)))) ! i) \<and>
    v_chain (view b') =
       snd (clock_bits (tap (i_opcode arg = 2)) (v_chain (view b))
              (pins (i_tms arg) (i_tdi arg) 0 (unat (i_length arg)))) \<and>
    v_busy (view b') = 0"
    by (rule fast_bridge.ioctl_serial [OF assms(1,2)])
      (use assms(3-7) n s m in \<open>simp_all add: arg_def\<close>)
  then obtain tdo b' where x: "xil_xvc_ioctl io True kmalloc heap b 0 arg = Inr (0, Some tdo, b')"
    and o: "length tdo = ?m" "\<forall>i < n. bit_at tdo i = fst r ! i" "v_chain (view b') = snd r" "v_busy (view b') = 0"
    unfolding n pins by (auto simp: r_def arg_def)
  obtain result' where w: "write_at result 0 tdo = Inr result'" using o(1) m assms(7) by (simp add: write_at_def)
  have l: "length result' = 1024" using length_write_at [OF w] assms(7) by simp
  have "take ?m result' = tdo"
    using read_write_same [OF w] o(1) by (auto simp: read_range_def split: if_split_asm)
  then have "bit_at result' i = bit_at tdo i" if "i < n" for i
    using that o(1) by (intro bit_at_cong_take [where m = ?m]) auto
  moreover have "ioctl_shift io kmalloc heap drv beyond room (int n) ?m buffer result b = Inr (0, result', b')"
    unfolding ioctl_shift_def arg_def [symmetric] char_ctrl_ioctl_def using assms(5) x w by simp
  ultimately show ?thesis using o l by auto
qed

lemma zynqmp_shifter:
  assumes "fast_bridge io view tap" "\<And>i m. m \<le> 1024 \<Longrightarrow> kmalloc i m" "db_ptr drv = Ptr ()"
  shows "jtag_shifter (zynqmp_server io kmalloc heap drv beyond room) (tap False) (\<lambda>b. v_chain (view b))
    (\<lambda>b. v_busy (view b) = 0) (\<lambda>n. n \<le> 8192) (\<lambda>n. n)"
proof (unfold_locales, goal_cases)
  case (3 n)
  then have "(n + 7) div 8 \<le> 1024" by simp
  then show ?case using 3 by (simp add: zynqmp_server_def)
next
  case (5 b n buffer result)
  then show ?case
    using ioctl_shift_serial [where buffer = buffer and result = result, OF assms(1) 5(1,2) assms(2,3)]
    by (simp add: zynqmp_server_def)
qed (simp_all add: zynqmp_server_def fmt_u_2048)

definition probed :: driver where
  "probed = snd (probe sample_kernel 0 (snd (xil_xvc_init sample_kernel driver0)))"

lemma probed_mapped: "db_ptr probed = Ptr ()"
  by (simp add: probed_def sample_kernel_def probe_def make_class_def probe_bridge_def IS_ERR_def
      xil_xvc_init_def driver0_def call_def Let_def)

interpretation zynqmp: jtag_shifter
  "zynqmp_server (ref_io tap (min latency 99)) (\<lambda>_ _. True) heap probed beyond room" "tap False" v_chain
  "\<lambda>b. v_busy b = 0" "\<lambda>n. n \<le> 8192" "\<lambda>n. n" for tap latency heap beyond room
  by (rule zynqmp_shifter [OF fast_ref.fast_bridge_axioms _ probed_mapped]) simp

section \<open>Conversations\<close>

lemmas zynqmp_served = jtag_shifter.conversation [OF zynqmp_shifter, unfolded round_request_same list.map_ident]

text \<open>C21. A client of the zynqMP server that sends any shifts of at most 8192 bits and then \<open>getinfo:\<close> or
  \<open>settck:\<close>, cut in any segments, is answered with the TDO bits of clocking the chain through all the shifts,
  one reply per request, and the chain ends in that state: from the socket through the driver to the bridge.\<close>

theorem zynqmp_conversation:
  assumes "fast_bridge io view tap" "\<And>i m. m \<le> 1024 \<Longrightarrow> kmalloc i m" "db_ptr drv = Ptr ()"
    and "v_busy (view b) = 0" "\<forall>q \<in> set qs. shift_bits_of q \<le> 8192 \<and> request_wf q" "last_wf e"
    and "pending k (concat (map encode_shift qs) @ encode_last e @ rest)" "length qs < sends_ok k"
  shows "\<exists>k' b' outs.
    handle_data (zynqmp_server io kmalloc heap drv beyond room) stack k b = Inr (0, k', b') \<and>
    tx k' = tx k @ outs @ [answer_of (zynqmp_server io kmalloc heap drv beyond room) e] \<and>
    list_all2 holds_bits outs (fst (clock_requests (tap False) (v_chain (view b)) qs)) \<and>
    v_chain (view b') = snd (clock_requests (tap False) (v_chain (view b)) qs) \<and>
    v_busy (view b') = 0 \<and> pending k' rest"
  using zynqmp_served [OF assms] .

definition sample_sock :: "byte list list \<Rightarrow> sock" where
  "sample_sock segs = \<lparr>rx = segs, rx_error = False, tx = [], sends_ok = 9\<rparr>"

theorem zynqmp_conversation_witness:
  "\<exists>k' b' out.
    handle_data (zynqmp_server (ref_io delay_tap (min 3 99)) (\<lambda>_ _. True) (\<lambda>_. 0) probed [] 0) (\<lambda>_. 0)
      (sample_sock [bytes_of ''shi'', bytes_of ''ft:'' @ [9, 0], [0, 0, 0, 0, 0xA5, 1] @ bytes_of ''get'', bytes_of ''info:''])
      sample_view = Inr (0, k', b') \<and>
    tx k' = [out, bytes_of ''xvcServer_v1.0:'' @ bytes_of ''2048'' @ [10]] \<and>
    holds_bits out [True, True, False, True, False, False, True, False, True] \<and> v_chain b' = True \<and> pending k' []"
proof -
  let ?k = "sample_sock [bytes_of ''shi'', bytes_of ''ft:'' @ [9, 0], [0, 0, 0, 0, 0xA5, 1] @ bytes_of ''get'', bytes_of ''info:'']"
  have p: "pending ?k (concat (map encode_shift [Shift 9 [0, 0] [0xA5, 1]]) @ encode_last Getinfo @ [])"
    by (simp add: pending_def sample_sock_def bytes_of_def le_bytes_def upt_rec)
  have c: "clock_bits (delay_tap False) True (pins [0, 0] [0xA5, 1] 0 9) =
      ([True, True, False, True, False, False, True, False, True], True)"
    by (simp add: pins_def bit_at_def delay_tap_def upt_rec)
  have i: "ds_info (zynqmp_server io kmalloc heap drv beyond room) = bytes_of ''xvcServer_v1.0:'' @ bytes_of ''2048'' @ [10]"
    for io :: "'b io" and kmalloc heap drv beyond room
    by (simp add: zynqmp_server_def fmt_u_2048)
  have tx: "tx (sample_sock segs) = []" for segs by (simp add: sample_sock_def)
  have s: "length [Shift 9 [0, 0] [0xA5, 1]] < sends_ok ?k" "v_chain sample_view = True" "v_busy sample_view = 0"
    by (simp_all add: sample_sock_def sample_view_def)
  obtain k' b' outs where x:
    "handle_data (zynqmp_server (ref_io delay_tap (min 3 99)) (\<lambda>_ _. True) (\<lambda>_. 0) probed [] 0) (\<lambda>_. 0) ?k sample_view = Inr (0, k', b')"
    "tx k' = tx ?k @ outs @ [answer_of (zynqmp_server (ref_io delay_tap (min 3 99)) (\<lambda>_ _. True) (\<lambda>_. 0) probed [] 0) Getinfo]"
    "list_all2 holds_bits outs (fst (clock_requests (delay_tap False) (v_chain sample_view) [Shift 9 [0, 0] [0xA5, 1]]))"
    "v_chain b' = snd (clock_requests (delay_tap False) (v_chain sample_view) [Shift 9 [0, 0] [0xA5, 1]])" "pending k' []"
    using zynqmp_conversation [where kmalloc = "\<lambda>_ _. True" and heap = "\<lambda>_. 0" and beyond = "[]" and room = 0
        and stack = "\<lambda>_. 0", OF fast_ref.fast_bridge_axioms [of delay_tap 3] _ probed_mapped s(3) _ _ p s(1)]
    by auto
  then show ?thesis
    by (intro exI [of _ k'] exI [of _ b'] exI [of _ "hd outs"]) (auto simp: c i s tx list_all2_Cons2)
qed

end
