(* ===== verification/Jtag_Mmap.thy ===== *)
theory Jtag_Mmap
  imports Jtag_Session
begin

unbundle bit_operations_syntax

text \<open>
  The servers that drive the bridge through a mapping of its registers: the \<open>handle_data\<close> of
  \<open>jtag/zynq7000/XAPP1251/src/xvcServer.c\<close>, and the variant of \<open>jtag/zynqMP/src/user/xvcServer.c\<close> for a
  build without \<open>USE_IOCTL\<close>. The two loops are proved equal; both shift whole words as long as four bytes
  are left, so that a length of 25 to 31 bits above a multiple of 32 is rounded up.
\<close>

section \<open>One piece\<close>

text \<open>\<open>while (ptr->ctrl_offset) {}\<close> has no bound: \<open>None\<close> when it never ends.\<close>

partial_function (option) poll_idle :: "'b io \<Rightarrow> 'b \<Rightarrow> 'b option" where
  "poll_idle io b =
     (let r = io_read io b control_reg in if fst r = 0 then Some (snd r) else poll_idle io (snd r))"

definition mmap_shift_piece :: "'b io \<Rightarrow> 'b \<Rightarrow> 32 word \<Rightarrow> 32 word \<Rightarrow> 32 word \<Rightarrow> (32 word \<times> 'b) res" where
  "mmap_shift_piece io b n tms tdi =
     (let b1 = io_write io b length_reg n;
          b2 = io_write io b1 tms_reg tms;
          b3 = io_write io b2 tdi_reg tdi;
          b4 = io_write io b3 control_reg 1
      in case poll_idle io b4 of
           None \<Rightarrow> Inl Hang
         | Some b5 \<Rightarrow> Inr (io_read io b5 tdo_reg))"

section \<open>The loops\<close>

text \<open>XAPP1251: whole words, then what is left of the bytes with what is left of the bits.\<close>

function zynq_loop ::
    "'b io \<Rightarrow> nat \<Rightarrow> byte list \<Rightarrow> nat \<Rightarrow> int \<Rightarrow> nat \<Rightarrow> byte list \<Rightarrow> 'b \<Rightarrow> (byte list \<times> 'b) res" where
  "zynq_loop io nr_bytes buffer bytesLeft bitsLeft byteIndex result b =
     (if 0 < bytesLeft then
        if 4 \<le> bytesLeft then
          and_then (read_range buffer byteIndex 4) (\<lambda>x.
          and_then (read_range buffer (byteIndex + nr_bytes) 4) (\<lambda>y.
          and_then (mmap_shift_piece io b 32 (word_of_bytes x) (word_of_bytes y)) (\<lambda>(tdo, b').
          and_then (write_at result byteIndex (le_bytes 4 tdo)) (\<lambda>result'.
            zynq_loop io nr_bytes buffer (bytesLeft - 4) (bitsLeft - 32) (byteIndex + 4) result' b'))))
        else
          and_then (read_range buffer byteIndex bytesLeft) (\<lambda>x.
          and_then (read_range buffer (byteIndex + nr_bytes) bytesLeft) (\<lambda>y.
          and_then (mmap_shift_piece io b (word_of_int bitsLeft) (word_of_bytes x) (word_of_bytes y)) (\<lambda>(tdo, b').
          and_then (write_at result byteIndex (le_bytes bytesLeft tdo)) (\<lambda>result'.
            Inr (result', b')))))
      else Inr (result, b))"
  by pat_completeness auto
termination
  by (relation "measure (\<lambda>(io, nr, buffer, bytesLeft, bitsLeft, byteIndex, result, b). bytesLeft)") auto

declare zynq_loop.simps [simp del]

text \<open>
  zynqMP without \<open>USE_IOCTL\<close>: the number of bytes of a piece is computed from its bits. With no bytes the
  loop would not advance; a negative number is a huge one to \<open>memcpy\<close>. Neither happens (\<open>loops_equal\<close>).
\<close>

function zynqmp_loop ::
    "'b io \<Rightarrow> nat \<Rightarrow> byte list \<Rightarrow> int \<Rightarrow> int \<Rightarrow> nat \<Rightarrow> byte list \<Rightarrow> 'b \<Rightarrow> (byte list \<times> 'b) res" where
  "zynqmp_loop io nr_bytes buffer bytesLeft bitsLeft byteIndex result b =
     (if 0 < bytesLeft then
        let shift_num_bits = (if bytesLeft < 4 then bitsLeft else 32);
            shift_num_bytes = div8 (shift_num_bits + 7)
        in if shift_num_bytes = 0 then Inl Hang
           else if shift_num_bytes < 0 then Inl Out_of_bounds
           else
             let m = nat shift_num_bytes in
             and_then (read_range buffer byteIndex m) (\<lambda>x.
             and_then (read_range buffer (byteIndex + nr_bytes) m) (\<lambda>y.
             and_then (mmap_shift_piece io b (word_of_int shift_num_bits) (word_of_bytes x) (word_of_bytes y))
               (\<lambda>(tdo, b').
             and_then (write_at result byteIndex (le_bytes m tdo)) (\<lambda>result'.
               zynqmp_loop io nr_bytes buffer (bytesLeft - shift_num_bytes) (bitsLeft - shift_num_bits)
                 (byteIndex + m) result' b'))))
      else Inr (result, b))"
  by pat_completeness auto
termination
  by (relation "measure (\<lambda>(io, nr, buffer, bytesLeft, bitsLeft, byteIndex, result, b). nat bytesLeft)") auto

declare zynqmp_loop.simps [simp del]

definition zynq_shift :: "'b io \<Rightarrow> int \<Rightarrow> nat \<Rightarrow> byte list \<Rightarrow> byte list \<Rightarrow> 'b \<Rightarrow> (int \<times> byte list \<times> 'b) res" where
  "zynq_shift io len nr_bytes buffer result b =
     and_then (zynq_loop io nr_bytes buffer nr_bytes len 0 result b) (\<lambda>(result', b'). Inr (0, result', b'))"

definition zynqmp_mmap_shift ::
    "'b io \<Rightarrow> int \<Rightarrow> nat \<Rightarrow> byte list \<Rightarrow> byte list \<Rightarrow> 'b \<Rightarrow> (int \<times> byte list \<times> 'b) res" where
  "zynqmp_mmap_shift io len nr_bytes buffer result b =
     and_then (zynqmp_loop io nr_bytes buffer (int nr_bytes) len 0 result b) (\<lambda>(result', b'). Inr (0, result', b'))"

definition zynq_server :: "'b io \<Rightarrow> 'b data_server" where
  "zynq_server io =
     \<lparr>ds_info = bytes_of ''xvcServer_v1.0:2048'' @ [10], ds_buffer = 8192, ds_result = 1024,
      ds_shift = zynq_shift io\<rparr>"

definition zynqmp_mmap_server :: "'b io \<Rightarrow> 'b data_server" where
  "zynqmp_mmap_server io =
     \<lparr>ds_info = bytes_of ''xvcServer_v1.0:'' @ fmt_u 2048 @ [10], ds_buffer = 2048, ds_result = 1024,
      ds_shift = zynqmp_mmap_shift io\<rparr>"

section \<open>The loops are equal\<close>

text \<open>The bytes left are those of the bits left, or less when the last word was rounded up.\<close>

definition left_ok :: "nat \<Rightarrow> int \<Rightarrow> bool" where
  "left_ok bytesLeft bitsLeft \<longleftrightarrow> (0 < bytesLeft \<longrightarrow> int bytesLeft = (bitsLeft + 7) div 8)"

lemma left_ok_step: "left_ok n k \<Longrightarrow> 4 \<le> n \<Longrightarrow> left_ok (n - 4) (k - 32)"
  unfolding left_ok_def by (auto simp: of_nat_diff)

lemma loops_equal:
  "left_ok bytesLeft bitsLeft \<Longrightarrow>
   zynqmp_loop io nr_bytes buffer (int bytesLeft) bitsLeft byteIndex result b =
   zynq_loop io nr_bytes buffer bytesLeft bitsLeft byteIndex result b"
proof (induction bytesLeft arbitrary: bitsLeft byteIndex result b rule: less_induct)
  case (less n)
  consider (z) "n = 0" | (w) "4 \<le> n" | (l) "0 < n" "n < 4" by linarith
  then show ?case
  proof cases
    case z
    then show ?thesis by (simp add: zynqmp_loop.simps [of io nr_bytes buffer 0] zynq_loop.simps [of io nr_bytes buffer 0])
  next
    case w
    have d: "div8 39 = 4" by (simp_all add: div8_def)
    have IH: "zynqmp_loop io nr_bytes buffer (int n - 4) (bitsLeft - 32) (byteIndex + 4) r b' =
        zynq_loop io nr_bytes buffer (n - 4) (bitsLeft - 32) (byteIndex + 4) r b'" for r b'
      using w less.prems less.IH [of "n - 4" "bitsLeft - 32"] left_ok_step [OF less.prems w] by (simp add: of_nat_diff)
    show ?thesis
      using w unfolding zynqmp_loop.simps [of io nr_bytes buffer "int n" bitsLeft byteIndex result b]
        zynq_loop.simps [of io nr_bytes buffer n bitsLeft byteIndex result b]
      by (simp add: Let_def d IH)
  next
    case l
    have "int n = (bitsLeft + 7) div 8" using less.prems l by (simp add: left_ok_def)
    then have d: "div8 (bitsLeft + 7) = int n" using l by (simp add: div8_def)
    have z: "zynqmp_loop io nr_bytes buffer 0 k i r b' = Inr (r, b')" for k i r b'
      by (simp add: zynqmp_loop.simps [of io nr_bytes buffer 0])
    show ?thesis
      using l unfolding zynqmp_loop.simps [of io nr_bytes buffer "int n" bitsLeft byteIndex result b]
        zynq_loop.simps [of io nr_bytes buffer n bitsLeft byteIndex result b]
      by (simp add: Let_def d z case_prod_beta)
  qed
qed

section \<open>The bits that are clocked\<close>

text \<open>The length rounded up to whole words when its last bits fill four bytes.\<close>

definition clocked :: "nat \<Rightarrow> nat" where
  "clocked n = (if 25 \<le> n mod 32 then n + 32 - n mod 32 else n)"

lemma clocked_eq: "r < 32 \<Longrightarrow> clocked (32 * q + r) = (if 25 \<le> r then 32 * q + 32 else 32 * q + r)"
  by (simp add: clocked_def)

lemma clocked_bounds: "n \<le> clocked n" "clocked n \<le> 8 * ((n + 7) div 8)"
proof -
  define q r where "q = n div 32" and "r = n mod 32"
  have n: "n = 32 * q + r" "r < 32" by (simp_all add: q_def r_def)
  show "n \<le> clocked n" using n(2) by (simp add: n(1) clocked_eq)
  have "(32 * q + r + 7) div 8 = 4 * q + (r + 7) div 8"
    using div_mult_self2 [of 8 "r + 7" "4 * q"] by (simp add: algebra_simps)
  then show "clocked n \<le> 8 * ((n + 7) div 8)" using n(2) by (auto simp: n(1) clocked_eq)
qed

context debug_bridge
begin

lemma poll_idle_done:
  "v_ctrl (view b) AND NOT 1 = 0 \<Longrightarrow> \<exists>b'. poll_idle io b = Some b' \<and> view b' = (view b)\<lparr>v_busy := 0, v_ctrl := 0\<rparr>"
proof (induction "v_busy (view b)" arbitrary: b)
  case 0
  then show ?case using read_idle [of b] by (simp add: poll_idle.simps [of io b] Let_def)
next
  case (Suc k)
  from read_busy [OF Suc.hyps(2) [symmetric]] have r: "bit (fst (io_read io b control_reg)) 0"
    "view (snd (io_read io b control_reg)) = (view b)\<lparr>v_busy := k\<rparr>" by simp_all
  from r(1) have "fst (io_read io b control_reg) \<noteq> 0" by auto
  then have "poll_idle io b = poll_idle io (snd (io_read io b control_reg))"
    by (subst poll_idle.simps) (simp add: Let_def)
  with Suc.hyps(1) [of "snd (io_read io b control_reg)"] Suc.prems r(2) show ?case by simp
qed

lemma mmap_piece_serial:
  fixes n x y :: "32 word"
  assumes "v_busy (view b) = 0" "unat n \<le> 32"
  defines "r \<equiv> clock_bits (tap False) (v_chain (view b)) (reg_pins x y (unat n))"
  shows "\<exists>w b'. mmap_shift_piece io b n x y = Inr (w, b') \<and> v_busy (view b') = 0 \<and> v_chain (view b') = snd r \<and>
    (\<forall>i < unat n. bit w i = fst r ! i)"
proof -
  let ?b1 = "io_write io b length_reg n"
  let ?b4 = "io_write io (io_write io (io_write io ?b1 tms_reg x) tdi_reg y) control_reg 1"
  have v1: "view ?b1 = (view b)\<lparr>v_len := n\<rparr>" using assms(1) by (rule write_length)
  from started [of ?b1 1 x y] assms(1,2) obtain k w where
    v4: "view ?b4 = (view ?b1)\<lparr>v_tms := x, v_tdi := y, v_ctrl := 1, v_busy := k, v_tdo := w, v_chain := snd r\<rparr>"
    and w: "\<forall>i < unat n. bit w i = fst r ! i"
    by (auto simp: v1 r_def bit_simps)
  from poll_idle_done [of ?b4] obtain b5 where p: "poll_idle io ?b4 = Some b5"
    and v5: "view b5 = (view ?b4)\<lparr>v_busy := 0, v_ctrl := 0\<rparr>" by (auto simp: v4)
  from read_tdo [of b5] obtain b6 where t: "io_read io b5 tdo_reg = (w, b6)" "view b6 = view b5"
    by (cases "io_read io b5 tdo_reg") (simp add: v5 v4)
  have "mmap_shift_piece io b n x y = Inr (w, b6)" by (simp add: mmap_shift_piece_def Let_def p t(1))
  then show ?thesis using w by (auto simp: t(2) v5 v4)
qed

text \<open>A piece of the loops: \<open>k\<close> bits in \<open>m\<close> bytes from byte \<open>p\<close> on.\<close>

lemma zynq_piece:
  assumes "v_busy (view b) = 0" "k \<le> 32" "k \<le> 8 * m" "p + m \<le> nr" "2 * nr \<le> length buffer" "nr \<le> length result"
    and "v = word_of_nat k"
  defines "r \<equiv> clock_bits (tap False) (v_chain (view b)) (pins buffer (drop nr buffer) (8 * p) (8 * p + k))"
  shows "\<exists>w b' result'. mmap_shift_piece io b v (word_of_bytes (take m (drop p buffer)))
        (word_of_bytes (take m (drop (p + nr) buffer))) = Inr (w, b') \<and>
    write_at result p (le_bytes m w) = Inr result' \<and> v_busy (view b') = 0 \<and> v_chain (view b') = snd r \<and>
    (\<forall>i < k. bit w i = fst r ! i)"
proof -
  let ?x = "word_of_bytes (take m (drop p buffer))" and ?y = "word_of_bytes (take m (drop (p + nr) buffer))"
  have v: "unat v = k" using assms(2) by (simp add: assms(7) unat_word_of_nat_32)
  have "reg_pins (word_of_bytes (take m (drop (8 * p div 8) buffer)))
      (word_of_bytes (take m (drop (8 * p div 8) (drop nr buffer)))) k = pins buffer (drop nr buffer) (8 * p) (8 * p + k)"
    using assms(2-5) by (intro reg_pins_chunk) simp_all
  then have pins: "reg_pins ?x ?y k = pins buffer (drop nr buffer) (8 * p) (8 * p + k)" by (simp add: add.commute)
  have "\<exists>result'. write_at result p (le_bytes m w) = Inr result'" for w
    using assms(4,6) by (simp add: write_at_def)
  then show ?thesis
    using mmap_piece_serial [OF assms(1), of v ?x ?y] assms(2) unfolding v pins r_def by metis
qed

lemma zynq_loop_serial:
  fixes n :: nat and b :: 'b
  defines "nr \<equiv> (n + 7) div 8"
  assumes "v_busy (view b) = 0" "2 * nr \<le> length buffer" "nr \<le> length result" "4 * j \<le> nr"
  shows "\<exists>result' b'.
    zynq_loop io nr buffer (nr - 4 * j) (int n - int (32 * j)) (4 * j) result b = Inr (result', b') \<and>
    filled result result' (32 * j) (clocked n)
      (fst (clock_bits (tap False) (v_chain (view b)) (pins buffer (drop nr buffer) (32 * j) (clocked n)))) \<and>
    v_busy (view b') = 0 \<and>
    v_chain (view b') =
      snd (clock_bits (tap False) (v_chain (view b)) (pins buffer (drop nr buffer) (32 * j) (clocked n)))"
  using assms(2-)
proof (induction "nr - 4 * j" arbitrary: j result b rule: less_induct)
  case less
  define q s where "q = n div 32" and "s = n mod 32"
  have n: "n = 32 * q + s" "s < 32" by (simp_all add: q_def s_def)
  have nr: "nr = 4 * q + (s + 7) div 8"
    unfolding nr_def n(1) using div_mult_self2 [of 8 "s + 7" "4 * q"] by (simp add: algebra_simps)
  have cl: "clocked n = (if 25 \<le> s then 32 * q + 32 else 32 * q + s)" using n by (simp add: clocked_eq)
  let ?tdi = "drop nr buffer" and ?l = "nr - 4 * j"
  consider (z) "?l = 0" | (w) "4 \<le> ?l" | (l) "0 < ?l" "?l < 4" by linarith
  then show ?case
  proof cases
    case z
    then have "clocked n \<le> 32 * j" using less.prems(4) clocked_bounds(2) [of n] unfolding nr_def by simp
    then show ?thesis
      using z less.prems(1) by (simp add: zynq_loop.simps [of io nr buffer 0] pins_def filled_done)
  next
    case w
    have c: "32 * j + 32 \<le> clocked n"
    proof (cases "25 \<le> s")
      case True
      then have "(s + 7) div 8 = 4" using n(2) by simp
      then show ?thesis using True w unfolding cl nr by simp
    next
      case False
      then have "(s + 7) div 8 < 4" by simp
      then have "4 * j < 4 * q" using w unfolding nr by linarith
      then show ?thesis using False unfolding cl by simp
    qed
    have pm: "4 * j + 4 \<le> nr" "32 \<le> 8 * (4 :: nat)" "(32 :: nat) \<le> 32" using w by simp_all
    let ?r1 = "clock_bits (tap False) (v_chain (view b)) (pins buffer ?tdi (8 * (4 * j)) (8 * (4 * j) + 32))"
    obtain v b1 result1 where
      p: "mmap_shift_piece io b 32 (word_of_bytes (take 4 (drop (4 * j) buffer)))
        (word_of_bytes (take 4 (drop (4 * j + nr) buffer))) = Inr (v, b1)"
      "write_at result (4 * j) (le_bytes 4 v) = Inr result1"
      and o: "v_busy (view b1) = 0" "v_chain (view b1) = snd ?r1" "\<forall>i < 32. bit v i = fst ?r1 ! i"
      using zynq_piece [OF less.prems(1) pm(3,2,1) less.prems(2,3), of 32] by auto
    have j: "4 * Suc j = 4 * j + 4" "32 * Suc j = 32 * j + 32" "8 * (4 * j) = 32 * j" by simp_all
    have dec: "nr - 4 * Suc j < ?l" and le: "4 * Suc j \<le> nr" using w by auto
    have lr: "nr \<le> length result1" using length_write_at [OF p(2)] less.prems(3) by simp
    have e: "nr - 4 * Suc j = ?l - 4" "int n - int (32 * Suc j) = int n - int (32 * j) - 32" by simp_all
    have rd: "read_range buffer (4 * j) 4 = Inr (take 4 (drop (4 * j) buffer))"
      "read_range buffer (4 * j + nr) 4 = Inr (take 4 (drop (4 * j + nr) buffer))"
      using pm less.prems(2) by (simp_all add: read_range_def)
    have pos: "0 < ?l" using w by linarith
    have step: "zynq_loop io nr buffer ?l (int n - int (32 * j)) (4 * j) result b =
        zynq_loop io nr buffer (nr - 4 * Suc j) (int n - int (32 * Suc j)) (4 * Suc j) result1 b1"
      unfolding zynq_loop.simps [of io nr buffer ?l "int n - int (32 * j)" "4 * j" result b] rd and_then_simps p
        prod.case e j(1) by (simp only: w pos if_True diff_diff_left)
    let ?r2 = "clock_bits (tap False) (snd ?r1) (pins buffer ?tdi (32 * j + 32) (clocked n))"
    from less.hyps [OF dec o(1) less.prems(2) lr le, unfolded o(2) j(2)] obtain result' b' where
      IH: "zynq_loop io nr buffer (nr - 4 * Suc j) (int n - int (32 * j + 32)) (4 * Suc j) result1 b1 = Inr (result', b')"
        "filled result1 result' (32 * j + 32) (clocked n) (fst ?r2)" "v_busy (view b') = 0" "v_chain (view b') = snd ?r2"
      by (elim exE conjE) (rule that)
    have split: "pins buffer ?tdi (32 * j) (clocked n) =
        pins buffer ?tdi (8 * (4 * j)) (8 * (4 * j) + 32) @ pins buffer ?tdi (32 * j + 32) (clocked n)"
      using c pins_split [of "32 * j" "32 * j + 32" "clocked n"] by simp
    have r: "clock_bits (tap False) (v_chain (view b)) (pins buffer ?tdi (32 * j) (clocked n)) = (fst ?r1 @ fst ?r2, snd ?r2)"
      unfolding split clock_bits_append ..
    have "filled result result' (32 * j) (clocked n) (fst ?r1 @ fst ?r2)"
      using p(2) pm less.prems(3) o(3) IH(2) by (intro filled_piece [where k = 32 and m = 4 and w = v]) simp_all
    then show ?thesis unfolding r step j(2) IH(1) using IH(3,4) by simp
  next
    case l
    have s25: "\<not> 25 \<le> s"
    proof
      assume "25 \<le> s"
      then have "(s + 7) div 8 = 4" using n(2) by simp
      with l have "0 < 4 * q + 4 - 4 * j" "4 * q + 4 - 4 * j < 4" unfolding nr by simp_all
      then show False by presburger
    qed
    then have "(s + 7) div 8 < 4" by simp
    moreover have "j = q" if "e < 4" "0 < 4 * q + e - 4 * j" "4 * q + e - 4 * j < 4" for e :: nat
      using that by presburger
    ultimately have "j = q" using l unfolding nr by blast
    moreover from this l have "?l = (s + 7) div 8" unfolding nr by simp
    moreover from this l have "0 < s" by (cases "s = 0") simp_all
    ultimately have s: "\<not> 25 \<le> s" "j = q" "0 < s" "?l = (s + 7) div 8" using s25 by blast+
    have c: "clocked n = 8 * (4 * j) + s" using s by (simp add: cl)
    have pm: "s \<le> 32" "s \<le> 8 * ?l" "4 * j + ?l \<le> nr" using s l by auto
    let ?r = "clock_bits (tap False) (v_chain (view b)) (pins buffer ?tdi (8 * (4 * j)) (8 * (4 * j) + s))"
    have bl: "int n - int (32 * j) = int s" using n(1) s(2) by simp
    obtain v b1 result1 where
      p: "mmap_shift_piece io b (word_of_int (int s)) (word_of_bytes (take ?l (drop (4 * j) buffer)))
        (word_of_bytes (take ?l (drop (4 * j + nr) buffer))) = Inr (v, b1)"
      "write_at result (4 * j) (le_bytes ?l v) = Inr result1"
      and o: "v_busy (view b1) = 0" "v_chain (view b1) = snd ?r" "\<forall>i < s. bit v i = fst ?r ! i"
      using zynq_piece [OF less.prems(1) pm less.prems(2,3), of "word_of_int (int s)"] by auto
    have rd: "read_range buffer (4 * j) ?l = Inr (take ?l (drop (4 * j) buffer))"
      "read_range buffer (4 * j + nr) ?l = Inr (take ?l (drop (4 * j + nr) buffer))"
      using pm less.prems(2) by (simp_all add: read_range_def)
    have step: "zynq_loop io nr buffer ?l (int n - int (32 * j)) (4 * j) result b = Inr (result1, b1)"
      unfolding zynq_loop.simps [of io nr buffer ?l _ "4 * j" result b] rd bl and_then_simps p prod.case
      using l by simp
    have "filled result1 result1 (32 * j + s) (8 * (4 * j) + s) []" by (rule filled_done) simp
    then have "filled result result1 (32 * j) (8 * (4 * j) + s) (fst ?r @ [])"
      using p(2) pm less.prems(3) o(3)
      by (intro filled_piece [where k = s and m = ?l and w = v]) simp_all
    then show ?thesis unfolding c step using o by simp
  qed
qed

lemma zynq_shift_serial:
  fixes n :: nat and b :: 'b
  defines "nr \<equiv> (n + 7) div 8"
  assumes "v_busy (view b) = 0" "2 * nr \<le> length buffer" "nr \<le> length result"
  defines "r \<equiv> clock_bits (tap False) (v_chain (view b)) (pins buffer (drop nr buffer) 0 (clocked n))"
  shows "\<exists>result' b'. zynq_shift io (int n) nr buffer result b = Inr (0, result', b') \<and>
    filled result result' 0 (clocked n) (fst r) \<and> v_busy (view b') = 0 \<and> v_chain (view b') = snd r"
  using zynq_loop_serial [where j = 0 and n = n, folded nr_def, OF assms(2-4)]
  by (auto simp: zynq_shift_def r_def)

end

text \<open>A bridge is a shifter that clocks the rounded lengths.\<close>

sublocale debug_bridge \<subseteq> zynq: jtag_shifter "zynq_server io" "tap False" "\<lambda>b. v_chain (view b)"
  "\<lambda>b. v_busy (view b) = 0" "\<lambda>n. n \<le> 8192" clocked
proof (unfold_locales, goal_cases)
  case (3 n)
  then have "(n + 7) div 8 \<le> 1024" by simp
  then show ?case using 3 by (simp add: zynq_server_def)
next
  case (4 n)
  show ?case using clocked_bounds [of n] by simp
next
  case (5 b n buffer result)
  then have "(n + 7) div 8 \<le> 1024" by simp
  then show ?case
    using zynq_shift_serial [of b n buffer result] 5 by (auto simp: zynq_server_def filled_def)
qed (simp_all add: zynq_server_def)

context debug_bridge
begin

lemmas served = zynq.conversation

end

section \<open>Properties\<close>

text \<open>C24. The two mapped variants of the shift, of XAPP1251 and of zynqMP, do the same to the bridge, to
  the result and in their faults, for every length that \<open>handle_data\<close> lets through.\<close>

theorem mmap_shifts_agree:
  assumes "0 \<le> div8 (len + 7)"
  shows "zynqmp_mmap_shift io len (nat (div8 (len + 7))) buffer result b =
    zynq_shift io len (nat (div8 (len + 7))) buffer result b"
proof -
  have "left_ok (nat (div8 (len + 7))) len"
    using assms by (auto simp: left_ok_def div8_def split: if_split_asm)
  from loops_equal [OF this, of io "nat (div8 (len + 7))" buffer 0 result b] show ?thesis using assms by (simp add: zynqmp_mmap_shift_def zynq_shift_def)
qed

text \<open>C32. The mapped variants clock the chain with the whole last word when the length is 25 to 31 bits above
  a multiple of 32: the chain sees up to seven clocks too many, driven by the padding of the last byte.\<close>

theorem mmap_shift_rounds_up:
  assumes "debug_bridge io view tap" "v_busy (view b) = 0"
    and "2 * ((n + 7) div 8) \<le> length buffer" "(n + 7) div 8 \<le> length result"
  shows "\<exists>result' b'. zynq_shift io (int n) ((n + 7) div 8) buffer result b = Inr (0, result', b') \<and>
    v_chain (view b') = snd (clock_bits (tap False) (v_chain (view b))
      (pins buffer (drop ((n + 7) div 8) buffer) 0 (if 25 \<le> n mod 32 then n + 32 - n mod 32 else n)))"
  using debug_bridge.zynq_shift_serial [OF assms] by (auto simp: clocked_def)

text \<open>A chain that counts its clocks, on a bridge that needs five reads.\<close>

definition count_tap :: "bool \<Rightarrow> nat tap" where
  "count_tap bypass t tms tdi = (tdi, Suc t)"

definition count_view :: "nat view" where
  "count_view = \<lparr>v_len = 0, v_tms = 0, v_tdi = 0, v_tdo = 0, v_ctrl = 0, v_busy = 0, v_chain = 0\<rparr>"

lemma count_clocks: "snd (clock_bits (count_tap p) t ps) = t + length ps"
  by (induction ps arbitrary: t) (simp_all add: count_tap_def case_prod_beta)

theorem mmap_shift_rounds_up_witness:
  "\<exists>result' b'. zynq_shift (ref_io count_tap 5) 25 4 (replicate 8 1) (replicate 4 0) count_view = Inr (0, result', b') \<and>
    v_chain b' = 32"
  using mmap_shift_rounds_up [OF ref.debug_bridge_axioms [of count_tap 5], of count_view 25 "replicate 8 1" "replicate 4 0"]
  by (simp add: count_clocks) (simp add: count_view_def)

theorem mmap_shifts_agree_witness:
  "zynqmp_mmap_shift (ref_io count_tap 5) 25 4 (replicate 8 1) (replicate 4 0) count_view =
   zynq_shift (ref_io count_tap 5) 25 4 (replicate 8 1) (replicate 4 0) count_view"
  using mmap_shifts_agree [of 25 "ref_io count_tap 5" "replicate 8 1" "replicate 4 0" count_view] by (simp add: div8_def)

text \<open>C23. A client of the XAPP1251 server that sends any shifts of at most 8192 bits and then \<open>getinfo:\<close> or
  \<open>settck:\<close>, cut in any segments, is answered with the TDO bits of clocking the chain through all the
  shifts, whatever the latency of the bridge. A shift whose length is 25 to 31 bits above a multiple of 32
  is clocked, and answered, like the one of the next multiple of 32 with the same bytes; every other shift
  takes its own length.\<close>

theorem zynq_conversation:
  assumes "debug_bridge io view tap" "v_busy (view b) = 0"
    and "\<forall>q \<in> set qs. shift_bits_of q \<le> 8192 \<and> request_wf q" "last_wf e"
    and "pending k (concat (map encode_shift qs) @ encode_last e @ rest)" "length qs < sends_ok k"
  shows "\<exists>k' b' outs. handle_data (zynq_server io) stack k b = Inr (0, k', b') \<and>
    tx k' = tx k @ outs @ [answer_of (zynq_server io) e] \<and>
    list_all2 holds_bits outs (fst (clock_requests (tap False) (v_chain (view b)) (map (round_request clocked) qs))) \<and>
    v_chain (view b') = snd (clock_requests (tap False) (v_chain (view b)) (map (round_request clocked) qs)) \<and>
    v_busy (view b') = 0 \<and> pending k' rest"
  using debug_bridge.served [OF assms] .

definition zynq_shifts :: "jtag_request list" where
  "zynq_shifts = [Shift 9 [0, 0] [0xA5, 1], Shift 25 [0, 0, 0, 0] [1, 2, 3, 4]]"

definition zynq_sock :: sock where
  "zynq_sock = \<lparr>rx = [bytes_of ''shift:'', [9, 0, 0, 0, 0], [0, 0xA5, 1] @ bytes_of ''shift:'', [25, 0],
     [0, 0, 0, 0, 0, 0, 1, 2, 3, 4] @ bytes_of ''settck:'', [1, 2, 3, 4]], rx_error = False, tx = [], sends_ok = 5\<rparr>"

theorem zynq_conversation_witness:
  "\<exists>k' b' out1 out2. handle_data (zynq_server (ref_io count_tap 500)) (\<lambda>_. 0) zynq_sock count_view = Inr (0, k', b') \<and>
    tx k' = [out1, out2, [1, 2, 3, 4]] \<and> v_chain b' = 9 + 32 \<and> pending k' []"
proof -
  have p: "pending zynq_sock (concat (map encode_shift zynq_shifts) @ encode_last (Settck [1, 2, 3, 4]) @ [])"
    by (simp add: pending_def zynq_sock_def zynq_shifts_def bytes_of_def le_bytes_def upt_rec)
  have s: "v_busy count_view = 0" "length zynq_shifts < sends_ok zynq_sock" "tx zynq_sock = []" "v_chain count_view = 0"
    "\<forall>q \<in> set zynq_shifts. shift_bits_of q \<le> 8192 \<and> request_wf q" "last_wf (Settck [1, 2, 3, 4])"
    by (simp_all add: count_view_def zynq_sock_def zynq_shifts_def)
  from zynq_conversation [OF ref.debug_bridge_axioms [of count_tap 500] s(1,5,6) p s(2), of "\<lambda>_. 0"]
  obtain k' b' outs where x: "handle_data (zynq_server (ref_io count_tap 500)) (\<lambda>_. 0) zynq_sock count_view = Inr (0, k', b')"
    "tx k' = tx zynq_sock @ outs @ [answer_of (zynq_server (ref_io count_tap 500)) (Settck [1, 2, 3, 4])]"
    "list_all2 holds_bits outs (fst (clock_requests (count_tap False) (v_chain count_view) (map (round_request clocked) zynq_shifts)))"
    "v_chain b' = snd (clock_requests (count_tap False) (v_chain count_view) (map (round_request clocked) zynq_shifts))" "pending k' []"
    by blast
  have r: "map (round_request clocked) zynq_shifts = [Shift 9 [0, 0] [0xA5, 1], Shift 32 [0, 0, 0, 0] [1, 2, 3, 4]]"
    by (simp add: zynq_shifts_def clocked_def)
  have o: "\<exists>out1 out2. outs = [out1, out2]" using x(3) unfolding r by (auto simp: case_prod_beta list_all2_Cons2)
  have c: "v_chain b' = 9 + 32" using x(4) unfolding r by (simp add: s(4) case_prod_beta count_clocks)
  show ?thesis using x(1,2,5) o c s(3) by auto
qed

text \<open>C37. A shift of 8193 to 32768 bits fits in the buffer of the XAPP1251 server, which a client may fill, but not
  in \<open>result\<close>: clearing it writes past the end of the array on the stack.\<close>

theorem zynq_result_overflows:
  assumes "8192 < n" "n \<le> 32768" "request_wf (Shift n tms tdi)" "pending k (encode_shift (Shift n tms tdi) @ rest)"
  shows "handle_data (zynq_server io) stack k b = Inl Out_of_bounds"
proof -
  have n: "n + 7 < 2 ^ 31" "(n + 7) div 8 \<le> 4096" "1024 < (n + 7) div 8" using assms(1,2) by simp_all
  then have "2 * ((n + 7) div 8) \<le> ds_buffer (zynq_server io)" by (simp add: zynq_server_def)
  from data_step_shift [OF n(1) this assms(3,4)] have "data_step (zynq_server io) stack k b = Inl Out_of_bounds"
    using n(2,3) assms(3) by (auto simp: zynq_server_def write_at_def)
  then show ?thesis by (simp add: handle_data.simps)
qed

definition long_sock :: sock where
  "long_sock = \<lparr>rx = [bytes_of ''shift:'' @ le_bytes 4 8200, replicate 1025 7, replicate 1025 9], rx_error = False,
     tx = [], sends_ok = 1\<rparr>"

theorem zynq_result_overflows_witness:
  "handle_data (zynq_server (ref_io count_tap 5)) (\<lambda>_. 0) long_sock count_view = Inl Out_of_bounds"
  by (rule zynq_result_overflows [of 8200 "replicate 1025 7" "replicate 1025 9" _ "[]"])
    (simp_all add: pending_def long_sock_def le_bytes_def)

end
