(* ===== verification/Jtag_Main.thy ===== *)
theory Jtag_Main
  imports Jtag_User Jtag_Mmap
begin

text \<open>
  \<open>main\<close> of the two \<open>xvcServer.c\<close> of \<open>jtag\<close>: the options, the device, the listening socket, and the
  \<open>select\<close> loop that serves the connections. The loop is the same in both, and so is its model, for
  any \<open>data_server\<close>. What the kernel answers is data; the numbers of descriptors are those POSIX
  promises, the lowest that is not in use. Messages are left out.
\<close>

section \<open>Sets of descriptors\<close>

text \<open>An \<open>fd_set\<close> has \<open>FD_SETSIZE\<close> bits; the macros do not check the descriptor.\<close>

definition fd_setsize :: nat where "fd_setsize = 1024"

definition fd_isset :: "nat \<Rightarrow> bool list \<Rightarrow> bool res" where
  "fd_isset fd xs = (if fd < length xs then Inr (xs ! fd) else Inl Out_of_bounds)"

definition fd_put :: "nat \<Rightarrow> bool \<Rightarrow> bool list \<Rightarrow> bool list res" where \<comment> \<open>\<open>FD_SET\<close>, \<open>FD_CLR\<close>\<close>
  "fd_put fd v xs = (if fd < length xs then Inr (xs[fd := v]) else Inl Out_of_bounds)"

section \<open>State\<close>

text \<open>
  \<open>conn\<close> and \<open>maxfd\<close> are the variables of \<open>main\<close>. \<open>sockets\<close> and \<open>listening\<close> are what the kernel has open
  for it, \<open>misuses\<close> counts the system calls on a descriptor that is not open.
\<close>

record 'b clients =
  conn :: "bool list"
  maxfd :: nat
  sockets :: "nat \<Rightarrow> sock option"
  listening :: bool
  misuses :: nat
  bridge :: 'b

text \<open>The listening socket \<open>s\<close>, the other descriptors of the process and their limit, and the stack.\<close>

record server_env =
  se_listener :: nat
  se_others :: "nat list"
  se_limit :: nat
  se_stack :: "nat \<Rightarrow> byte"

text \<open>One round of the loop: what \<open>select\<close> reports, and the connection that \<open>accept\<close> gets if it is called.\<close>

record round =
  select_ok :: bool
  readable_fds :: "nat list"
  failing_fds :: "nat list"
  incoming :: "sock option"

definition lowest_free :: "server_env \<Rightarrow> 'b clients \<Rightarrow> nat option" where
  "lowest_free e st =
     find (\<lambda>fd. fd \<notin> set (se_others e) \<and> \<not> (listening st \<and> fd = se_listener e) \<and> sockets st fd = None) [0..<se_limit e]"

definition is_open :: "server_env \<Rightarrow> nat \<Rightarrow> 'b clients \<Rightarrow> bool" where
  "is_open e fd st \<longleftrightarrow> sockets st fd \<noteq> None \<or> listening st \<and> fd = se_listener e"

section \<open>The loop\<close>

definition close_fd :: "server_env \<Rightarrow> nat \<Rightarrow> 'b clients \<Rightarrow> 'b clients res" where
  "close_fd e fd st =
     and_then (fd_put fd False (conn st)) (\<lambda>c.
       Inr (st\<lparr>conn := c, misuses := misuses st + (if is_open e fd st then 0 else 1),
               sockets := (sockets st)(fd := None), listening := (listening st \<and> fd \<noteq> se_listener e)\<rparr>))"

definition accept_one :: "server_env \<Rightarrow> round \<Rightarrow> 'b clients \<Rightarrow> 'b clients res" where
  "accept_one e q st =
     (if \<not> listening st then Inr (st\<lparr>misuses := misuses st + 1\<rparr>)
      else case (incoming q, lowest_free e st) of
        (Some k, Some newfd) \<Rightarrow>
          let st1 = st\<lparr>sockets := (sockets st)(newfd \<mapsto> k), maxfd := (if maxfd st < newfd then newfd else maxfd st)\<rparr>
          in and_then (fd_put newfd True (conn st1)) (\<lambda>c. Inr (st1\<lparr>conn := c\<rparr>))
      | _ \<Rightarrow> Inr st)"

text \<open>On a descriptor that is not open \<open>read\<close> fails.\<close>

definition dead_sock :: sock where
  "dead_sock = \<lparr>rx = [], rx_error = True, tx = [], sends_ok = 0\<rparr>"

definition serve_one :: "'b data_server \<Rightarrow> server_env \<Rightarrow> nat \<Rightarrow> 'b clients \<Rightarrow> 'b clients res" where
  "serve_one D e fd st =
     (case sockets st fd of
        None \<Rightarrow>
          and_then (handle_data D (se_stack e) dead_sock (bridge st)) (\<lambda>(r, _, b).
          let st1 = st\<lparr>bridge := b, misuses := misuses st + 1\<rparr> in
          if r \<noteq> 0 then close_fd e fd st1 else Inr st1)
      | Some k \<Rightarrow>
          and_then (handle_data D (se_stack e) k (bridge st)) (\<lambda>(r, k', b).
          let st1 = st\<lparr>bridge := b, sockets := (sockets st)(fd \<mapsto> k')\<rparr> in
          if r \<noteq> 0 then close_fd e fd st1 else Inr st1))"

text \<open>The body of \<open>for (fd = 0; fd <= maxfd; ++fd)\<close>, and whether it breaks out of it.\<close>

definition visit ::
    "'b data_server \<Rightarrow> server_env \<Rightarrow> round \<Rightarrow> bool list \<Rightarrow> bool list \<Rightarrow> nat \<Rightarrow> 'b clients \<Rightarrow> (bool \<times> 'b clients) res" where
  "visit D e q rd ex fd st =
     and_then (fd_isset fd rd) (\<lambda>r.
       if r then
         and_then (if fd = se_listener e then accept_one e q st else serve_one D e fd st) (\<lambda>st'. Inr (False, st'))
       else
         and_then (fd_isset fd ex) (\<lambda>x.
           if x then and_then (close_fd e fd st) (\<lambda>st'. Inr (fd = se_listener e, st')) else Inr (False, st)))"

lemma close_fd_maxfd: "close_fd e fd st = Inr st' \<Longrightarrow> maxfd st' = maxfd st"
  by (auto simp: close_fd_def res_simps)

lemma visit_maxfd: "visit D e q rd ex fd st = Inr (x, st') \<Longrightarrow> fd \<noteq> se_listener e \<Longrightarrow> maxfd st' = maxfd st"
  by (auto simp: visit_def serve_one_def res_simps Let_def split: if_split_asm option.split_asm dest!: close_fd_maxfd)

function scan ::
    "'b data_server \<Rightarrow> server_env \<Rightarrow> round \<Rightarrow> bool list \<Rightarrow> bool list \<Rightarrow> nat \<Rightarrow> 'b clients \<Rightarrow> 'b clients res" where
  "scan D e q rd ex fd st =
     (if fd \<le> maxfd st then
        and_then (visit D e q rd ex fd st) (\<lambda>(stop, st').
          if stop then Inr st' else scan D e q rd ex (fd + 1) st')
      else Inr st)"
  by pat_completeness auto
termination
proof (relation "measures [\<lambda>(D, e, q, rd, ex, fd, st). if fd \<le> se_listener e then 1 else 0 :: nat,
    \<lambda>(D, e, q, rd, ex, fd, st). Suc (maxfd st) - fd]", goal_cases)
  case (2 D e q rd ex fd st r stop st')
  then show ?case
    by (cases "fd = se_listener e") (auto dest: visit_maxfd)
qed simp

declare scan.simps [simp del]

definition one_round :: "'b data_server \<Rightarrow> server_env \<Rightarrow> round \<Rightarrow> 'b clients \<Rightarrow> (bool \<times> 'b clients) res" where
  "one_round D e q st =
     (if \<not> select_ok q then Inr (False, st)
      else
        let rd = map (\<lambda>i. conn st ! i \<and> i \<in> set (readable_fds q)) [0..<length (conn st)];
            ex = map (\<lambda>i. conn st ! i \<and> i \<in> set (failing_fds q)) [0..<length (conn st)]
        in and_then (scan D e q rd ex 0 st) (\<lambda>st'. Inr (True, st')))"

text \<open>After the last round \<open>select\<close> waits for ever. The result is whether it does.\<close>

primrec select_loop :: "'b data_server \<Rightarrow> server_env \<Rightarrow> round list \<Rightarrow> 'b clients \<Rightarrow> (bool \<times> 'b clients) res" where
  "select_loop D e [] st = Inr (True, st)"
| "select_loop D e (q # qs) st =
     and_then (one_round D e q st) (\<lambda>(go, st'). if go then select_loop D e qs st' else Inr (False, st'))"

definition serve_clients :: "'b data_server \<Rightarrow> server_env \<Rightarrow> round list \<Rightarrow> 'b \<Rightarrow> (bool \<times> 'b clients) res" where
  "serve_clients D e rounds b =
     and_then (fd_put (se_listener e) True (replicate fd_setsize False)) (\<lambda>c.
       select_loop D e rounds
         \<lparr>conn = c, maxfd = se_listener e, sockets = \<lambda>_. None, listening = True, misuses = 0, bridge = b\<rparr>)"

section \<open>The programs\<close>

text \<open>What \<open>getopt\<close> returns, one call after the other.\<close>

datatype getopt = Verbose | Port "byte list" | Device "byte list" | Usage

record jtag_options =
  jo_verbose :: nat
  jo_port :: int
  jo_device :: "byte list"

definition is_space :: "byte \<Rightarrow> bool" where "is_space c \<longleftrightarrow> c = 32 \<or> 9 \<le> c \<and> c \<le> 13"

fun decimal :: "byte list \<Rightarrow> nat \<Rightarrow> nat" where
  "decimal [] n = n"
| "decimal (c # cs) n = (if 48 \<le> c \<and> c \<le> 57 then decimal cs (10 * n + unat (c - 48)) else n)"

text \<open>\<open>atoi\<close> is \<open>strtol\<close>, which saturates at 64 bits, cut to an \<open>int\<close>.\<close>

definition atoi :: "byte list \<Rightarrow> int" where
  "atoi s =
     (let s1 = dropWhile is_space s;
          v = (case s1 of
                 [] \<Rightarrow> 0
               | c # cs \<Rightarrow> if c = 45 then - int (decimal cs 0) else if c = 43 then int (decimal cs 0) else int (decimal s1 0))
      in sint (word_of_int (max (- (2 ^ 63)) (min (2 ^ 63 - 1) v)) :: 32 word))"

definition zynqmp_options0 :: jtag_options where
  "zynqmp_options0 = \<lparr>jo_verbose = 0, jo_port = 2542, jo_device = bytes_of ''/dev/xilinx_xvc_driver''\<rparr>"

definition zynq_options0 :: jtag_options where
  "zynq_options0 = \<lparr>jo_verbose = 0, jo_port = 2542, jo_device = bytes_of ''uio0''\<rparr>"

text \<open>\<open>zynqMP\<close> counts \<open>-v\<close>, \<open>XAPP1251\<close> sets a flag.\<close>

fun jtag_args :: "(nat \<Rightarrow> nat) \<Rightarrow> getopt list \<Rightarrow> jtag_options \<Rightarrow> int + jtag_options" where
  "jtag_args count [] o1 = Inr o1"
| "jtag_args count (Verbose # as) o1 = jtag_args count as (o1\<lparr>jo_verbose := count (jo_verbose o1)\<rparr>)"
| "jtag_args count (Port p # as) o1 = jtag_args count as (o1\<lparr>jo_port := atoi p\<rparr>)"
| "jtag_args count (Device d # as) o1 = jtag_args count as (o1\<lparr>jo_device := d\<rparr>)"
| "jtag_args count (Usage # as) o1 = Inl 1"

definition zynqmp_args :: "getopt list \<Rightarrow> int + jtag_options" where
  "zynqmp_args as = jtag_args (\<lambda>v. v + 1) as zynqmp_options0"

definition zynq_args :: "getopt list \<Rightarrow> int + jtag_options" where
  "zynq_args as = jtag_args (\<lambda>_. 1) as zynq_options0"

text \<open>What the kernel answers on the way to the loop.\<close>

record boot =
  dev_open :: "byte list \<Rightarrow> int"
  dev_maps :: bool
  sock_open :: int
  bind_ok :: "16 word \<Rightarrow> bool"
  listen_ok :: bool
  hostname_answers :: bool
  std_fds :: "nat list"
  fd_limit :: nat
  stack_bytes :: "nat \<Rightarrow> byte"

definition loop_env :: "boot \<Rightarrow> nat list \<Rightarrow> server_env" where
  "loop_env w held = \<lparr>se_listener = nat (sock_open w), se_others = std_fds w @ held, se_limit = fd_limit w, se_stack = stack_bytes w\<rparr>"

text \<open>The status \<open>main\<close> returns, \<open>None\<close> while it waits in \<open>select\<close>, and the state of the loop.\<close>

definition serve_until :: "'b data_server \<Rightarrow> server_env \<Rightarrow> round list \<Rightarrow> 'b \<Rightarrow> (int option \<times> 'b clients option) res" where
  "serve_until D e rounds b =
     and_then (serve_clients D e rounds b) (\<lambda>(go, st). Inr (if go then None else Some 0, Some st))"

text \<open>The properties are printed if the driver does not report an error.\<close>

definition display_driver_properties ::
    "'b io \<Rightarrow> (nat \<Rightarrow> nat \<Rightarrow> bool) \<Rightarrow> (nat \<Rightarrow> byte) \<Rightarrow> byte list \<Rightarrow> driver \<Rightarrow> 'b \<Rightarrow> bool \<Rightarrow> (user_copy option \<times> 'b) res" where
  "display_driver_properties io kmalloc heap kstack drv b user_ok =
     and_then (char_ctrl_ioctl io kmalloc heap kstack drv b XDMA_RDXVC_PROPS 0
        \<lparr>i_opcode = 0, i_length = 0, i_tms = [], i_tdi = [], i_tdo_room = 0\<rparr> user_ok) (\<lambda>(ret, props, b').
       Inr (if ret < 0 then None else Some props, b'))"

definition zynqmp_main ::
    "'b io \<Rightarrow> (nat \<Rightarrow> nat \<Rightarrow> bool) \<Rightarrow> (nat \<Rightarrow> byte) \<Rightarrow> byte list \<Rightarrow> driver \<Rightarrow> byte list \<Rightarrow> nat \<Rightarrow> boot \<Rightarrow> getopt list \<Rightarrow>
     round list \<Rightarrow> 'b \<Rightarrow> (int option \<times> 'b clients option) res" where
  "zynqmp_main io kmalloc heap kstack drv beyond room w as rounds b =
     (case zynqmp_args as of
        Inl r \<Rightarrow> Inr (Some r, None)
      | Inr o1 \<Rightarrow>
          let fd_ioctl = dev_open w (jo_device o1) in
          if fd_ioctl < 1 then Inr (Some (- 1), None)
          else
            and_then (display_driver_properties io kmalloc heap kstack drv b True) (\<lambda>(_, b1).
            if sock_open w < 0 then Inr (Some 1, None)
            else if \<not> bind_ok w (word_of_int (jo_port o1)) then Inr (Some 1, None)
            else if \<not> listen_ok w then Inr (Some 1, None)
            else if \<not> hostname_answers w then Inr (Some 1, None)
            else serve_until (zynqmp_server io kmalloc heap drv beyond room) (loop_env w [nat fd_ioctl]) rounds b1))"

text \<open>Without \<open>USE_IOCTL\<close> the default device is \<open>/dev/uio0\<close> and the descriptor is closed after the mapping.\<close>

definition zynqmp_mmap_main :: "'b io \<Rightarrow> boot \<Rightarrow> getopt list \<Rightarrow> round list \<Rightarrow> 'b \<Rightarrow> (int option \<times> 'b clients option) res" where
  "zynqmp_mmap_main io w as rounds b =
     (case jtag_args (\<lambda>v. v + 1) as (zynqmp_options0\<lparr>jo_device := bytes_of ''/dev/uio0''\<rparr>) of
        Inl r \<Rightarrow> Inr (Some r, None)
      | Inr o1 \<Rightarrow>
          if dev_open w (jo_device o1) < 1 then Inr (Some (- 1), None)
          else if \<not> dev_maps w then Inr (Some (- 1), None)
          else if sock_open w < 0 then Inr (Some 1, None)
          else if \<not> bind_ok w (word_of_int (jo_port o1)) then Inr (Some 1, None)
          else if \<not> listen_ok w then Inr (Some 1, None)
          else if \<not> hostname_answers w then Inr (Some 1, None)
          else serve_until (zynqmp_mmap_server io) (loop_env w []) rounds b)"

text \<open>
  \<open>XAPP1251\<close>: the path is put together in 20 bytes, and a mapping that failed is only reported, so that
  the first access to a register faults.
\<close>

definition dev_file :: "byte list \<Rightarrow> byte list res" where
  "dev_file d = and_then (ensure (length (bytes_of ''/dev/'' @ d) + 1 \<le> 20) Out_of_bounds) (\<lambda>_. Inr (bytes_of ''/dev/'' @ d))"

definition unmapped :: "'b data_server \<Rightarrow> 'b data_server" where
  "unmapped D = D\<lparr>ds_shift := (\<lambda>len n buffer result b. if n = 0 then ds_shift D len n buffer result b else Inl Out_of_bounds)\<rparr>"

definition zynq_main :: "'b io \<Rightarrow> boot \<Rightarrow> getopt list \<Rightarrow> round list \<Rightarrow> 'b \<Rightarrow> (int option \<times> 'b clients option) res" where
  "zynq_main io w as rounds b =
     (case zynq_args as of
        Inl r \<Rightarrow> Inr (Some r, None)
      | Inr o1 \<Rightarrow>
          and_then (dev_file (jo_device o1)) (\<lambda>path.
          if dev_open w path < 1 then Inr (Some (- 1), None)
          else if sock_open w < 0 then Inr (Some 1, None)
          else if \<not> bind_ok w (word_of_int (jo_port o1)) then Inr (Some 1, None)
          else if \<not> listen_ok w then Inr (Some 1, None)
          else serve_until (if dev_maps w then zynq_server io else unmapped (zynq_server io)) (loop_env w []) rounds b))"

section \<open>What the loop keeps\<close>

text \<open>
  The bits of \<open>conn\<close> are the open connections and the listening socket, all of them up to \<open>maxfd\<close>, and no
  system call was made on a descriptor that is not open.
\<close>

definition clients_wf :: "server_env \<Rightarrow> 'b clients \<Rightarrow> bool" where
  "clients_wf e st \<longleftrightarrow>
     length (conn st) = fd_setsize \<and> maxfd st < fd_setsize \<and> misuses st = 0 \<and>
     (\<forall>fd < fd_setsize. conn st ! fd \<longleftrightarrow> is_open e fd st) \<and> (\<forall>fd. is_open e fd st \<longrightarrow> fd \<le> maxfd st) \<and>
     sockets st (se_listener e) = None \<and> (\<forall>fd \<in> set (se_others e). sockets st fd = None)"

lemma clients_wf_open:
  "clients_wf e st \<Longrightarrow> fd < fd_setsize \<Longrightarrow> conn st ! fd \<Longrightarrow> is_open e fd st"
  by (simp add: clients_wf_def)

lemma close_fd_wf:
  assumes "clients_wf e st" "is_open e fd st"
  shows "\<exists>st'. close_fd e fd st = Inr st' \<and> clients_wf e st' \<and> (\<forall>i. i \<noteq> fd \<longrightarrow> conn st ! i \<longrightarrow> conn st' ! i)"
proof -
  have fd: "fd < length (conn st)" "fd \<le> maxfd st" using assms by (auto simp: clients_wf_def)
  define st' where "st' = st\<lparr>conn := (conn st)[fd := False], misuses := misuses st, sockets := (sockets st)(fd := None),
      listening := (listening st \<and> fd \<noteq> se_listener e)\<rparr>"
  have o: "is_open e i st' \<longleftrightarrow> is_open e i st \<and> i \<noteq> fd" for i by (auto simp: is_open_def st'_def)
  have "clients_wf e st'"
    unfolding clients_wf_def o using assms(1) fd by (auto simp: clients_wf_def st'_def nth_list_update)
  moreover have "close_fd e fd st = Inr st'" using fd assms(2) by (simp add: close_fd_def fd_put_def st'_def)
  ultimately show ?thesis by (auto simp: st'_def)
qed

lemma lowest_free_SomeD:
  "lowest_free e st = Some fd \<Longrightarrow> fd \<notin> set (se_others e) \<and> \<not> is_open e fd st \<and> fd < se_limit e"
  by (auto simp: lowest_free_def is_open_def find_Some_iff)

lemma accept_one_wf:
  assumes "clients_wf e st" "listening st" "se_limit e \<le> fd_setsize"
  shows "\<exists>st'. accept_one e q st = Inr st' \<and> clients_wf e st' \<and> (\<forall>i. conn st ! i \<longrightarrow> conn st' ! i)"
proof (cases "incoming q = None \<or> lowest_free e st = None")
  case True
  then have "accept_one e q st = Inr st" using assms(2) by (auto simp: accept_one_def split: option.split)
  then show ?thesis using assms(1) by blast
next
  case False
  then obtain k newfd where k: "incoming q = Some k" "lowest_free e st = Some newfd" by auto
  have n: "newfd \<notin> set (se_others e)" "\<not> is_open e newfd st" "newfd < fd_setsize"
    using lowest_free_SomeD [OF k(2)] assms(3) by auto
  define st' where "st' = st\<lparr>sockets := (sockets st)(newfd \<mapsto> k), maxfd := (if maxfd st < newfd then newfd else maxfd st),
      conn := (conn st)[newfd := True]\<rparr>"
  have l: "newfd < length (conn st)" "newfd \<noteq> se_listener e" using assms(1,2) n by (auto simp: clients_wf_def is_open_def)
  have o: "is_open e i st' \<longleftrightarrow> is_open e i st \<or> i = newfd" for i by (auto simp: is_open_def st'_def)
  have w: "length (conn st) = fd_setsize" "maxfd st < fd_setsize" "misuses st = 0"
    "\<forall>fd < fd_setsize. conn st ! fd \<longleftrightarrow> is_open e fd st" "\<forall>fd. is_open e fd st \<longrightarrow> fd \<le> maxfd st"
    "sockets st (se_listener e) = None" "\<forall>fd \<in> set (se_others e). sockets st fd = None"
    using assms(1) by (simp_all add: clients_wf_def)
  have "clients_wf e st'"
    unfolding clients_wf_def o
  proof (intro conjI)
    show "\<forall>fd. is_open e fd st \<or> fd = newfd \<longrightarrow> fd \<le> maxfd st'" using w(5) by (force simp: st'_def)
  qed (use w n l in \<open>auto simp: st'_def nth_list_update\<close>)
  moreover have "accept_one e q st = Inr st'"
    using assms(2) k l(1) by (simp add: accept_one_def Let_def fd_put_def st'_def)
  ultimately show ?thesis using l by (auto simp: st'_def nth_list_update)
qed

lemma serve_one_wf:
  assumes "clients_wf e st" "sockets st fd = Some k"
  shows "(\<exists>st'. serve_one D e fd st = Inr st' \<and> clients_wf e st' \<and> (\<forall>i. i \<noteq> fd \<longrightarrow> conn st ! i \<longrightarrow> conn st' ! i)) \<or>
    (\<exists>f. serve_one D e fd st = Inl f \<and> handle_data D (se_stack e) k (bridge st) = Inl f)"
proof (cases "handle_data D (se_stack e) k (bridge st)")
  case (Inl f)
  then show ?thesis using assms(2) by (simp add: serve_one_def)
next
  case (Inr y)
  obtain r k' b where y: "y = (r, k', b)" by (cases y)
  let ?st1 = "st\<lparr>bridge := b, sockets := (sockets st)(fd \<mapsto> k')\<rparr>"
  have o: "is_open e i ?st1 \<longleftrightarrow> is_open e i st" for i using assms(2) by (simp add: is_open_def)
  have wf: "clients_wf e ?st1"
    unfolding clients_wf_def o using assms by (auto simp: clients_wf_def)
  have "is_open e fd ?st1" by (simp add: is_open_def)
  from close_fd_wf [OF wf this] wf show ?thesis
    using assms(2) Inr y by (cases "r = 0") (simp_all add: serve_one_def Let_def)
qed

lemma visit_wf:
  assumes "clients_wf e st" "se_limit e \<le> fd_setsize" "length rd = fd_setsize" "length ex = fd_setsize" "fd \<le> maxfd st"
    and "\<forall>i \<ge> fd. i < fd_setsize \<longrightarrow> rd ! i \<or> ex ! i \<longrightarrow> conn st ! i"
  shows "(\<exists>x st'. visit D e q rd ex fd st = Inr (x, st') \<and> clients_wf e st' \<and>
      (\<forall>i > fd. i < fd_setsize \<longrightarrow> rd ! i \<or> ex ! i \<longrightarrow> conn st' ! i)) \<or>
    (\<exists>f k b. visit D e q rd ex fd st = Inl f \<and> handle_data D (se_stack e) k b = Inl f)"
proof -
  have fd: "fd < fd_setsize" using assms(1,5) by (simp add: clients_wf_def)
  have io: "fd_isset fd rd = Inr (rd ! fd)" "fd_isset fd ex = Inr (ex ! fd)" using fd assms(3,4) by (simp_all add: fd_isset_def)
  have op: "is_open e fd st" if "rd ! fd \<or> ex ! fd" using clients_wf_open [OF assms(1) fd] assms(6) fd that by auto
  consider "rd ! fd" "fd = se_listener e" | "rd ! fd" "fd \<noteq> se_listener e" | "\<not> rd ! fd" "ex ! fd" | "\<not> rd ! fd" "\<not> ex ! fd"
    by blast
  then show ?thesis
  proof cases
    case 1
    then have "listening st" using op assms(1) by (auto simp: is_open_def clients_wf_def)
    from accept_one_wf [OF assms(1) this assms(2), of q] obtain st' where
      s: "accept_one e q st = Inr st'" "clients_wf e st'" "\<forall>i. conn st ! i \<longrightarrow> conn st' ! i" by blast
    then have "visit D e q rd ex fd st = Inr (False, st')" using 1 io by (simp add: visit_def)
    then show ?thesis using s(2,3) assms(6) by (meson less_imp_le)
  next
    case 2
    then obtain k where k: "sockets st fd = Some k" using op by (auto simp: is_open_def)
    have v: "visit D e q rd ex fd st = and_then (serve_one D e fd st) (\<lambda>st'. Inr (False, st'))"
      using 2 io by (simp add: visit_def)
    from serve_one_wf [OF assms(1) k, of D] show ?thesis
    proof (elim disjE exE conjE)
      fix st' assume s: "serve_one D e fd st = Inr st'" "clients_wf e st'" "\<forall>i. i \<noteq> fd \<longrightarrow> conn st ! i \<longrightarrow> conn st' ! i"
      have "\<forall>i > fd. i < fd_setsize \<longrightarrow> rd ! i \<or> ex ! i \<longrightarrow> conn st' ! i" using s(3) assms(6) by auto
      moreover have "visit D e q rd ex fd st = Inr (False, st')" unfolding v s(1) by simp
      ultimately show ?thesis using s(2) by blast
    next
      fix f assume "serve_one D e fd st = Inl f" "handle_data D (se_stack e) k (bridge st) = Inl f"
      then show ?thesis unfolding v by auto
    qed
  next
    case 3
    from close_fd_wf [OF assms(1) op] 3 obtain st' where
      s: "close_fd e fd st = Inr st'" "clients_wf e st'" "\<forall>i. i \<noteq> fd \<longrightarrow> conn st ! i \<longrightarrow> conn st' ! i" by blast
    have "\<forall>i > fd. i < fd_setsize \<longrightarrow> rd ! i \<or> ex ! i \<longrightarrow> conn st' ! i" using s(3) assms(6) by auto
    moreover have "visit D e q rd ex fd st = Inr (fd = se_listener e, st')" using 3 io s(1) by (simp add: visit_def)
    ultimately show ?thesis using s(2) by blast
  next
    case 4
    then have "visit D e q rd ex fd st = Inr (False, st)" using io by (simp add: visit_def)
    then show ?thesis using assms(1,6) by (meson less_imp_le)
  qed
qed

text \<open>The loop faults only where \<open>handle_data\<close> does.\<close>

definition data_fault :: "'b data_server \<Rightarrow> server_env \<Rightarrow> fault \<Rightarrow> bool" where
  "data_fault D e f \<longleftrightarrow> (\<exists>k b. handle_data D (se_stack e) k b = Inl f)"

lemma scan_wf:
  assumes "se_limit e \<le> fd_setsize" "length rd = fd_setsize" "length ex = fd_setsize" "clients_wf e st"
    and "\<forall>i \<ge> fd. i < fd_setsize \<longrightarrow> rd ! i \<or> ex ! i \<longrightarrow> conn st ! i"
  shows "(\<exists>st'. scan D e q rd ex fd st = Inr st' \<and> clients_wf e st') \<or>
    (\<exists>f. scan D e q rd ex fd st = Inl f \<and> data_fault D e f)"
  using assms
proof (induction D e q rd ex fd st rule: scan.induct [case_names scan])
  case (scan D e q rd ex fd st)
  show ?case
  proof (cases "fd \<le> maxfd st")
    case False
    then show ?thesis using scan.prems(4) by (simp add: scan.simps [of D e q rd ex fd st])
  next
    case True
    then have eq: "scan D e q rd ex fd st = and_then (visit D e q rd ex fd st) (\<lambda>(stop, st').
        if stop then Inr st' else scan D e q rd ex (fd + 1) st')"
      by (simp add: scan.simps [of D e q rd ex fd st])
    from visit_wf [OF scan.prems(4,1-3) True scan.prems(5), of D q] show ?thesis
    proof (elim disjE exE conjE)
      fix f k b assume "visit D e q rd ex fd st = Inl f" "handle_data D (se_stack e) k b = Inl f"
      then show ?thesis unfolding eq data_fault_def by auto
    next
      fix x st' assume v: "visit D e q rd ex fd st = Inr (x, st')" and w: "clients_wf e st'"
        and r: "\<forall>i > fd. i < fd_setsize \<longrightarrow> rd ! i \<or> ex ! i \<longrightarrow> conn st' ! i"
      show ?thesis
      proof (cases x)
        case True
        then show ?thesis using w unfolding eq v by simp
      next
        case False
        have "\<forall>i \<ge> fd + 1. i < fd_setsize \<longrightarrow> rd ! i \<or> ex ! i \<longrightarrow> conn st' ! i" using r by simp
        from scan.IH [OF True v refl False scan.prems(1-3) w this] show ?thesis using False unfolding eq v by simp
      qed
    qed
  qed
qed

lemma one_round_wf:
  assumes "se_limit e \<le> fd_setsize" "clients_wf e st"
  shows "(\<exists>go st'. one_round D e q st = Inr (go, st') \<and> clients_wf e st') \<or>
    (\<exists>f. one_round D e q st = Inl f \<and> data_fault D e f)"
proof (cases "select_ok q")
  case False
  then have "one_round D e q st = Inr (False, st)" by (simp add: one_round_def)
  then show ?thesis using assms(2) by blast
next
  case True
  have l: "length (conn st) = fd_setsize" using assms(2) by (simp add: clients_wf_def)
  let ?rd = "map (\<lambda>i. conn st ! i \<and> i \<in> set (readable_fds q)) [0..<length (conn st)]"
  let ?ex = "map (\<lambda>i. conn st ! i \<and> i \<in> set (failing_fds q)) [0..<length (conn st)]"
  have "length ?rd = fd_setsize" "length ?ex = fd_setsize" "\<forall>i \<ge> 0. i < fd_setsize \<longrightarrow> ?rd ! i \<or> ?ex ! i \<longrightarrow> conn st ! i"
    using l by auto
  from scan_wf [OF assms(1) this(1,2) assms(2) this(3), of D q] show ?thesis using True by (auto simp: one_round_def)
qed

lemma select_loop_wf:
  assumes "se_limit e \<le> fd_setsize" "clients_wf e st"
  shows "(\<exists>go st'. select_loop D e qs st = Inr (go, st') \<and> clients_wf e st') \<or>
    (\<exists>f. select_loop D e qs st = Inl f \<and> data_fault D e f)"
  using assms(2)
proof (induction qs arbitrary: st)
  case (Cons q qs)
  from one_round_wf [OF assms(1) Cons.prems, of D q] show ?case
  proof (elim disjE exE conjE)
    fix go st' assume s: "one_round D e q st = Inr (go, st')" "clients_wf e st'"
    show ?thesis
    proof (cases go)
      case True
      then show ?thesis using Cons.IH [OF s(2)] s(1) by simp
    next
      case False
      then have "select_loop D e (q # qs) st = Inr (False, st')" using s(1) by simp
      then show ?thesis using s(2) by blast
    qed
  qed auto
qed auto

lemma start_wf:
  assumes "se_listener e < fd_setsize" "se_listener e \<notin> set (se_others e)"
  shows "clients_wf e \<lparr>conn = (replicate fd_setsize False)[se_listener e := True], maxfd = se_listener e,
    sockets = \<lambda>_. None, listening = True, misuses = 0, bridge = b\<rparr>"
  using assms by (auto simp: clients_wf_def is_open_def nth_list_update)

text \<open>C29. The state of the \<open>select\<close> loop stays well formed, for any device, connections and answers of the
  kernel that respect a limit of 1024 descriptors: \<open>conn\<close> holds exactly the listening socket and the
  open connections, each of them is at most \<open>maxfd\<close> and a bit of the \<open>fd_set\<close>s, and every \<open>accept\<close>,
  \<open>read\<close> and \<open>close\<close> was of a descriptor that was open, so no connection is closed twice or served
  after it was closed. The only faults are those of \<open>handle_data\<close>.\<close>

theorem select_loop_descriptors:
  assumes "se_listener e < 1024" "se_listener e \<notin> set (se_others e)" "se_limit e \<le> 1024"
  shows "(\<exists>go st. serve_clients D e rounds b = Inr (go, st) \<and> clients_wf e st) \<or>
    (\<exists>f. serve_clients D e rounds b = Inl f \<and> data_fault D e f)"
proof -
  have s: "se_listener e < fd_setsize" and l: "se_limit e \<le> fd_setsize" using assms by (simp_all add: fd_setsize_def)
  show ?thesis
    using select_loop_wf [OF l start_wf [OF s assms(2)], of D rounds b] s by (simp add: serve_clients_def fd_put_def)
qed

definition sample_env :: server_env where
  "sample_env = \<lparr>se_listener = 4, se_others = [0, 1, 2, 3], se_limit = 1024, se_stack = \<lambda>_. 0\<rparr>"

text \<open>A client connects, asks for the version in two calls and goes.\<close>

definition sample_rounds :: "round list" where
  "sample_rounds =
     [\<lparr>select_ok = True, readable_fds = [4], failing_fds = [], incoming = Some (sample_sock [bytes_of ''getinfo:''])\<rparr>,
      \<lparr>select_ok = True, readable_fds = [5], failing_fds = [], incoming = None\<rparr>,
      \<lparr>select_ok = True, readable_fds = [5], failing_fds = [], incoming = None\<rparr>]"

theorem select_loop_descriptors_witness:
  "(\<exists>go st. serve_clients (zynq_server (ref_io delay_tap 3)) sample_env sample_rounds sample_view = Inr (go, st) \<and> clients_wf sample_env st) \<or>
   (\<exists>f. serve_clients (zynq_server (ref_io delay_tap 3)) sample_env sample_rounds sample_view = Inl f \<and>
     data_fault (zynq_server (ref_io delay_tap 3)) sample_env f)"
  by (rule select_loop_descriptors) (simp_all add: sample_env_def)

end
