(* ===== verification/Jtag_Clients.thy ===== *)
theory Jtag_Clients
  imports Jtag_Main
begin

text \<open>
  A client of the \<open>select\<close> loop of \<open>jtag\<close>'s servers, from the connection to the replies: in any state that the loop
  can be in, a client that connects and whose data arrive is served, and the other connections are left as
  they are. This joins the loop of \<open>main\<close> with the conversation of \<open>handle_data\<close> and the driver.
\<close>

section \<open>Rounds in which one descriptor is ready\<close>

lemma scan_skip:
  assumes "fd \<le> j" "j \<le> maxfd st + 1" "j \<le> length rd" "j \<le> length ex" "\<forall>i. fd \<le> i \<longrightarrow> i < j \<longrightarrow> \<not> rd ! i \<and> \<not> ex ! i"
  shows "scan D e q rd ex fd st = scan D e q rd ex j st"
  using assms(1,5)
proof (induction "j - fd" arbitrary: fd)
  case 0
  then show ?case by simp
next
  case (Suc n)
  have "fd < j" using Suc.hyps(2) by simp
  then have "visit D e q rd ex fd st = Inr (False, st)"
    using Suc.prems(2) assms(3,4) by (simp add: visit_def fd_isset_def)
  moreover have "fd \<le> maxfd st" using \<open>fd < j\<close> assms(2) by simp
  ultimately have "scan D e q rd ex fd st = scan D e q rd ex (fd + 1) st" by (simp add: scan.simps [of D e q rd ex fd st])
  also have "\<dots> = scan D e q rd ex j st" using Suc.hyps Suc.prems \<open>fd < j\<close> by (intro Suc.hyps(1)) simp_all
  finally show ?case .
qed

lemma scan_end: "scan D e q rd ex (maxfd st + 1) st = Inr st"
  by (simp add: scan.simps)

text \<open>\<open>select\<close> reports nothing but that \<open>j\<close> is readable.\<close>

definition ready_round :: "nat \<Rightarrow> sock option \<Rightarrow> round" where
  "ready_round j k = \<lparr>select_ok = True, readable_fds = [j], failing_fds = [], incoming = k\<rparr>"

lemma one_ready:
  assumes "clients_wf e st" "j \<le> maxfd st" "conn st ! j"
    and "\<And>rd ex. rd ! j \<Longrightarrow> j < length rd \<Longrightarrow> visit D e (ready_round j k) rd ex j st = Inr (False, st')" "clients_wf e st'"
      "maxfd st \<le> maxfd st'"
  shows "one_round D e (ready_round j k) st = Inr (True, st')"
proof -
  let ?q = "ready_round j k"
  let ?rd = "map (\<lambda>i. conn st ! i \<and> i \<in> set (readable_fds ?q)) [0..<length (conn st)]"
  let ?ex = "map (\<lambda>i. conn st ! i \<and> i \<in> set (failing_fds ?q)) [0..<length (conn st)]"
  have l: "length (conn st) = fd_setsize" "maxfd st < fd_setsize" "maxfd st' < fd_setsize"
    using assms(1,5) by (simp_all add: clients_wf_def)
  have rd: "?rd ! i \<longleftrightarrow> i = j" "\<not> ?ex ! i" if "i < fd_setsize" for i
    using that l assms(3) by (auto simp: ready_round_def)
  have j: "j < fd_setsize" using assms(2) l by simp
  have "scan D e ?q ?rd ?ex 0 st = scan D e ?q ?rd ?ex j st"
    by (rule scan_skip) (use assms(2) l j rd in auto)
  also have "\<dots> = scan D e ?q ?rd ?ex (j + 1) st'"
  proof -
    have "visit D e ?q ?rd ?ex j st = Inr (False, st')" by (rule assms(4)) (use rd j l in auto)
    then show ?thesis using assms(2) by (simp add: scan.simps [of D e ?q ?rd ?ex j st] del: upt.simps)
  qed
  also have "\<dots> = scan D e ?q ?rd ?ex (maxfd st' + 1) st'"
    by (rule scan_skip) (use assms(2,6) l rd in auto)
  also have "\<dots> = Inr st'" by (rule scan_end)
  finally have "scan D e ?q ?rd ?ex 0 st = Inr st'" .
  moreover have "select_ok ?q" by (simp add: ready_round_def)
  ultimately show ?thesis unfolding one_round_def Let_def by simp
qed

section \<open>A client is served\<close>

lemma open_bit: "clients_wf e st \<Longrightarrow> is_open e fd st \<Longrightarrow> fd \<le> maxfd st \<and> conn st ! fd"
  unfolding clients_wf_def by (meson le_less_trans)

lemma accepted:
  assumes "clients_wf e st" "se_limit e \<le> fd_setsize" "listening st" "lowest_free e st = Some fd"
  shows "\<exists>st1. one_round D e (ready_round (se_listener e) (Some k)) st = Inr (True, st1) \<and> clients_wf e st1 \<and>
    sockets st1 = (sockets st)(fd \<mapsto> k) \<and> bridge st1 = bridge st \<and> listening st1"
proof -
  let ?q = "ready_round (se_listener e) (Some k)" and ?s = "se_listener e"
  from accept_one_wf [OF assms(1,3,2), of ?q] obtain st1 where
    a: "accept_one e ?q st = Inr st1" "clients_wf e st1" by blast
  have f: "sockets st1 = (sockets st)(fd \<mapsto> k)" "bridge st1 = bridge st" "listening st1" "maxfd st \<le> maxfd st1"
    using a(1) assms(3,4) by (auto simp: accept_one_def ready_round_def Let_def res_simps)
  have o: "is_open e ?s st" using assms(3) by (simp add: is_open_def)
  then have "?s \<le> maxfd st" "conn st ! ?s" using open_bit [OF assms(1)] by simp_all
  moreover have "visit D e ?q rd ex ?s st = Inr (False, st1)" if "rd ! ?s" "?s < length rd" for rd ex
    using a(1) that by (simp add: visit_def fd_isset_def)
  ultimately have "one_round D e ?q st = Inr (True, st1)" using assms(1) a(2) f(4) by (intro one_ready) simp_all
  then show ?thesis using a(2) f by blast
qed

lemma served:
  assumes "clients_wf e st" "sockets st fd = Some k" "handle_data D (se_stack e) k (bridge st) = Inr (0, k', b')"
  shows "\<exists>st2. one_round D e (ready_round fd None) st = Inr (True, st2) \<and> clients_wf e st2 \<and>
    sockets st2 = (sockets st)(fd \<mapsto> k') \<and> bridge st2 = b' \<and> listening st2 = listening st"
proof -
  define st2 where "st2 = st\<lparr>bridge := b', sockets := (sockets st)(fd \<mapsto> k')\<rparr>"
  have v: "serve_one D e fd st = Inr st2" using assms(2,3) by (simp add: serve_one_def Let_def st2_def)
  have w: "clients_wf e st2" using serve_one_wf [OF assms(1,2), of D] v by auto
  have o: "is_open e fd st" using assms(2) by (simp add: is_open_def)
  have m: "fd \<le> maxfd st" "fd \<noteq> se_listener e" using o assms(1,2) by (auto simp: clients_wf_def)
  have "conn st ! fd" using open_bit [OF assms(1) o] by simp
  moreover have "visit D e (ready_round fd None) rd ex fd st = Inr (False, st2)" if "rd ! fd" "fd < length rd" for rd ex
    using v m(2) that by (simp add: visit_def fd_isset_def)
  ultimately have "one_round D e (ready_round fd None) st = Inr (True, st2)"
    using assms(1) w m(1) by (intro one_ready) (simp_all add: st2_def)
  then show ?thesis using w by (intro exI [of _ st2]) (simp add: st2_def)
qed

lemma client_served:
  assumes "clients_wf e st" "se_limit e \<le> fd_setsize" "listening st" "lowest_free e st = Some fd"
    and "handle_data D (se_stack e) k (bridge st) = Inr (0, k', b')"
  shows "\<exists>st'. select_loop D e [ready_round (se_listener e) (Some k), ready_round fd None] st = Inr (True, st') \<and>
    clients_wf e st' \<and> sockets st' = (sockets st)(fd \<mapsto> k') \<and> bridge st' = b'"
proof -
  obtain st1 where a: "one_round D e (ready_round (se_listener e) (Some k)) st = Inr (True, st1)" "clients_wf e st1"
    "sockets st1 = (sockets st)(fd \<mapsto> k)" "bridge st1 = bridge st" using accepted [OF assms(1-4)] by blast
  have "sockets st1 fd = Some k" "handle_data D (se_stack e) k (bridge st1) = Inr (0, k', b')" using a(3,4) assms(5) by simp_all
  from served [OF a(2) this] obtain st2 where s: "one_round D e (ready_round fd None) st1 = Inr (True, st2)" "clients_wf e st2"
    "sockets st2 = (sockets st1)(fd \<mapsto> k')" "bridge st2 = b'" by blast
  then show ?thesis using a(1,3) by simp
qed

text \<open>C10. The zynqMP server serves its clients: whenever it waits in \<open>select\<close>, whatever connections it has, a client
  that connects and sends shifts of at most 8192 bits and then \<open>getinfo:\<close> or \<open>settck:\<close>, cut in any segments,
  gets the lowest free descriptor and is answered with the TDO bits of clocking the chain through all of
  them, by way of \<open>main\<close>, the protocol, the driver and the bridge. The other connections are not touched,
  and the server is ready for the next client.\<close>

theorem zynqmp_serves_client:
  assumes "fast_bridge io view tap" "\<And>i m. m \<le> 1024 \<Longrightarrow> kmalloc i m" "db_ptr drv = Ptr ()"
    and "clients_wf e st" "se_limit e \<le> 1024" "listening st" "lowest_free e st = Some fd" "v_busy (view (bridge st)) = 0"
    and "\<forall>q \<in> set qs. shift_bits_of q \<le> 8192 \<and> request_wf q" "last_wf l"
    and "pending k (concat (map encode_shift qs) @ encode_last l)" "length qs < sends_ok k"
  shows "\<exists>st' k' outs.
    select_loop (zynqmp_server io kmalloc heap drv beyond room) e [ready_round (se_listener e) (Some k), ready_round fd None] st = Inr (True, st') \<and>
    sockets st' = (sockets st)(fd \<mapsto> k') \<and> clients_wf e st' \<and>
    tx k' = tx k @ outs @ [answer_of (zynqmp_server io kmalloc heap drv beyond room) l] \<and>
    list_all2 holds_bits outs (fst (clock_requests (tap False) (v_chain (view (bridge st))) qs)) \<and>
    v_chain (view (bridge st')) = snd (clock_requests (tap False) (v_chain (view (bridge st))) qs) \<and>
    v_busy (view (bridge st')) = 0"
proof -
  let ?D = "zynqmp_server io kmalloc heap drv beyond room"
  have p: "pending k (concat (map encode_shift qs) @ encode_last l @ [])" using assms(11) by simp
  obtain k' b' outs where h: "handle_data ?D (se_stack e) k (bridge st) = Inr (0, k', b')" "tx k' = tx k @ outs @ [answer_of ?D l]"
    "list_all2 holds_bits outs (fst (clock_requests (tap False) (v_chain (view (bridge st))) qs))"
    "v_chain (view b') = snd (clock_requests (tap False) (v_chain (view (bridge st))) qs)" "v_busy (view b') = 0"
    using zynqmp_served [where kmalloc = kmalloc, OF assms(1-3,8-10) p assms(12)] by blast
  have "se_limit e \<le> fd_setsize" using assms(5) by (simp add: fd_setsize_def)
  from client_served [OF assms(4) this assms(6,7) h(1)] h(2-5) show ?thesis by blast
qed

definition sample_waiting :: "bool view clients" where
  "sample_waiting = \<lparr>conn = (replicate fd_setsize False)[4 := True], maxfd = 4, sockets = \<lambda>_. None, listening = True,
     misuses = 0, bridge = sample_view\<rparr>"

lemma sample_waiting_facts: "clients_wf sample_env sample_waiting" "lowest_free sample_env sample_waiting = Some 5"
    "listening sample_waiting" "bridge sample_waiting = sample_view" "sockets sample_waiting = (\<lambda>_. None)"
proof -
  have "se_listener sample_env < fd_setsize" "se_listener sample_env \<notin> set (se_others sample_env)"
    by (simp_all add: sample_env_def fd_setsize_def)
  from start_wf [OF this, of sample_view] show "clients_wf sample_env sample_waiting"
    by (simp add: sample_waiting_def sample_env_def)
  have "\<forall>j < 5. j = 0 \<or> j = 1 \<or> j = 2 \<or> j = 3 \<or> j = (4 :: nat)" by presburger
  then have "\<forall>j < 5. j \<in> {0, 1, 2, 3} \<or> j = (4 :: nat)" by auto
  then show "lowest_free sample_env sample_waiting = Some 5"
    unfolding lowest_free_def find_Some_iff
    by (intro exI [of _ 5]) (auto simp: sample_env_def sample_waiting_def simp del: upt.simps)
qed (simp_all add: sample_waiting_def)

theorem zynqmp_serves_client_witness:
  "\<exists>st' k' out.
    select_loop (zynqmp_server (ref_io delay_tap (min 3 99)) (\<lambda>_ _. True) (\<lambda>_. 0) probed [] 0) sample_env
      [ready_round 4 (Some (sample_sock [bytes_of ''shi'', bytes_of ''ft:'' @ [9, 0], [0, 0, 0, 0, 0xA5, 1] @ bytes_of ''get'', bytes_of ''info:''])),
       ready_round 5 None] sample_waiting = Inr (True, st') \<and>
    sockets st' 5 = Some k' \<and> tx k' = [out, bytes_of ''xvcServer_v1.0:'' @ bytes_of ''2048'' @ [10]] \<and>
    holds_bits out [True, True, False, True, False, False, True, False, True]"
proof -
  let ?k = "sample_sock [bytes_of ''shi'', bytes_of ''ft:'' @ [9, 0], [0, 0, 0, 0, 0xA5, 1] @ bytes_of ''get'', bytes_of ''info:'']"
  let ?D = "zynqmp_server (ref_io delay_tap (min 3 99)) (\<lambda>_ _. True) (\<lambda>_. 0) probed [] 0"
  have p: "pending ?k (concat (map encode_shift [Shift 9 [0, 0] [0xA5, 1]]) @ encode_last Getinfo)"
    by (simp add: pending_def sample_sock_def bytes_of_def le_bytes_def upt_rec)
  have c: "clock_bits (delay_tap False) True (pins [0, 0] [0xA5, 1] 0 9) =
      ([True, True, False, True, False, False, True, False, True], True)"
    by (simp add: pins_def bit_at_def delay_tap_def upt_rec)
  have i: "answer_of ?D Getinfo = bytes_of ''xvcServer_v1.0:'' @ bytes_of ''2048'' @ [10]"
    by (simp add: zynqmp_server_def fmt_u_2048)
  have b: "v_busy (bridge sample_waiting) = 0" "v_chain (bridge sample_waiting) = True"
    by (simp_all add: sample_waiting_facts sample_view_def)
  have e: "se_limit sample_env \<le> 1024" "se_listener sample_env = 4" by (simp_all add: sample_env_def)
  have s: "length [Shift 9 [0, 0] [0xA5, 1]] < sends_ok ?k" "tx ?k = []" by (simp_all add: sample_sock_def)
  obtain st' k' outs where x: "select_loop ?D sample_env [ready_round (se_listener sample_env) (Some ?k), ready_round 5 None] sample_waiting = Inr (True, st')"
    "sockets st' = (sockets sample_waiting)(5 \<mapsto> k')" "tx k' = tx ?k @ outs @ [answer_of ?D Getinfo]"
    "list_all2 holds_bits outs (fst (clock_requests (delay_tap False) (v_chain (bridge sample_waiting)) [Shift 9 [0, 0] [0xA5, 1]]))"
    using zynqmp_serves_client [where kmalloc = "\<lambda>_ _. True" and heap = "\<lambda>_. 0" and beyond = "[]" and room = 0,
        OF fast_ref.fast_bridge_axioms [of delay_tap 3] _ probed_mapped sample_waiting_facts(1) e(1) sample_waiting_facts(3,2) b(1) _ _ p s(1)]
    by auto
  obtain z where z: "outs = [z]" "holds_bits z [True, True, False, True, False, False, True, False, True]"
    using x(4) by (auto simp: c b list_all2_Cons2)
  have "tx k' = [z, bytes_of ''xvcServer_v1.0:'' @ bytes_of ''2048'' @ [10]]" using x(3) unfolding z(1) i s(2) by simp
  moreover have "sockets st' 5 = Some k'" using x(2) by simp
  ultimately show ?thesis using x(1) z(2) unfolding e(2) by blast
qed

end
