(* ===== verification/Jtag_Config.thy ===== *)
theory Jtag_Config
  imports Jtag_Base
begin

text \<open>
  The driver of \<open>xvc_driver_base.c\<close> when \<open>xvc_user_config.h\<close> lists the bridges (a copy of
  \<open>xvc_user_config_example.h\<close>, as the README describes): one character file per entry, each with a bridge
  of its own at the address of the entry. The class, the character device and the calls are those of
  \<open>Jtag_Base\<close>; \<open>db_ptrs\<close> is an array, and the bridges are mapped by \<open>ioremap\<close>.
\<close>

section \<open>The configuration\<close>

text \<open>\<open>struct db_config\<close>: a name, which may be NULL, and the place of the bridge.\<close>

record db_entry =
  db_name :: "byte list option"
  db_place :: db_config

definition driver_name :: "byte list" where "driver_name = bytes_of ''xilinx_xvc_driver''"

definition db_configs :: "db_entry list" where
  "db_configs =
     [\<lparr>db_name = Some (bytes_of ''tree0''), db_place = \<lparr>base_addr = 0x90020000, db_size = 0x10000\<rparr>\<rparr>,
      \<lparr>db_name = Some (bytes_of ''tree1''), db_place = \<lparr>base_addr = 0x90030000, db_size = 0x10000\<rparr>\<rparr>]"

text \<open>\<open>sprintf\<close> into \<open>ioc_device_name\<close>, which has 32 bytes.\<close>

definition ioc_device_name :: "db_entry list \<Rightarrow> nat \<Rightarrow> byte list res" where
  "ioc_device_name cfg i =
     (let text = (case db_name (cfg ! i) of
                    Some (c # cs) \<Rightarrow> driver_name @ [0x5F] @ c # cs
                  | _ \<Rightarrow> if length cfg > 1 then driver_name @ [0x5F] @ fmt_u i else driver_name)
      in and_then (ensure (length text + 1 \<le> 32) Out_of_bounds) (\<lambda>_. Inr text))"

section \<open>The driver\<close>

text \<open>
  \<open>ptrs\<close> is \<open>db_ptrs\<close>: an address that \<open>ioremap\<close> returned stands for the physical region it maps. \<open>nodes\<close> are
  the device nodes that exist: the names, by minor number.
\<close>

record user_driver =
  base :: driver
  ptrs :: "db_config kptr list"
  nodes :: "nat \<Rightarrow> byte list option"

definition user_driver0 :: "db_entry list \<Rightarrow> user_driver" where
  "user_driver0 cfg = \<lparr>base = driver0, ptrs = replicate (length cfg) Null, nodes = \<lambda>_. None\<rparr>"

text \<open>What the kernel answers for the class, and for each bridge.\<close>

record user_kernel =
  shared :: kernel
  new_device_at :: "nat \<Rightarrow> unit kptr"
  remapped_at :: "nat \<Rightarrow> unit kptr"       \<comment> \<open>whether \<open>ioremap\<close> succeeds\<close>

fun ioremap :: "unit kptr \<Rightarrow> 64 word \<Rightarrow> 64 word \<Rightarrow> db_config kptr" where
  "ioremap Null addr sz = Null"
| "ioremap (Err_ptr n) addr sz = Err_ptr n"
| "ioremap (Ptr _) addr sz = Ptr \<lparr>base_addr = addr, db_size = sz\<rparr>"

definition on_base :: "(driver \<Rightarrow> driver) \<Rightarrow> user_driver \<Rightarrow> user_driver" where
  "on_base f d = d\<lparr>base := f (base d)\<rparr>"

lemma db_config_eta [simp]: "\<lparr>base_addr = base_addr m, db_size = db_size m\<rparr> = (m :: db_config)"
  by (cases m) simp

text \<open>The loop over the bridges from \<open>i\<close> on, with the variable \<open>status\<close>.\<close>

primrec probe_bridges :: "db_entry list \<Rightarrow> user_kernel \<Rightarrow> int \<Rightarrow> nat \<Rightarrow> nat \<Rightarrow> user_driver \<Rightarrow> (int \<times> user_driver) res" where
  "probe_bridges cfg e status i 0 d = Inr (0, d)"
| "probe_bridges cfg e status i (Suc n) d =
     (if ptrs d ! i \<noteq> Null then probe_bridges cfg e status (Suc i) n d
      else
        and_then (ioc_device_name cfg i) (\<lambda>name.
        let db_addr = base_addr (db_place (cfg ! i));
            db_sz = db_size (db_place (cfg ! i));
            d1 = on_base (call (Create_device i)) d
        in if IS_ERR (new_device_at e i) then Inr (status, on_base xil_xvc_cleanup d1)
        else
          let p = ioremap (remapped_at e i) db_addr db_sz;
              d2 = (on_base (call (Ioremap i)) d1)\<lparr>nodes := (nodes d1)(i \<mapsto> name), ptrs := (ptrs d1)[i := p]\<rparr>
          in if p = Null \<or> IS_ERR p then Inr (- ENOMEM, d2)
             else probe_bridges cfg e status (Suc i) n d2))"

definition user_probe :: "db_entry list \<Rightarrow> user_kernel \<Rightarrow> int \<Rightarrow> user_driver \<Rightarrow> (int \<times> user_driver) res" where
  "user_probe cfg e stack d =
     (if dev_class (base d) = Null then
        case make_class (shared e) (base d) of
          (Inl err, d1) \<Rightarrow> Inr (err, d\<lparr>base := d1\<rparr>)
        | (Inr status, d1) \<Rightarrow> probe_bridges cfg e status 0 (length cfg) (d\<lparr>base := d1\<rparr>)
      else probe_bridges cfg e stack 0 (length cfg) d)"

primrec remove_bridges :: "nat \<Rightarrow> nat \<Rightarrow> user_driver \<Rightarrow> user_driver" where
  "remove_bridges i 0 d = d"
| "remove_bridges i (Suc n) d =
     remove_bridges (Suc i) n
       (if ptrs d ! i \<noteq> Null then
          (on_base (call (Destroy_device i)) (on_base (call (Iounmap i)) d))
            \<lparr>ptrs := (ptrs d)[i := Null], nodes := (nodes d)(i := None)\<rparr>
        else d)"

definition user_remove :: "db_entry list \<Rightarrow> user_driver \<Rightarrow> int \<times> user_driver" where
  "user_remove cfg d = (0, remove_bridges 0 (length cfg) d)"

text \<open>The \<open>memset\<close> of \<open>sizeof(*db_ptrs)\<close> bytes clears the first element.\<close>

definition user_init :: "user_kernel \<Rightarrow> user_driver \<Rightarrow> int \<times> user_driver" where
  "user_init e d =
     (let d1 = on_base (call Alloc_region) d in
      if region_err (shared e) \<noteq> 0 then (region_err (shared e), on_base xil_xvc_cleanup d1)
      else (register_err (shared e), on_base (call Register_driver) (d1\<lparr>ptrs := (ptrs d1)[0 := Null]\<rparr>)))"

definition user_exit :: "user_driver \<Rightarrow> user_driver" where
  "user_exit d = on_base xil_xvc_exit d"

text \<open>
  The \<open>ioctl\<close> on the node with minor number \<open>j\<close>; \<open>b\<close> are the bridges, by physical address. The registers are
  those of the region that \<open>db_ptrs[j]\<close> maps; a NULL or an error pointer maps none.
\<close>

definition user_ioctl ::
    "db_entry list \<Rightarrow> 'b io \<Rightarrow> (nat \<Rightarrow> nat \<Rightarrow> bool) \<Rightarrow> (nat \<Rightarrow> byte) \<Rightarrow> byte list \<Rightarrow> user_driver \<Rightarrow> nat \<Rightarrow> (64 word \<Rightarrow> 'b) \<Rightarrow> ctrl_cmd \<Rightarrow>
     nat \<Rightarrow> ioc \<Rightarrow> bool \<Rightarrow> (int \<times> user_copy \<times> (64 word \<Rightarrow> 'b)) res" where
  "user_ioctl cfg io kmalloc heap stack d j b cmd arg_missing arg user_ok =
     (case cmd of
        XDMA_IOCXVC \<Rightarrow>
          and_then (ensure (j < length (ptrs d)) Out_of_bounds) (\<lambda>_.
          let (mapped, a) = (case ptrs d ! j of Ptr m \<Rightarrow> (True, base_addr m) | _ \<Rightarrow> (False, 0)) in
          and_then (xil_xvc_ioctl io mapped kmalloc heap (b a) arg_missing arg) (\<lambda>(status, out, b').
            Inr (status, (case out of None \<Rightarrow> Nothing | Some bs \<Rightarrow> Tdo bs), b(a := b'))))
      | XDMA_RDXVC_PROPS \<Rightarrow>
          and_then (ensure (j < length cfg) Out_of_bounds) (\<lambda>_.
          and_then (xil_xvc_readprops stack (Some (db_place (cfg ! j))) user_ok) (\<lambda>(status, p).
            Inr (status, (case p of None \<Rightarrow> Nothing | Some x \<Rightarrow> Properties x), b)))
      | Other_cmd \<Rightarrow> Inr (- ENOIOCTLCMD, Nothing, b))"

section \<open>What every operation keeps\<close>

text \<open>The class, the character device and the region, as in \<open>Jtag_Base\<close>.\<close>

definition class_ok :: "driver \<Rightarrow> bool" where
  "class_ok d \<longleftrightarrow>
     (dev_class d = Null \<or> dev_class d = Ptr ()) \<and> (cdev_owner d \<longleftrightarrow> dev_class d = Ptr ()) \<and>
     balance Create_class (Destroy_class (Ptr ())) d = (if dev_class d = Ptr () then 1 else 0) \<and>
     balance Cdev_add Cdev_del d = (if cdev_owner d then 1 else 0) \<and>
     balance Alloc_region Unregister_region d = 1"

text \<open>One bridge: its pointer, its mapping, its node and the name of the node.\<close>

definition bridge_ok :: "db_entry list \<Rightarrow> nat \<Rightarrow> user_driver \<Rightarrow> bool" where
  "bridge_ok cfg i d \<longleftrightarrow>
     (ptrs d ! i = Null \<or> ptrs d ! i = Ptr (db_place (cfg ! i))) \<and>
     balance (Create_device i) (Destroy_device i) (base d) = (if ptrs d ! i = Null then 0 else 1) \<and>
     balance (Ioremap i) (Iounmap i) (base d) = (if ptrs d ! i = Null then 0 else 1) \<and>
     (if ptrs d ! i = Null then nodes d i = None else \<exists>name. ioc_device_name cfg i = Inr name \<and> nodes d i = Some name)"

definition user_ok :: "db_entry list \<Rightarrow> user_driver \<Rightarrow> bool" where
  "user_ok cfg d \<longleftrightarrow>
     class_ok (base d) \<and> length (ptrs d) = length cfg \<and> (\<forall>i < length cfg. bridge_ok cfg i d) \<and>
     ((\<exists>i < length cfg. ptrs d ! i \<noteq> Null) \<longrightarrow> dev_class (base d) = Ptr ())"

text \<open>The names are short enough, and the kernel makes what it is asked for.\<close>

definition names_fit :: "db_entry list \<Rightarrow> bool" where
  "names_fit cfg \<longleftrightarrow> (\<forall>i < length cfg. \<exists>name. ioc_device_name cfg i = Inr name)"

definition grants_all :: "db_entry list \<Rightarrow> user_kernel \<Rightarrow> bool" where
  "grants_all cfg e \<longleftrightarrow> new_class (shared e) = Ptr () \<and> cdev_err (shared e) = 0 \<and>
     (\<forall>i < length cfg. new_device_at e i = Ptr () \<and> remapped_at e i = Ptr ())"

lemma balance_call:
  "get \<noteq> put \<Longrightarrow> balance get put (call c d) = balance get put d + (if c = get then 1 else if c = put then - 1 else 0)"
  by (simp add: balance_def call_def)

lemma call_fields [simp]:
  "dev_class (call c d) = dev_class d" "cdev_owner (call c d) = cdev_owner d"
  by (simp_all add: call_def)

lemma class_ok_device:
  "class_ok (call (Create_device i) d) = class_ok d" "class_ok (call (Destroy_device i) d) = class_ok d"
  "class_ok (call (Ioremap i) d) = class_ok d" "class_ok (call (Iounmap i) d) = class_ok d"
  by (simp_all add: class_ok_def balance_call)

lemma name_if_fits: "names_fit cfg \<Longrightarrow> i < length cfg \<Longrightarrow> \<exists>name. ioc_device_name cfg i = Inr name"
  by (simp add: names_fit_def)

text \<open>The state after bridge \<open>i\<close> is made, and after it is removed.\<close>

definition with_bridge :: "nat \<Rightarrow> db_config \<Rightarrow> byte list \<Rightarrow> user_driver \<Rightarrow> user_driver" where
  "with_bridge i place name d = (on_base (call (Ioremap i)) (on_base (call (Create_device i)) d))
     \<lparr>nodes := (nodes d)(i \<mapsto> name), ptrs := (ptrs d)[i := Ptr place]\<rparr>"

definition without_bridge :: "nat \<Rightarrow> user_driver \<Rightarrow> user_driver" where
  "without_bridge i d = (on_base (call (Destroy_device i)) (on_base (call (Iounmap i)) d))
     \<lparr>ptrs := (ptrs d)[i := Null], nodes := (nodes d)(i := None)\<rparr>"

lemma with_bridge_ok:
  assumes "user_ok cfg d" "i < length cfg" "ptrs d ! i = Null" "ioc_device_name cfg i = Inr name" "dev_class (base d) = Ptr ()"
  shows "user_ok cfg (with_bridge i (db_place (cfg ! i)) name d)"
proof -
  have l: "length (ptrs d) = length cfg" and b: "\<forall>j < length cfg. bridge_ok cfg j d" and c: "class_ok (base d)"
    using assms(1) by (simp_all add: user_ok_def)
  have "bridge_ok cfg j (with_bridge i (db_place (cfg ! i)) name d)" if "j < length cfg" for j
    using b that assms(2,3,4) l
    by (cases "j = i") (auto simp: bridge_ok_def with_bridge_def on_base_def balance_call)
  then show ?thesis
    using l c assms(5) by (simp add: user_ok_def) (simp add: with_bridge_def on_base_def class_ok_device)
qed

lemma without_bridge_ok:
  assumes "user_ok cfg d" "i < length cfg" "ptrs d ! i \<noteq> Null"
  shows "user_ok cfg (without_bridge i d)"
proof -
  have l: "length (ptrs d) = length cfg" and b: "\<forall>j < length cfg. bridge_ok cfg j d" and c: "class_ok (base d)"
    and k: "dev_class (base d) = Ptr ()"
    using assms by (auto simp: user_ok_def)
  have "bridge_ok cfg j (without_bridge i d)" if "j < length cfg" for j
    using b that assms(2,3) l
    by (cases "j = i") (auto simp: bridge_ok_def without_bridge_def on_base_def balance_call)
  then show ?thesis
    using l c k by (simp add: user_ok_def) (simp add: without_bridge_def on_base_def class_ok_device)
qed

lemma probe_bridges_ok:
  assumes "names_fit cfg" "grants_all cfg e" "i + n = length cfg" "user_ok cfg d" "dev_class (base d) = Ptr ()"
    and "\<forall>j < i. ptrs d ! j = Ptr (db_place (cfg ! j))"
  shows "\<exists>d'. probe_bridges cfg e status i n d = Inr (0, d') \<and> user_ok cfg d' \<and> (\<forall>j < length cfg. ptrs d' ! j = Ptr (db_place (cfg ! j)))"
  using assms(3-6)
proof (induction n arbitrary: i d)
  case 0
  then show ?case by simp
next
  case (Suc n)
  have i: "i < length cfg" "Suc i + n = length cfg" using Suc.prems(1) by simp_all
  have l: "length (ptrs d) = length cfg" and p: "ptrs d ! i = Null \<or> ptrs d ! i = Ptr (db_place (cfg ! i))"
    using Suc.prems(2) i by (auto simp: user_ok_def bridge_ok_def)
  show ?case
  proof (cases "ptrs d ! i = Null")
    case False
    then have "\<forall>j < Suc i. ptrs d ! j = Ptr (db_place (cfg ! j))" using p Suc.prems(4) less_Suc_eq by auto
    from Suc.IH [OF i(2) Suc.prems(2,3) this] False show ?thesis by simp
  next
    case True
    obtain name where nm: "ioc_device_name cfg i = Inr name" using name_if_fits [OF assms(1) i(1)] by blast
    let ?d = "with_bridge i (db_place (cfg ! i)) name d"
    have "\<forall>j < Suc i. ptrs ?d ! j = Ptr (db_place (cfg ! j))"
      using Suc.prems(4) l i(1) by (auto simp: with_bridge_def on_base_def nth_list_update less_Suc_eq)
    moreover have "dev_class (base ?d) = Ptr ()" using Suc.prems(3) by (simp add: with_bridge_def on_base_def)
    ultimately obtain d' where "probe_bridges cfg e status (Suc i) n ?d = Inr (0, d')" "user_ok cfg d'"
      "\<forall>j < length cfg. ptrs d' ! j = Ptr (db_place (cfg ! j))"
      using Suc.IH [OF i(2) with_bridge_ok [OF Suc.prems(2) i(1) True nm Suc.prems(3)]] by blast
    moreover have "new_device_at e i = Ptr ()" "remapped_at e i = Ptr ()" using assms(2) i(1) by (simp_all add: grants_all_def)
    ultimately show ?thesis using True nm by (simp add: Let_def IS_ERR_def with_bridge_def on_base_def)
  qed
qed

lemma remove_bridges_ok:
  assumes "i + n = length cfg" "user_ok cfg d" "\<forall>j < i. ptrs d ! j = Null"
  shows "user_ok cfg (remove_bridges i n d) \<and> (\<forall>j < length cfg. ptrs (remove_bridges i n d) ! j = Null)"
  using assms
proof (induction n arbitrary: i d)
  case 0
  then show ?case by simp
next
  case (Suc n)
  have i: "i < length cfg" "Suc i + n = length cfg" using Suc.prems(1) by simp_all
  have l: "length (ptrs d) = length cfg" using Suc.prems(2) by (simp add: user_ok_def)
  show ?case
  proof (cases "ptrs d ! i = Null")
    case True
    then have "\<forall>j < Suc i. ptrs d ! j = Null" using Suc.prems(3) less_Suc_eq by auto
    from Suc.IH [OF i(2) Suc.prems(2) this] True show ?thesis by simp
  next
    case False
    have "\<forall>j < Suc i. ptrs (without_bridge i d) ! j = Null"
      using Suc.prems(3) l i(1) by (auto simp: without_bridge_def on_base_def nth_list_update less_Suc_eq)
    from Suc.IH [OF i(2) without_bridge_ok [OF Suc.prems(2) i(1) False] this] False
    show ?thesis by (simp add: without_bridge_def)
  qed
qed

section \<open>The life of the module\<close>

datatype user_event = Probe_all user_kernel int | Remove_all

fun user_handle :: "db_entry list \<Rightarrow> user_event \<Rightarrow> user_driver \<Rightarrow> user_driver res" where
  "user_handle cfg (Probe_all e stack) d = and_then (user_probe cfg e stack d) (\<lambda>(_, d'). Inr d')"
| "user_handle cfg Remove_all d = Inr (snd (user_remove cfg d))"

primrec user_life :: "db_entry list \<Rightarrow> user_event list \<Rightarrow> user_driver \<Rightarrow> user_driver res" where
  "user_life cfg [] d = Inr d"
| "user_life cfg (ev # evs) d = and_then (user_handle cfg ev d) (user_life cfg evs)"

fun event_granted :: "db_entry list \<Rightarrow> user_event \<Rightarrow> bool" where
  "event_granted cfg (Probe_all e stack) \<longleftrightarrow> grants_all cfg e"
| "event_granted cfg Remove_all \<longleftrightarrow> True"

text \<open>Whether the last of the events is a probe.\<close>

fun ends_probed :: "bool \<Rightarrow> user_event list \<Rightarrow> bool" where
  "ends_probed b [] = b"
| "ends_probed b (Probe_all e stack # evs) = ends_probed True evs"
| "ends_probed b (Remove_all # evs) = ends_probed False evs"

definition all_bridges :: "db_entry list \<Rightarrow> bool \<Rightarrow> user_driver \<Rightarrow> bool" where
  "all_bridges cfg b d \<longleftrightarrow> (\<forall>i < length cfg. ptrs d ! i = (if b then Ptr (db_place (cfg ! i)) else Null))"

lemma user_probe_ok:
  assumes "names_fit cfg" "grants_all cfg e" "user_ok cfg d"
  shows "\<exists>d'. user_probe cfg e stack d = Inr (0, d') \<and> user_ok cfg d' \<and> all_bridges cfg True d'"
proof (cases "dev_class (base d) = Null")
  case False
  then have "dev_class (base d) = Ptr ()" using assms(3) by (auto simp: user_ok_def class_ok_def)
  from probe_bridges_ok [OF assms(1,2) _ assms(3) this, of 0 "length cfg" stack] False show ?thesis
    by (auto simp: user_probe_def all_bridges_def)
next
  case True
  define d1 where "d1 = snd (make_class (shared e) (base d))"
  have c: "class_ok (base d)" using assms(3) by (simp add: user_ok_def)
  have m: "make_class (shared e) (base d) = (Inr 0, d1)" and p: "dev_class d1 = Ptr ()"
    using assms(2) by (simp_all add: d1_def make_class_def grants_all_def Let_def)
  have "class_ok d1"
    using c True assms(2) by (simp add: d1_def make_class_def grants_all_def class_ok_def balance_def call_def Let_def)
  moreover have "bridge_ok cfg i (d\<lparr>base := d1\<rparr>) = bridge_ok cfg i d" for i
    using assms(2) by (simp add: d1_def make_class_def grants_all_def bridge_ok_def balance_def call_def Let_def)
  ultimately have "user_ok cfg (d\<lparr>base := d1\<rparr>)" using assms(3) p by (simp add: user_ok_def)
  from probe_bridges_ok [OF assms(1,2) _ this, of 0 "length cfg" 0] True p m show ?thesis
    by (auto simp: user_probe_def all_bridges_def)
qed

lemma user_life_ok:
  assumes "names_fit cfg" "\<forall>ev \<in> set evs. event_granted cfg ev" "user_ok cfg d" "all_bridges cfg b d"
  shows "\<exists>d'. user_life cfg evs d = Inr d' \<and> user_ok cfg d' \<and> all_bridges cfg (ends_probed b evs) d'"
  using assms(2-4)
proof (induction evs arbitrary: d b)
  case Nil
  then show ?case by simp
next
  case (Cons ev evs)
  show ?case
  proof (cases ev)
    case (Probe_all e stack)
    then have "grants_all cfg e" using Cons.prems(1) by simp
    from user_probe_ok [OF assms(1) this Cons.prems(2), of stack] obtain d1 where
      "user_probe cfg e stack d = Inr (0, d1)" "user_ok cfg d1" "all_bridges cfg True d1" by blast
    then show ?thesis using Cons.IH [of d1 True] Cons.prems(1) Probe_all by simp
  next
    case Remove_all
    have "user_ok cfg (remove_bridges 0 (length cfg) d)" "all_bridges cfg False (remove_bridges 0 (length cfg) d)"
      using remove_bridges_ok [of 0 "length cfg" cfg d] Cons.prems(2) by (simp_all add: all_bridges_def)
    then show ?thesis using Cons.IH [of _ False] Cons.prems(1) Remove_all by (simp add: user_remove_def)
  qed
qed

lemma user_init_ok:
  assumes "region_err (shared e) = 0"
  shows "user_ok cfg (snd (user_init e (user_driver0 cfg)))" "all_bridges cfg False (snd (user_init e (user_driver0 cfg)))"
proof -
  have n: "(replicate (length cfg) (Null :: db_config kptr))[0 := Null] = replicate (length cfg) Null" by (cases cfg) simp_all
  show "user_ok cfg (snd (user_init e (user_driver0 cfg)))" "all_bridges cfg False (snd (user_init e (user_driver0 cfg)))"
    using assms n
    by (simp_all add: user_ok_def class_ok_def bridge_ok_def all_bridges_def user_init_def user_driver0_def on_base_def
        driver0_def call_def balance_def Let_def)
qed

section \<open>Properties\<close>

text \<open>
  The exit unregisters the driver, and the kernel removes the device if it is bound then; every granted
  probe returns 0 and so binds it.
\<close>

definition user_detach :: "db_entry list \<Rightarrow> bool \<Rightarrow> user_driver \<Rightarrow> user_driver" where
  "user_detach cfg bound d = (if bound then snd (user_remove cfg d) else d)"

lemma user_detach_ok:
  assumes "user_ok cfg d" "all_bridges cfg b d"
  shows "user_ok cfg (user_detach cfg b d) \<and> all_bridges cfg False (user_detach cfg b d)"
  using assms remove_bridges_ok [of 0 "length cfg" cfg d]
  by (cases b) (simp_all add: user_detach_def user_remove_def all_bridges_def)

lemma user_exit_releases:
  assumes "user_ok cfg d"
  shows "balance Alloc_region Unregister_region (base (user_exit d)) = 0"
    "balance Cdev_add Cdev_del (base (user_exit d)) = 0"
    "balance Create_class (Destroy_class (Ptr ())) (base (user_exit d)) = 0"
    "nodes (user_exit d) = nodes d"
    "balance (Create_device i) (Destroy_device i) (base (user_exit d)) = balance (Create_device i) (Destroy_device i) (base d)"
    "balance (Ioremap i) (Iounmap i) (base (user_exit d)) = balance (Ioremap i) (Iounmap i) (base d)"
  using assms
  by (auto simp: user_ok_def class_ok_def user_exit_def on_base_def xil_xvc_exit_def xil_xvc_cleanup_def IS_ERR_def call_def
      balance_def Let_def)


definition sample_user_kernel :: user_kernel where
  "sample_user_kernel = \<lparr>shared = sample_kernel, new_device_at = \<lambda>_. Ptr (), remapped_at = \<lambda>_. Ptr ()\<rparr>"

lemma example_names:
  "ioc_device_name db_configs 0 = Inr (driver_name @ bytes_of ''_tree0'')"
  "ioc_device_name db_configs 1 = Inr (driver_name @ bytes_of ''_tree1'')"
  by (simp_all add: ioc_device_name_def db_configs_def driver_name_def bytes_of_def Let_def)

lemma example_fits: "names_fit db_configs" "length db_configs = 2"
proof -
  show l: "length db_configs = 2" by (simp add: db_configs_def)
  show "names_fit db_configs" unfolding names_fit_def l using example_names by (auto simp: less_2_cases_iff)
qed

lemma sample_user_grants: "grants_all cfg sample_user_kernel" "region_err (shared sample_user_kernel) = 0"
  by (simp_all add: grants_all_def sample_user_kernel_def sample_kernel_def)


text \<open>C26. After a probe the character files are independent, given that the kernel makes what it is asked for: an
  \<open>ioctl\<close> on the node of an entry shifts the bits, in order, through the chain of the bridge at the address
  of that entry, and no bridge at another address is accessed; and the properties it reports are the
  address and the size of its own entry.\<close>

theorem user_bridges_independent:
  assumes "names_fit cfg" "region_err (shared e) = 0" "\<forall>ev \<in> set evs. event_granted cfg ev" "ends_probed False evs" "j < length cfg"
    and "fast_bridge io view tap" "v_busy (view (b (base_addr (db_place (cfg ! j))))) = 0" "i_opcode arg = 1 \<or> i_opcode arg = 2"
    and "unat (i_length arg) < 2 ^ 31" "\<And>i. kmalloc i (shift_bytes (i_length arg))"
    and "shift_bytes (i_length arg) \<le> length (i_tms arg)" "shift_bytes (i_length arg) \<le> length (i_tdi arg)"
    and "shift_bytes (i_length arg) \<le> i_tdo_room arg" "length compat_string < length stack"
  shows "\<exists>d tdo b' p. user_life cfg evs (snd (user_init e (user_driver0 cfg))) = Inr d \<and>
    user_ioctl cfg io kmalloc heap stack d j b XDMA_IOCXVC 0 arg True = Inr (0, Tdo tdo, b') \<and>
    (\<forall>i < unat (i_length arg). bit_at tdo i =
       fst (clock_bits (tap (i_opcode arg = 2)) (v_chain (view (b (base_addr (db_place (cfg ! j))))))
              (pins (i_tms arg) (i_tdi arg) 0 (unat (i_length arg)))) ! i) \<and>
    v_chain (view (b' (base_addr (db_place (cfg ! j))))) =
       snd (clock_bits (tap (i_opcode arg = 2)) (v_chain (view (b (base_addr (db_place (cfg ! j))))))
              (pins (i_tms arg) (i_tdi arg) 0 (unat (i_length arg)))) \<and>
    (\<forall>a. a \<noteq> base_addr (db_place (cfg ! j)) \<longrightarrow> b' a = b a) \<and>
    user_ioctl cfg io kmalloc heap stack d j b XDMA_RDXVC_PROPS 0 arg True = Inr (0, Properties p, b) \<and>
    debug_bridge_base_addr p = base_addr (db_place (cfg ! j)) \<and> debug_bridge_size p = db_size (db_place (cfg ! j))"
proof -
  let ?a = "base_addr (db_place (cfg ! j))"
  obtain d where d: "user_life cfg evs (snd (user_init e (user_driver0 cfg))) = Inr d" "user_ok cfg d" "all_bridges cfg True d"
    using user_life_ok [OF assms(1,3) user_init_ok [OF assms(2)]] assms(4) by auto
  have j: "j < length (ptrs d)" "ptrs d ! j = Ptr (db_place (cfg ! j))" using d(2,3) assms(5) by (simp_all add: user_ok_def all_bridges_def)
  have x: "\<exists>tdo b'. xil_xvc_ioctl io True kmalloc heap (b ?a) 0 arg = Inr (0, Some tdo, b') \<and>
    length tdo = (unat (i_length arg) + 7) div 8 \<and>
    (\<forall>i < unat (i_length arg). bit_at tdo i =
       fst (clock_bits (tap (i_opcode arg = 2)) (v_chain (view (b ?a)))
              (pins (i_tms arg) (i_tdi arg) 0 (unat (i_length arg)))) ! i) \<and>
    v_chain (view b') =
       snd (clock_bits (tap (i_opcode arg = 2)) (v_chain (view (b ?a)))
              (pins (i_tms arg) (i_tdi arg) 0 (unat (i_length arg)))) \<and>
    v_busy (view b') = 0"
    by (rule fast_bridge.ioctl_serial [OF assms(6,7)]) (fact assms(8-13))+
  then obtain tdo b1 where s: "xil_xvc_ioctl io True kmalloc heap (b ?a) 0 arg = Inr (0, Some tdo, b1)"
    and o: "\<forall>i < unat (i_length arg). bit_at tdo i =
       fst (clock_bits (tap (i_opcode arg = 2)) (v_chain (view (b ?a)))
              (pins (i_tms arg) (i_tdi arg) 0 (unat (i_length arg)))) ! i"
      "v_chain (view b1) =
       snd (clock_bits (tap (i_opcode arg = 2)) (v_chain (view (b ?a)))
              (pins (i_tms arg) (i_tdi arg) 0 (unat (i_length arg))))" by blast
  have i: "user_ioctl cfg io kmalloc heap stack d j b XDMA_IOCXVC 0 arg True = Inr (0, Tdo tdo, b(?a := b1))"
    using s j by (simp add: user_ioctl_def)
  obtain name where "write_at stack 0 (compat_string @ [0]) = Inr name" using assms(14) by (simp add: write_at_def)
  then have p: "user_ioctl cfg io kmalloc heap stack d j b XDMA_RDXVC_PROPS 0 arg True =
      Inr (0, Properties \<lparr>debug_bridge_base_addr = base_addr (db_place (cfg ! j)), debug_bridge_size = db_size (db_place (cfg ! j)),
        debug_bridge_compat_string = name\<rparr>, b)"
    using assms(5) by (simp add: user_ioctl_def xil_xvc_readprops_def)
  show ?thesis
    using d(1) i o p by (intro exI [of _ d] exI [of _ tdo] exI [of _ "b(?a := b1)"] exI) auto
qed

definition two_bridges :: "64 word \<Rightarrow> bool view" where
  "two_bridges = (\<lambda>_. sample_view\<lparr>v_busy := 7\<rparr>)(0x90030000 := sample_view)"

theorem user_bridges_independent_witness:
  "\<exists>d tdo b'. user_life db_configs [Probe_all sample_user_kernel 7] (snd (user_init sample_user_kernel (user_driver0 db_configs))) = Inr d \<and>
    user_ioctl db_configs (ref_io delay_tap (min 3 99)) (\<lambda>_ _. True) (\<lambda>_. 0) (replicate 32 0) d 1 two_bridges
      XDMA_IOCXVC 0 (sample_ioc 9) True = Inr (0, Tdo tdo, b') \<and> b' 0x90020000 = sample_view\<lparr>v_busy := 7\<rparr>"
proof -
  have ev: "\<forall>ev \<in> set [Probe_all sample_user_kernel 7]. event_granted db_configs ev" by (simp add: sample_user_grants)
  have a: "unat (i_length (sample_ioc 9)) < 2 ^ 31" "i_opcode (sample_ioc 9) = 1 \<or> i_opcode (sample_ioc 9) = 2"
    "shift_bytes (i_length (sample_ioc 9)) \<le> length (i_tms (sample_ioc 9))" "shift_bytes (i_length (sample_ioc 9)) \<le> length (i_tdi (sample_ioc 9))"
    "shift_bytes (i_length (sample_ioc 9)) \<le> i_tdo_room (sample_ioc 9)"
    by (simp_all add: sample_ioc_def shift_bytes_def)
  have v: "v_busy (two_bridges (base_addr (db_place (db_configs ! 1)))) = 0" "base_addr (db_place (db_configs ! 1)) = 0x90030000"
    by (simp_all add: two_bridges_def db_configs_def sample_view_def)
  have o: "two_bridges 0x90020000 = sample_view\<lparr>v_busy := 7\<rparr>" by (simp add: two_bridges_def)
  have c: "length compat_string < length (replicate 32 0 :: byte list)" by (simp add: compat_string_def)
  have l: "1 < length db_configs" "ends_probed False [Probe_all sample_user_kernel 7]" by (simp_all add: example_fits)
  show ?thesis
    using user_bridges_independent [where b = two_bridges and j = 1 and kmalloc = "\<lambda>_ _. True" and heap = "\<lambda>_. 0" and
        io = "ref_io delay_tap (min 3 99)" and view = "\<lambda>b. b" and tap = delay_tap,
        OF example_fits(1) sample_user_grants(2) ev l(2,1) fast_ref.fast_bridge_axioms v(1) a(2,1) _ a(3-5) c] o v(2) by fastforce
qed

section \<open>A mapping that fails\<close>

lemma remove_bridges_skips:
  assumes "ptrs d ! j = Null"
  shows "nodes (remove_bridges i n d) j = nodes d j \<and>
    balance (Create_device j) (Destroy_device j) (base (remove_bridges i n d)) = balance (Create_device j) (Destroy_device j) (base d)"
  using assms
proof (induction n arbitrary: i d)
  case (Suc n)
  show ?case
  proof (cases "ptrs d ! i = Null")
    case True
    then show ?thesis using Suc by simp
  next
    case False
    then have n: "i \<noteq> j" using Suc.prems by auto
    have "ptrs (without_bridge i d) ! j = Null" using Suc.prems n by (simp add: without_bridge_def)
    from Suc.IH [OF this, of "Suc i"] False n show ?thesis
      by (simp add: without_bridge_def on_base_def balance_call)
  qed
qed simp

lemma probe_bridges_unmapped:
  assumes "names_fit cfg" "j < length cfg" "remapped_at e j = Null" "\<forall>i < length cfg. new_device_at e i = Ptr ()" "\<forall>i < j. remapped_at e i = Ptr ()"
    and "i + n = length cfg" "i \<le> j" "user_ok cfg d" "dev_class (base d) = Ptr ()" "ptrs d ! j = Null"
  shows "\<exists>d' name. probe_bridges cfg e status i n d = Inr (- ENOMEM, d') \<and> nodes d' j = Some name \<and> ptrs d' ! j = Null \<and>
    balance (Create_device j) (Destroy_device j) (base d') = 1"
  using assms(6-10)
proof (induction n arbitrary: i d)
  case 0
  then show ?case using assms(2) by simp
next
  case (Suc n)
  have i: "i < length cfg" "Suc i + n = length cfg" using Suc.prems(1) by simp_all
  have l: "length (ptrs d) = length cfg" using Suc.prems(3) by (simp add: user_ok_def)
  obtain name where nm: "ioc_device_name cfg i = Inr name" using name_if_fits [OF assms(1) i(1)] by blast
  have nd: "new_device_at e i = Ptr ()" using assms(4) i(1) by simp
  show ?case
  proof (cases "i = j")
    case True
    have "bridge_ok cfg j d" using Suc.prems(3) assms(2) by (simp add: user_ok_def)
    then have "balance (Create_device j) (Destroy_device j) (base d) = 0" using Suc.prems(5) by (simp add: bridge_ok_def)
    then show ?thesis
      using True Suc.prems(5) nm nd assms(3) l i(1) by (simp add: Let_def IS_ERR_def on_base_def balance_call)
  next
    case False
    then have lt: "Suc i \<le> j" using Suc.prems(2) by simp
    show ?thesis
    proof (cases "ptrs d ! i = Null")
      case False
      then show ?thesis using Suc.IH [OF i(2) lt Suc.prems(3-5)] by simp
    next
      case True
      let ?d = "with_bridge i (db_place (cfg ! i)) name d"
      have "dev_class (base ?d) = Ptr ()" "ptrs ?d ! j = Null"
        using Suc.prems(4,5) False by (simp_all add: with_bridge_def on_base_def)
      from Suc.IH [OF i(2) lt with_bridge_ok [OF Suc.prems(3) i(1) True nm Suc.prems(4)] this] show ?thesis
        using True nm nd assms(5) lt by (simp add: Let_def IS_ERR_def with_bridge_def on_base_def)
    qed
  qed
qed

text \<open>C38. When \<open>ioremap\<close> fails for a bridge of the configuration, \<open>probe\<close> returns \<open>-ENOMEM\<close> but has made the node of the
  bridge, and nothing destroys it: \<open>remove\<close> skips a bridge whose pointer is NULL, and the exit of the module
  leaves the node behind.\<close>

theorem unmapped_bridge_leaks_node:
  assumes "names_fit cfg" "j < length cfg" "remapped_at e j = Null" "\<forall>i < length cfg. new_device_at e i = Ptr ()"
    and "\<forall>i < j. remapped_at e i = Ptr ()" "region_err (shared e) = 0" "new_class (shared e) = Ptr ()" "cdev_err (shared e) = 0"
  shows "\<exists>d name. user_probe cfg e stack (snd (user_init e (user_driver0 cfg))) = Inr (- ENOMEM, d) \<and>
    (let d' = user_exit (snd (user_remove cfg d)) in
       nodes d' j = Some name \<and> balance (Create_device j) (Destroy_device j) (base d') = 1)"
proof -
  let ?d0 = "snd (user_init e (user_driver0 cfg))"
  define d1 where "d1 = snd (make_class (shared e) (base ?d0))"
  have ok: "user_ok cfg ?d0" and z: "ptrs ?d0 ! j = Null"
    using user_init_ok [OF assms(6), of cfg] assms(2) by (simp_all add: all_bridges_def)
  have n: "dev_class (base ?d0) = Null"
    using assms(6) by (simp add: user_init_def user_driver0_def on_base_def driver0_def Let_def)
  have m: "make_class (shared e) (base ?d0) = (Inr 0, d1)" "dev_class d1 = Ptr ()"
    using assms(7,8) by (simp_all add: d1_def make_class_def Let_def)
  have "class_ok (base ?d0)" using ok by (simp add: user_ok_def)
  then have "class_ok d1" using n assms(7,8) by (simp add: d1_def make_class_def class_ok_def balance_def call_def Let_def)
  moreover have "bridge_ok cfg i (?d0\<lparr>base := d1\<rparr>) = bridge_ok cfg i ?d0" for i
    using assms(7,8) by (simp add: d1_def make_class_def bridge_ok_def balance_def call_def Let_def)
  ultimately have "user_ok cfg (?d0\<lparr>base := d1\<rparr>)" using ok m(2) by (simp add: user_ok_def)
  from probe_bridges_unmapped [OF assms(1-5) _ _ this, of 0 "length cfg" 0] z m(2) obtain d name where
    p: "probe_bridges cfg e 0 0 (length cfg) (?d0\<lparr>base := d1\<rparr>) = Inr (- ENOMEM, d)" "nodes d j = Some name" "ptrs d ! j = Null"
      "balance (Create_device j) (Destroy_device j) (base d) = 1" by auto
  have "user_probe cfg e stack ?d0 = Inr (- ENOMEM, d)" using n m(1) p(1) by (simp add: user_probe_def)
  moreover have "nodes (user_exit (snd (user_remove cfg d))) j = Some name"
    using remove_bridges_skips [OF p(3)] p(2) by (simp add: user_remove_def user_exit_def on_base_def)
  moreover have "balance (Create_device j) (Destroy_device j) (xil_xvc_exit x) = balance (Create_device j) (Destroy_device j) x" for x
    by (simp add: xil_xvc_exit_def xil_xvc_cleanup_def Let_def balance_def call_def)
  then have "balance (Create_device j) (Destroy_device j) (base (user_exit (snd (user_remove cfg d)))) = 1"
    using remove_bridges_skips [OF p(3)] p(4) by (simp add: user_remove_def user_exit_def on_base_def)
  ultimately show ?thesis by (auto simp: Let_def)
qed

theorem unmapped_bridge_leaks_node_witness:
  "\<exists>d name. user_probe db_configs (sample_user_kernel\<lparr>remapped_at := (\<lambda>_. Ptr ())(1 := Null)\<rparr>) 7
      (snd (user_init (sample_user_kernel\<lparr>remapped_at := (\<lambda>_. Ptr ())(1 := Null)\<rparr>) (user_driver0 db_configs))) = Inr (- ENOMEM, d) \<and>
    (let d' = user_exit (snd (user_remove db_configs d)) in
       nodes d' 1 = Some name \<and> balance (Create_device 1) (Destroy_device 1) (base d') = 1)"
  by (rule unmapped_bridge_leaks_node)
     (simp_all only: example_fits, simp_all add: sample_user_kernel_def sample_kernel_def)

end
