(* ===== verification/Jtag_Verify.thy ===== *)
theory Jtag_Verify
  imports Jtag_User
begin

unbundle bit_operations_syntax

text \<open>
  The test program \<open>jtag/zynqMP/src/user/verify_xilinx_xvc_driver.c\<close>: it shifts a pattern through the bridge in
  bypass mode with one \<open>ioctl\<close> on the driver of \<open>Jtag_Base\<close> and compares what comes back. \<open>vb_junk\<close> is
  what the variable \<open>vb\<close>, which is never set, holds. The times, which are only printed, are left out.
\<close>

section \<open>Sizes and patterns\<close>

text \<open>\<open>BYTE_ALIGN\<close> on an \<open>unsigned\<close>.\<close>

definition byte_align :: "32 word \<Rightarrow> 32 word" where "byte_align a = (a + 7) div 8"

text \<open>The list ends with 0; reading on past its end is out of bounds.\<close>

primrec find_max_loop :: "32 word list \<Rightarrow> 32 word \<Rightarrow> 32 word res" where
  "find_max_loop [] max_bits = Inl Out_of_bounds"
| "find_max_loop (n # ns) max_bits =
     (if n = 0 then Inr max_bits else find_max_loop ns (if max_bits > n then max_bits else n))"

definition findMaxBytes :: "32 word list \<Rightarrow> nat res" where
  "findMaxBytes nbits_list = and_then (find_max_loop nbits_list 0) (\<lambda>m. Inr (unat (byte_align m)))"

definition strlen :: "byte list \<Rightarrow> nat res" where
  "strlen s = (if 0 \<in> set s then Inr (length (cstring s)) else Inl Out_of_bounds)"

definition rotatePattern :: "byte list \<Rightarrow> byte list res" where
  "rotatePattern pattern =
     and_then (strlen pattern) (\<lambda>n.
     let m = u32 (n + 2 ^ 32 - 1) in
     and_then (read_at pattern 0) (\<lambda>c.
     and_then (read_range pattern 1 m) (\<lambda>bs.
     and_then (write_at pattern 0 bs) (\<lambda>p1.
       write_at p1 m [c]))))"

section \<open>One test\<close>

record test_bufs =
  t_tms :: "byte list"
  t_tdi :: "byte list"
  t_tdo :: "byte list"

text \<open>\<open>MIN(pat_nbytes, cmd_nbytes)\<close> bytes at a time, whatever is left.\<close>

function fill_loop :: "byte list \<Rightarrow> nat \<Rightarrow> nat \<Rightarrow> nat \<Rightarrow> byte list \<Rightarrow> byte list res" where
  "fill_loop pattern pat_nbytes cmd_nbytes fill_nbytes tdi =
     (if fill_nbytes < cmd_nbytes then
        let nbytes = (if pat_nbytes < cmd_nbytes then pat_nbytes else cmd_nbytes)
        in if nbytes = 0 then Inl Hang
           else
             and_then (read_range pattern 0 nbytes) (\<lambda>bs.
             and_then (write_at tdi fill_nbytes bs) (\<lambda>tdi'.
               fill_loop pattern pat_nbytes cmd_nbytes (fill_nbytes + nbytes) tdi'))
      else Inr tdi)"
  by pat_completeness auto
termination
  by (relation "measure (\<lambda>(p, pat, cmd, fill, tdi). cmd - fill)") auto

declare fill_loop.simps [simp del]

text \<open>Whether the bits from \<open>vb\<close> on are equal, a byte at a time.\<close>

function verify_loop :: "byte list \<Rightarrow> byte list \<Rightarrow> nat \<Rightarrow> nat \<Rightarrow> bool res" where
  "verify_loop tdi tdo cmd_nbits vb =
     (if vb < cmd_nbits then
        let nbits = (if cmd_nbits - vb < 8 then cmd_nbits - vb else 8);
            mask = drop_bit (8 - nbits) 0xFF :: 32 word;
            index = vb div 8
        in and_then (read_at tdi index) (\<lambda>x.
           and_then (read_at tdo index) (\<lambda>y.
             if ucast x AND mask \<noteq> ucast y AND mask then Inr False
             else verify_loop tdi tdo cmd_nbits (vb + nbits)))
      else Inr True)"
  by pat_completeness auto
termination
  by (relation "measure (\<lambda>(tdi, tdo, n, vb). n - vb)") auto

declare verify_loop.simps [simp del]

text \<open>The result is what \<open>testXVC\<close> returns, the buffers and the bridge.\<close>

definition testXVC ::
    "'b io \<Rightarrow> (nat \<Rightarrow> nat \<Rightarrow> bool) \<Rightarrow> (nat \<Rightarrow> byte) \<Rightarrow> driver \<Rightarrow> nat \<Rightarrow> test_bufs \<Rightarrow> 32 word \<Rightarrow> byte list \<Rightarrow> 'b \<Rightarrow>
     (int \<times> test_bufs \<times> 'b) res" where
  "testXVC io kmalloc heap drv vb_junk bufs cmd_nbits pattern b =
     (let cmd_nbytes = unat (byte_align cmd_nbits) in
      and_then (strlen pattern) (\<lambda>pat_nbytes.
      and_then (write_at (t_tms bufs) 0 (replicate cmd_nbytes 0xFF)) (\<lambda>tms.
      and_then (fill_loop pattern pat_nbytes cmd_nbytes 0 (t_tdi bufs)) (\<lambda>tdi.
      and_then (write_at (t_tdo bufs) 0 (replicate cmd_nbytes 0)) (\<lambda>tdo.
      and_then (char_ctrl_ioctl io kmalloc heap [] drv b XDMA_IOCXVC 0
         \<lparr>i_opcode = 2, i_length = cmd_nbits, i_tms = tms, i_tdi = tdi, i_tdo_room = length tdo\<rparr> True) (\<lambda>(ret, out, b').
      and_then (case out of Tdo bs \<Rightarrow> write_at tdo 0 bs | _ \<Rightarrow> Inr tdo) (\<lambda>tdo'.
      let bufs' = \<lparr>t_tms = tms, t_tdi = tdi, t_tdo = tdo'\<rparr> in
      if ret < 0 then Inr (- 1, bufs', b')
      else and_then (verify_loop tdi tdo' (unat cmd_nbits) vb_junk) (\<lambda>same.
        Inr (if same then 0 else - 1, bufs', b')))))))))"

section \<open>The program\<close>

text \<open>The tests in turn; the result is whether the last line, that the driver is verified, is printed.\<close>

primrec run_tests ::
    "'b io \<Rightarrow> (nat \<Rightarrow> nat \<Rightarrow> bool) \<Rightarrow> (nat \<Rightarrow> byte) \<Rightarrow> driver \<Rightarrow> (nat \<Rightarrow> nat) \<Rightarrow> test_bufs \<Rightarrow> 32 word list \<Rightarrow> byte list \<Rightarrow> 'b \<Rightarrow>
     (bool \<times> 'b) res" where
  "run_tests io kmalloc heap drv vb_junk bufs [] pattern b = Inl Out_of_bounds"
| "run_tests io kmalloc heap drv vb_junk bufs (n # ns) pattern b =
     (if n = 0 then Inr (True, b)
      else
        and_then (testXVC io kmalloc heap drv (vb_junk (length ns)) bufs n pattern b) (\<lambda>(r, bufs', b').
        if r < 0 then Inr (False, b')
        else and_then (rotatePattern pattern) (\<lambda>pattern'. run_tests io kmalloc heap drv vb_junk bufs' ns pattern' b')))"

definition test_lens :: "32 word list" where "test_lens = [32, 0]"

definition test_pattern :: "byte list" where
  "test_pattern = bytes_of ''abcdefgHIJKLMOP'' @ [0]"

text \<open>
  \<open>args_ok\<close> is whether \<open>getopt\<close> found no error, \<open>fd\<close> what \<open>open\<close> returned, \<open>blocks\<close> what the three
  calls of \<open>malloc\<close> returned; the result is the status and whether the driver was verified.
\<close>

definition verify_main ::
    "'b io \<Rightarrow> (nat \<Rightarrow> nat \<Rightarrow> bool) \<Rightarrow> (nat \<Rightarrow> byte) \<Rightarrow> driver \<Rightarrow> (nat \<Rightarrow> nat) \<Rightarrow> bool \<Rightarrow> int \<Rightarrow> (nat \<Rightarrow> test_bufs option) \<Rightarrow> 'b \<Rightarrow>
     (int \<times> bool \<times> 'b) res" where
  "verify_main io kmalloc heap drv vb_junk args_ok fd blocks b =
     (if \<not> args_ok then Inr (1, False, b)
      else if fd \<le> 0 then Inr (0, False, b)
      else
        and_then (findMaxBytes test_lens) (\<lambda>max_nbytes.
        case blocks max_nbytes of
          None \<Rightarrow> Inr (0, False, b)
        | Some bufs \<Rightarrow>
            and_then (run_tests io kmalloc heap drv vb_junk bufs test_lens test_pattern b) (\<lambda>(ok, b').
              Inr (0, ok, b'))))"

section \<open>The pattern\<close>

lemma upt_mod_block:
  assumes "m dvd fill" "m \<le> length pattern"
  shows "map (\<lambda>i. pattern ! (i mod m)) [fill..<fill + m] = take m pattern"
proof (rule nth_equalityI)
  fix i assume "i < length (map (\<lambda>i. pattern ! (i mod m)) [fill..<fill + m])"
  then have "i < m" by simp
  moreover have "(fill + i) mod m = i mod m" using assms(1) by (auto elim!: dvdE)
  ultimately show "map (\<lambda>i. pattern ! (i mod m)) [fill..<fill + m] ! i = take m pattern ! i" by simp
qed (use assms in simp)

lemma fill_loop_run:
  fixes pattern :: "byte list"
  assumes "0 < m" "m = (if pat < cmd then pat else cmd)" "m \<le> length pattern"
    and "fill \<le> cmd" "m dvd fill" "length rest = cmd - fill"
  shows "fill_loop pattern pat cmd fill (map (\<lambda>i. pattern ! (i mod m)) [0..<fill] @ rest) =
    (if m dvd cmd then Inr (map (\<lambda>i. pattern ! (i mod m)) [0..<cmd]) else Inl Out_of_bounds)"
  using assms(4-6)
proof (induction "cmd - fill" arbitrary: fill rest rule: less_induct)
  case less
  let ?f = "\<lambda>i. pattern ! (i mod m)"
  show ?case
  proof (cases "fill < cmd")
    case False
    then have "fill = cmd" "rest = []" using less.prems by simp_all
    then show ?thesis using less.prems(2) by (simp add: fill_loop.simps [of pattern pat cmd cmd])
  next
    case True
    have rd: "read_range pattern 0 m = Inr (take m pattern)" using assms(3) by (simp add: read_range_def)
    have lp: "length (take m pattern) = m" using assms(3) by simp
    have eq: "fill_loop pattern pat cmd fill (map ?f [0..<fill] @ rest) =
        and_then (write_at (map ?f [0..<fill] @ rest) fill (take m pattern)) (\<lambda>tdi'. fill_loop pattern pat cmd (fill + m) tdi')"
      using True assms(1) rd
      by (simp add: fill_loop.simps [of pattern pat cmd fill] Let_def assms(2) [symmetric] split del: if_split)
    show ?thesis
    proof (cases "fill + m \<le> cmd")
      case False
      have "\<not> m dvd cmd"
      proof
        assume "m dvd cmd"
        then have "m dvd cmd - fill" using less.prems(2) by simp
        then show False using True False by (auto dest: dvd_imp_le)
      qed
      moreover have "write_at (map ?f [0..<fill] @ rest) fill (take m pattern) = Inl Out_of_bounds"
        using False less.prems(1,3) assms(1) lp by (auto simp: write_at_def)
      ultimately show ?thesis unfolding eq by simp
    next
      case fits: True
      have s: "map ?f [0..<fill + m] = map ?f [0..<fill] @ take m pattern"
        using upt_mod_block [OF less.prems(2) assms(3)] by (subst upt_add_eq_append) simp_all
      have w: "write_at (map ?f [0..<fill] @ rest) fill (take m pattern) = Inr (map ?f [0..<fill + m] @ drop m rest)"
        using fits less.prems(1,3) lp unfolding s by (simp add: write_at_def)
      have "cmd - (fill + m) < cmd - fill" "m dvd fill + m" "length (drop m rest) = cmd - (fill + m)"
        using True assms(1) less.prems(2,3) by simp_all
      from less.hyps [OF this(1) fits this(2,3)] show ?thesis unfolding eq w and_then_simps .
    qed
  qed
qed

lemma fill_loop_spec:
  assumes "0 < pat" "pat \<le> length pattern" "length tdi = cmd"
  shows "fill_loop pattern pat cmd 0 tdi =
    (if cmd \<le> pat \<or> pat dvd cmd then Inr (map (\<lambda>i. pattern ! (i mod pat)) [0..<cmd]) else Inl Out_of_bounds)"
proof (cases "cmd = 0")
  case True
  then show ?thesis using assms(3) by (simp add: fill_loop.simps [of pattern pat 0])
next
  case False
  define m where "m = (if pat < cmd then pat else cmd)"
  have m: "0 < m" "m \<le> length pattern" using False assms(1,2) by (auto simp: m_def)
  have "fill_loop pattern pat cmd 0 (map (\<lambda>i. pattern ! (i mod m)) [0..<0] @ tdi) =
    (if m dvd cmd then Inr (map (\<lambda>i. pattern ! (i mod m)) [0..<cmd]) else Inl Out_of_bounds)"
    by (rule fill_loop_run [OF m(1) m_def m(2)]) (use assms(3) in simp_all)
  moreover have "m dvd cmd \<longleftrightarrow> cmd \<le> pat \<or> pat dvd cmd" by (auto simp: m_def)
  moreover have "map (\<lambda>i. pattern ! (i mod m)) [0..<cmd] = map (\<lambda>i. pattern ! (i mod pat)) [0..<cmd]"
    by (rule map_cong) (auto simp: m_def)
  ultimately show ?thesis by simp
qed

section \<open>The comparison\<close>

lemma masked_eq:
  fixes x y :: byte
  assumes "n \<le> 8"
  shows "(ucast x :: 32 word) AND drop_bit (8 - n) 0xFF = ucast y AND drop_bit (8 - n) 0xFF \<longleftrightarrow> (\<forall>j < n. bit x j = bit y j)"
proof -
  have m: "bit (drop_bit (8 - n) 0xFF :: 32 word) j \<longleftrightarrow> j < n" for j
  proof -
    have e: "(0xFF :: 32 word) = mask 8" by (simp add: mask_eq_exp_minus_1)
    have "bit (mask 8 :: 32 word) (8 - n + j) \<longleftrightarrow> 8 - n + j < 8"
      unfolding bit_mask_iff possible_bit_word by auto
    then show ?thesis using assms unfolding e bit_drop_bit_eq o_def by linarith
  qed
  show ?thesis
  proof
    assume e: "(ucast x :: 32 word) AND drop_bit (8 - n) 0xFF = ucast y AND drop_bit (8 - n) 0xFF"
    show "\<forall>j < n. bit x j = bit y j"
    proof (intro allI impI)
      fix j assume j: "j < n"
      have "bit ((ucast x :: 32 word) AND drop_bit (8 - n) 0xFF) j = bit ((ucast y :: 32 word) AND drop_bit (8 - n) 0xFF) j"
        unfolding e ..
      then show "bit x j = bit y j" using j assms by (simp add: bit_and_iff m bit_ucast_iff)
    qed
  next
    assume e: "\<forall>j < n. bit x j = bit y j"
    show "(ucast x :: 32 word) AND drop_bit (8 - n) 0xFF = ucast y AND drop_bit (8 - n) 0xFF"
      by (rule bit_word_eqI) (use e in \<open>auto simp: bit_and_iff m bit_ucast_iff\<close>)
  qed
qed

text \<open>The loop starts at the byte of bit \<open>vb\<close> and always compares its bits from the lowest on, so when \<open>vb\<close>
  is not a multiple of 8 it takes in the bits before \<open>vb\<close> and stops as many bits early.\<close>

definition compared :: "nat \<Rightarrow> nat \<Rightarrow> nat \<Rightarrow> bool" where
  "compared n vb i \<longleftrightarrow> 8 * (vb div 8) \<le> i \<and> i + vb mod 8 < n"

lemma compared_split: "r < 8 \<Longrightarrow> compared n (8 * d + r) i \<longleftrightarrow> 8 * d \<le> i \<and> i + r < n"
  by (simp add: compared_def)

lemma compared_end: "n \<le> vb \<Longrightarrow> \<not> compared n vb i"
  using mult_div_mod_eq [of 8 vb] unfolding compared_def by linarith

lemma compared_piece:
  assumes "r < 8" "8 * d + r < n" "k = (if n - (8 * d + r) < 8 then n - (8 * d + r) else 8)"
  shows "compared n (8 * d + r) i \<longleftrightarrow> 8 * d \<le> i \<and> i < 8 * d + k \<or> compared n (8 * d + r + k) i"
proof (cases "n - (8 * d + r) < 8")
  case True
  then have k: "8 * d + r + k = n" using assms by simp
  then show ?thesis using compared_end [of n n i] assms(1) by (simp add: compared_split) linarith
next
  case False
  then have k: "k = 8" using assms(3) by simp
  then have "8 * d + r + k = 8 * (d + 1) + r" by simp
  then show ?thesis using False assms(1,2) k by (simp only: compared_split) linarith
qed

lemma all_in_piece: "(\<forall>i. (l :: nat) \<le> i \<and> i < l + k \<longrightarrow> P i) \<longleftrightarrow> (\<forall>j < k. P (l + j))"
  by (metis add_less_cancel_left le_add1 le_add_diff_inverse)

lemma bit_at_byte: "j < 8 \<Longrightarrow> bit_at xs (8 * d + j) = bit (xs ! d) j"
  by (simp add: bit_at_def)

lemma verify_loop_spec:
  assumes "n \<le> 8 * length tdi" "n \<le> 8 * length tdo"
  shows "verify_loop tdi tdo n vb = Inr (\<forall>i. compared n vb i \<longrightarrow> bit_at tdi i = bit_at tdo i)"
proof (induction "n - vb" arbitrary: vb rule: less_induct)
  case less
  show ?case
  proof (cases "vb < n")
    case False
    then show ?thesis using compared_end [of n vb] by (simp add: verify_loop.simps [of tdi tdo n vb])
  next
    case True
    define k where "k = (if n - vb < 8 then n - vb else 8)"
    let ?d = "vb div 8"
    have k: "0 < k" "k \<le> 8" using True by (auto simp: k_def)
    have ix: "?d < length tdi" "?d < length tdo" using True assms by linarith+
    have piece: "(\<forall>j < k. bit (tdi ! ?d) j = bit (tdo ! ?d) j) \<longleftrightarrow>
        (\<forall>j < k. bit_at tdi (8 * ?d + j) = bit_at tdo (8 * ?d + j))"
      using k(2) by (simp add: bit_at_byte)
    have eq: "verify_loop tdi tdo n vb =
        (if \<forall>j < k. bit (tdi ! ?d) j = bit (tdo ! ?d) j then verify_loop tdi tdo n (vb + k) else Inr False)"
      unfolding masked_eq [OF k(2), of "tdi ! ?d" "tdo ! ?d", symmetric] using True ix
      by (simp add: verify_loop.simps [of tdi tdo n vb] Let_def k_def [symmetric] split del: if_split) simp
    have vb: "vb mod 8 < 8" "8 * ?d + vb mod 8 = vb" by simp_all
    note c = compared_piece [OF vb(1), of ?d n k, unfolded vb(2), OF True k_def]
    have "verify_loop tdi tdo n (vb + k) = Inr (\<forall>i. compared n (vb + k) i \<longrightarrow> bit_at tdi i = bit_at tdo i)"
      using k(1) True by (intro less.hyps) simp
    then show ?thesis
      unfolding eq piece c all_in_piece [of "8 * ?d" k "\<lambda>i. bit_at tdi i = bit_at tdo i", symmetric]
      by (simp add: imp_disjL all_conj_distrib)
  qed
qed

section \<open>What the program finds\<close>

text \<open>C31. The loop that copies the pattern into the TDI buffer repeats it, when the buffer is at most as long
  as the pattern or a multiple of it. Every other length makes it write past the end of the buffer: it
  copies the whole pattern although less is left.\<close>

theorem verify_fill_bounds:
  assumes "0 < pat" "pat \<le> length pattern" "length tdi = cmd"
  shows "fill_loop pattern pat cmd 0 tdi =
    (if cmd \<le> pat \<or> pat dvd cmd then Inr (map (\<lambda>i. pattern ! (i mod pat)) [0..<cmd]) else Inl Out_of_bounds)"
  by (rule fill_loop_spec [OF assms])

theorem verify_fill_bounds_witness:
  "fill_loop test_pattern 15 18 0 (replicate 18 0) = Inl Out_of_bounds"
  using verify_fill_bounds [of 15 test_pattern "replicate 18 0" 18]
  by (simp add: test_pattern_def)

lemma test_pattern_facts: "strlen test_pattern = Inr 15" "15 \<le> length test_pattern"
    "map (\<lambda>i. test_pattern ! (i mod 15)) [0..<4] = bytes_of ''abcd''"
  by (simp_all add: test_pattern_def strlen_def cstring_def bytes_of_def upt_rec)

definition bypassed :: "(bool \<Rightarrow> 't tap) \<Rightarrow> 't \<Rightarrow> bool list" where
  "bypassed tap t = fst (clock_bits (tap True) t (pins (replicate 4 0xFF) (bytes_of ''abcd'') 0 32))"

lemma test_outcome:
  fixes b :: 'b
  assumes "fast_bridge io view tap" "v_busy (view b) = 0" "\<And>i. kmalloc i 4" "db_ptr drv = Ptr ()"
    and "length (t_tms bufs) = 4" "length (t_tdi bufs) = 4" "length (t_tdo bufs) = 4"
  shows "\<exists>bufs' b'. testXVC io kmalloc heap drv vb bufs 32 test_pattern b =
    Inr (if \<forall>i. compared 32 vb i \<longrightarrow> bit_at (bytes_of ''abcd'') i = bypassed tap (v_chain (view b)) ! i then 0 else - 1, bufs', b')"
proof -
  have n: "unat (byte_align 32) = 4" by (simp add: byte_align_def)
  have w: "write_at (t_tms bufs) 0 (replicate 4 0xFF) = Inr (replicate 4 0xFF)" "write_at (t_tdo bufs) 0 (replicate 4 0) = Inr (replicate 4 0)"
    using assms(5,7) by (simp_all add: write_at_def)
  have f: "fill_loop test_pattern 15 4 0 (t_tdi bufs) = Inr (bytes_of ''abcd'')"
    using fill_loop_spec [of 15 test_pattern "t_tdi bufs" 4] assms(6) test_pattern_facts(2,3) by simp
  define arg where "arg = \<lparr>i_opcode = 2, i_length = 32, i_tms = replicate 4 0xFF, i_tdi = bytes_of ''abcd'', i_tdo_room = 4\<rparr>"
  have "\<exists>tdo b'. xil_xvc_ioctl io True kmalloc heap b 0 arg = Inr (0, Some tdo, b') \<and>
    length tdo = (unat (i_length arg) + 7) div 8 \<and>
    (\<forall>i < unat (i_length arg). bit_at tdo i =
       fst (clock_bits (tap (i_opcode arg = 2)) (v_chain (view b))
              (pins (i_tms arg) (i_tdi arg) 0 (unat (i_length arg)))) ! i) \<and>
    v_chain (view b') =
       snd (clock_bits (tap (i_opcode arg = 2)) (v_chain (view b))
              (pins (i_tms arg) (i_tdi arg) 0 (unat (i_length arg)))) \<and>
    v_busy (view b') = 0"
    by (rule fast_bridge.ioctl_serial [OF assms(1,2)]) (use assms(3) in \<open>simp_all add: arg_def shift_bytes_eq\<close>)
  then obtain tdo b' where x: "xil_xvc_ioctl io True kmalloc heap b 0 arg = Inr (0, Some tdo, b')"
    and o: "length tdo = 4" "\<forall>i < 32. bit_at tdo i = bypassed tap (v_chain (view b)) ! i"
    by (auto simp: arg_def bypassed_def)
  have c: "char_ctrl_ioctl io kmalloc heap [] drv b XDMA_IOCXVC 0 arg True = Inr (0, Tdo tdo, b')"
    using x assms(4) by (simp add: char_ctrl_ioctl_def)
  have w': "write_at (replicate 4 0) 0 tdo = Inr tdo" using o(1) by (simp add: write_at_def)
  have v: "verify_loop (bytes_of ''abcd'') tdo 32 vb =
      Inr (\<forall>i. compared 32 vb i \<longrightarrow> bit_at (bytes_of ''abcd'') i = bit_at tdo i)"
    by (rule verify_loop_spec) (use o(1) in simp_all)
  have "(\<forall>i. compared 32 vb i \<longrightarrow> bit_at (bytes_of ''abcd'') i = bit_at tdo i) \<longleftrightarrow>
      (\<forall>i. compared 32 vb i \<longrightarrow> bit_at (bytes_of ''abcd'') i = bypassed tap (v_chain (view b)) ! i)" using o(2) by (auto simp: compared_def)
  then show ?thesis
    using c v by (simp add: testXVC_def Let_def n test_pattern_facts(1) w f arg_def w')
qed

text \<open>C30. On a bridge that answers within the hundred polls the test program reports the driver as verified
  exactly if the bits it compares come back in bypass mode as they were sent. Which bits these are
  depends on what the variable \<open>vb\<close>, which is meant to be 0 and is never set, happens to hold: with
  \<open>vb = 8 d + r\<close> and \<open>r < 8\<close> they are the bits from \<open>8 d\<close> up to, and without, \<open>32 - r\<close>. From 32 on
  nothing is compared, and every bridge passes.\<close>

theorem verify_outcome:
  fixes b :: 'b
  assumes "fast_bridge io view tap" "v_busy (view b) = 0" "\<And>i. kmalloc i 4" "db_ptr drv = Ptr ()" "0 < fd"
    and "blocks 4 = Some bufs" "length (t_tms bufs) = 4" "length (t_tdi bufs) = 4" "length (t_tdo bufs) = 4"
  shows "\<exists>ok b'. verify_main io kmalloc heap drv vb True fd blocks b = Inr (0, ok, b') \<and>
    (ok \<longleftrightarrow> (\<forall>i. compared 32 (vb 1) i \<longrightarrow> bit_at (bytes_of ''abcd'') i = bypassed tap (v_chain (view b)) ! i))"
proof -
  let ?ok = "\<forall>i. compared 32 (vb 1) i \<longrightarrow> bit_at (bytes_of ''abcd'') i = bypassed tap (v_chain (view b)) ! i"
  obtain bufs' b' where t: "testXVC io kmalloc heap drv (vb 1) bufs 32 test_pattern b = Inr (if ?ok then 0 else - 1, bufs', b')"
    using test_outcome [where heap = heap and kmalloc = kmalloc and io = io and view = view and tap = tap and b = b and vb = "vb 1" and bufs = bufs and drv = drv, OF assms(1-4,7-9)] by blast
  have m: "findMaxBytes test_lens = Inr 4"
    by (simp add: findMaxBytes_def test_lens_def byte_align_def)
  obtain p where r: "rotatePattern test_pattern = Inr p"
    using test_pattern_facts(1)
    by (simp add: rotatePattern_def u32_def test_pattern_def bytes_of_def read_range_def write_at_def)
  have "run_tests io kmalloc heap drv vb bufs test_lens test_pattern b = Inr (?ok, b')"
    using t r by (simp add: test_lens_def)
  then show ?thesis using assms(5,6) m by (simp add: verify_main_def)
qed

text \<open>A chain that hands TDI through, and one whose TDO is stuck at 0.\<close>

definition echo_tap :: "bool \<Rightarrow> bool tap" where "echo_tap bypass t tms tdi = (tdi, t)"
definition stuck_tap :: "bool \<Rightarrow> bool tap" where "stuck_tap bypass t tms tdi = (False, t)"

lemma echo_bits: "fst (clock_bits (echo_tap m) t ps) = map snd ps"
  by (induction ps) (simp_all add: echo_tap_def case_prod_beta)

lemma stuck_bits: "fst (clock_bits (stuck_tap m) t ps) = replicate (length ps) False"
  by (induction ps) (simp_all add: stuck_tap_def case_prod_beta)

definition sample_bufs :: "nat \<Rightarrow> test_bufs option" where
  "sample_bufs n = Some \<lparr>t_tms = replicate n 0, t_tdi = replicate n 0, t_tdo = replicate n 0\<rparr>"

theorem verify_outcome_witness:
  "(\<exists>b'. verify_main (ref_io echo_tap (min 3 99)) (\<lambda>_ _. True) (\<lambda>_. 0) probed (\<lambda>_. 0) True 3 sample_bufs sample_view = Inr (0, True, b')) \<and>
   (\<exists>b'. verify_main (ref_io stuck_tap (min 3 99)) (\<lambda>_ _. True) (\<lambda>_. 0) probed (\<lambda>_. 12) True 3 sample_bufs sample_view = Inr (0, False, b')) \<and>
   (\<exists>b'. verify_main (ref_io stuck_tap (min 3 99)) (\<lambda>_ _. True) (\<lambda>_. 0) probed (\<lambda>_. 32) True 3 sample_bufs sample_view = Inr (0, True, b'))"
proof (intro conjI)
  have v: "v_busy sample_view = 0" by (simp add: sample_view_def)
  have s: "sample_bufs 4 = Some \<lparr>t_tms = replicate 4 0, t_tdi = replicate 4 0, t_tdo = replicate 4 0\<rparr>" by (simp add: sample_bufs_def)
  have run: "\<exists>ok b'. verify_main (ref_io tap (min 3 99)) (\<lambda>_ _. True) (\<lambda>_. 0) probed vb True 3 sample_bufs sample_view = Inr (0, ok, b') \<and>
      (ok \<longleftrightarrow> (\<forall>i. compared 32 (vb 1) i \<longrightarrow> bit_at (bytes_of ''abcd'') i = bypassed tap (v_chain sample_view) ! i))"
    for tap :: "bool \<Rightarrow> bool tap" and vb
    by (rule verify_outcome [where view = "\<lambda>b. b" and b = sample_view and blocks = sample_bufs and drv = probed and kmalloc = "\<lambda>_ _. True" and fd = 3,
        OF fast_ref.fast_bridge_axioms [of tap 3] v _ probed_mapped _ s]) simp_all
  have e: "compared 32 0 i \<longrightarrow> bit_at (bytes_of ''abcd'') i = bypassed echo_tap t ! i" for i t
    by (simp add: compared_def bypassed_def echo_bits pins_def)
  show "\<exists>b'. verify_main (ref_io echo_tap (min 3 99)) (\<lambda>_ _. True) (\<lambda>_. 0) probed (\<lambda>_. 0) True 3 sample_bufs sample_view = Inr (0, True, b')"
    using run [of echo_tap "\<lambda>_. 0"] e by auto
  have "compared 32 12 9" "bit_at (bytes_of ''abcd'') 9" "\<not> bypassed stuck_tap t ! 9" for t
    by (simp_all add: compared_def bit_at_def bytes_of_def bypassed_def stuck_bits pins_def bit_iff_odd)
  then have "\<not> (\<forall>i. compared 32 12 i \<longrightarrow> bit_at (bytes_of ''abcd'') i = bypassed stuck_tap (v_chain sample_view) ! i)"
    by blast
  then show "\<exists>b'. verify_main (ref_io stuck_tap (min 3 99)) (\<lambda>_ _. True) (\<lambda>_. 0) probed (\<lambda>_. 12) True 3 sample_bufs sample_view = Inr (0, False, b')"
    using run [of stuck_tap "\<lambda>_. 12"] by (elim exE conjE) (simp only: simp_thms, blast)
  have "\<not> compared 32 32 i" for i by (simp add: compared_def)
  then show "\<exists>b'. verify_main (ref_io stuck_tap (min 3 99)) (\<lambda>_ _. True) (\<lambda>_. 0) probed (\<lambda>_. 32) True 3 sample_bufs sample_view = Inr (0, True, b')"
    using run [of stuck_tap "\<lambda>_. 32"] by auto
qed

end
