(* ===== verification/Dpc_Ring.thy ===== *)
theory Dpc_Ring
  imports Jtag_Bridge
begin

unbundle bit_operations_syntax

text \<open>
  The AXI DMA rings of the DPC server, \<open>dpc/src/hsdp.c\<close> with \<open>hsdp.h\<close>, in the build of the Makefile
  (\<open>ENABLE_DMA_64BIT_ADDR\<close> is 0: descriptors hold 32-bit addresses). Two rings of descriptors, ingress
  and egress, point to packet slots; all of it lies in one window of memory that the DMA engine shares.

  The engine is hardware. It may act before any access of the program, which is the function \<open>tick\<close>,
  an argument of every operation; what it is documented to do is the relation \<open>hw_step\<close> of the theory
  \<open>Dpc_Fifo\<close>. The program's messages are left out.
\<close>

section \<open>State\<close>

text \<open>\<open>REG_DESC_NEXT\<close>, \<open>REG_DESC_BUFF\<close>, \<open>REG_DESC_CNTL\<close> and \<open>REG_DESC_STS\<close>.\<close>

record desc =
  d_next :: "32 word"
  d_buff :: "32 word"
  d_cntl :: "32 word"
  d_sts :: "32 word"

record region =
  axi_base :: nat
  offset :: nat         \<comment> \<open>where \<open>buffer\<close> lies in the window\<close>
  buffer_size :: nat
  packet_size :: nat
  last_idx :: int       \<comment> \<open>\<open>last\<close>\<close>

record hsdp_dma =
  ipkts :: region
  epkts :: region
  idesc :: region
  edesc :: region

text \<open>
  The memory window, in which the descriptors are kept apart from the bytes (they lie in front of the
  packet slots), and the registers of the engine. \<open>consumed\<close> and \<open>produced\<close> are its history: the packets it took
  from the ingress ring and the packets it delivered to the egress ring; \<open>env\<close> is anything else it knows.
\<close>

record 'h dma =
  win_phys :: nat
  window :: "byte list"
  idescs :: "desc list"
  edescs :: "desc list"
  i_cntl :: "32 word"
  i_cur :: "32 word"
  i_tail :: "32 word"
  e_cntl :: "32 word"
  e_cur :: "32 word"
  e_tail :: "32 word"
  i_status :: "32 word"
  e_status :: "32 word"
  consumed :: "byte list list"
  produced :: "byte list list"
  env :: 'h

text \<open>\<open>HSDP_NEXT\<close>, \<open>HSDP_COUNT\<close>, \<open>HSDP_AXI_ADDR\<close> in a 32-bit register, \<open>HSDP_BUFFER\<close>.\<close>

definition hsdp_next :: "region \<Rightarrow> nat" where
  "hsdp_next r = (if nat (last_idx r + 1) * packet_size r < buffer_size r then nat (last_idx r + 1) else 0)"

definition hsdp_count :: "region \<Rightarrow> nat" where
  "hsdp_count r = buffer_size r div packet_size r"

definition axi_addr :: "region \<Rightarrow> nat \<Rightarrow> 32 word" where
  "axi_addr r i = word_of_nat (axi_base r + packet_size r * i)"

definition buffer_at :: "region \<Rightarrow> nat \<Rightarrow> nat" where
  "buffer_at r i = offset r + packet_size r * i"

section \<open>Accesses\<close>

type_synonym 'h tick = "'h dma \<Rightarrow> 'h dma"

definition read_idesc :: "'h tick \<Rightarrow> nat \<Rightarrow> 'h dma \<Rightarrow> (desc \<times> 'h dma) res" where
  "read_idesc tick i s =
     (let s1 = tick s in if i < length (idescs s1) then Inr (idescs s1 ! i, s1) else Inl Out_of_bounds)"

definition read_edesc :: "'h tick \<Rightarrow> nat \<Rightarrow> 'h dma \<Rightarrow> (desc \<times> 'h dma) res" where
  "read_edesc tick i s =
     (let s1 = tick s in if i < length (edescs s1) then Inr (edescs s1 ! i, s1) else Inl Out_of_bounds)"

definition write_idesc :: "'h tick \<Rightarrow> nat \<Rightarrow> (desc \<Rightarrow> desc) \<Rightarrow> 'h dma \<Rightarrow> 'h dma res" where
  "write_idesc tick i f s =
     (let s1 = tick s in
      if i < length (idescs s1) then Inr (s1\<lparr>idescs := (idescs s1)[i := f (idescs s1 ! i)]\<rparr>) else Inl Out_of_bounds)"

definition write_edesc :: "'h tick \<Rightarrow> nat \<Rightarrow> (desc \<Rightarrow> desc) \<Rightarrow> 'h dma \<Rightarrow> 'h dma res" where
  "write_edesc tick i f s =
     (let s1 = tick s in
      if i < length (edescs s1) then Inr (s1\<lparr>edescs := (edescs s1)[i := f (edescs s1 ! i)]\<rparr>) else Inl Out_of_bounds)"

definition write_window :: "'h tick \<Rightarrow> nat \<Rightarrow> byte list \<Rightarrow> 'h dma \<Rightarrow> 'h dma res" where
  "write_window tick p bs s =
     (let s1 = tick s in and_then (write_at (window s1) p bs) (\<lambda>w. Inr (s1\<lparr>window := w\<rparr>)))"

definition read_window :: "'h tick \<Rightarrow> nat \<Rightarrow> nat \<Rightarrow> 'h dma \<Rightarrow> (byte list \<times> 'h dma) res" where
  "read_window tick p n s =
     (let s1 = tick s in and_then (read_range (window s1) p n) (\<lambda>bs. Inr (bs, s1)))"

section \<open>Egress\<close>

definition sts_error :: "32 word \<Rightarrow> bool" where "sts_error v \<longleftrightarrow> v AND 0x70000000 \<noteq> 0"
definition sts_done :: "32 word \<Rightarrow> bool" where "sts_done v \<longleftrightarrow> drop_bit 31 v AND 1 \<noteq> 0"

text \<open>
  The result is where the packet lies in the window (\<open>*buf\<close>, if it is set), the number of words and,
  for a caller that passes \<open>pkt\<close>, the slot. The descriptor is given back before the packet is used.
\<close>

record polled =
  p_buf :: "int option"
  p_words :: nat
  p_slot :: "nat option"

definition hsdp_poll_fast_packet ::
    "'h tick \<Rightarrow> hsdp_dma \<Rightarrow> 'h dma \<Rightarrow> (polled \<times> hsdp_dma \<times> 'h dma) res" where
  "hsdp_poll_fast_packet tick h s =
     (let ie = hsdp_next (edesc h);
          h' = h\<lparr>epkts := (epkts h)\<lparr>last_idx := int ie\<rparr>, edesc := (edesc h)\<lparr>last_idx := int ie\<rparr>\<rparr>
      in and_then (read_edesc tick ie s) (\<lambda>(d, s1).
        if sts_error (d_sts d) then
          and_then (write_edesc tick ie (\<lambda>d. d\<lparr>d_sts := 0\<rparr>) s1) (\<lambda>s2.
          let s3 = (tick s2)\<lparr>e_tail := axi_addr (edesc h) ie\<rparr> in
          and_then (write_edesc tick ie (\<lambda>d. d\<lparr>d_buff := axi_addr (epkts h) ie\<rparr>) s3) (\<lambda>s4.
            Inr (\<lparr>p_buf = None, p_words = 0, p_slot = None\<rparr>, h', s4)))
        else if sts_done (d_sts d) then
          let size_bytes = unat (d_sts d AND 0x3FFFFFF) in
          and_then (read_edesc tick ie s1) (\<lambda>(d2, s2).
          let buf = int (buffer_at (epkts h) 0) + (int (unat (d_buff d2)) - int (axi_base (epkts h))) in
          and_then (write_edesc tick ie (\<lambda>d. d\<lparr>d_buff := axi_addr (epkts h) ie\<rparr>) s2) (\<lambda>s3.
          and_then (write_edesc tick ie (\<lambda>d. d\<lparr>d_sts := 0\<rparr>) s3) (\<lambda>s4.
          let s5 = (tick s4)\<lparr>e_tail := axi_addr (edesc h) ie\<rparr> in
            Inr (\<lparr>p_buf = Some buf, p_words = size_bytes div 4, p_slot = Some (buffer_at (epkts h) ie)\<rparr>, h', s5))))
        else Inr (\<lparr>p_buf = None, p_words = 0, p_slot = None\<rparr>, h, s1)))"

text \<open>\<open>max_polls\<close> is 1: the loop polls once. The result that \<open>edpc\<close> ignores is \<open>max_polls != 0\<close>.\<close>

definition hsdp_receive_fast_packet ::
    "'h tick \<Rightarrow> hsdp_dma \<Rightarrow> 'h dma \<Rightarrow> (int \<times> polled \<times> hsdp_dma \<times> 'h dma) res" where
  "hsdp_receive_fast_packet tick h s =
     and_then (hsdp_poll_fast_packet tick h s) (\<lambda>(p, h', s'). Inr (0, p, h', s'))"

text \<open>Here the result is \<open>*pkt\<close>, if it is set: the number of words and the slot.\<close>

definition hsdp_receive_packet ::
    "'h tick \<Rightarrow> hsdp_dma \<Rightarrow> 'h dma \<Rightarrow> (int \<times> (nat \<times> nat) option \<times> hsdp_dma \<times> 'h dma) res" where
  "hsdp_receive_packet tick h s =
     and_then (hsdp_poll_fast_packet tick h s) (\<lambda>(p, h', s'). Inr (0, map_option (Pair (p_words p)) (p_slot p), h', s'))"

section \<open>Ingress\<close>

definition size_of_words :: "nat \<Rightarrow> nat" where
  "size_of_words word_count = (word_count * 4) mod 2 ^ 64"

definition packet_cntl :: "nat \<Rightarrow> 32 word" where
  "packet_cntl n = 0x0C000000 OR word_of_nat n"

text \<open>The wait for the next descriptor: whether one of \<open>n\<close> reads shows it done or in error.\<close>

primrec await_ingress :: "'h tick \<Rightarrow> nat \<Rightarrow> nat \<Rightarrow> 'h dma \<Rightarrow> (bool \<times> 'h dma) res" where
  "await_ingress tick ii 0 s = Inr (False, s)"
| "await_ingress tick ii (Suc n) s =
     and_then (read_idesc tick ii s) (\<lambda>(d, s1).
       if sts_error (d_sts d) \<or> sts_done (d_sts d) then Inr (True, s1) else await_ingress tick ii n s1)"

text \<open>\<open>buf\<close> is what can be read at the pointer \<open>buf\<close>.\<close>

definition hsdp_send_packet ::
    "'h tick \<Rightarrow> hsdp_dma \<Rightarrow> 'h dma \<Rightarrow> byte list \<Rightarrow> nat \<Rightarrow> (int \<times> hsdp_dma \<times> 'h dma) res" where
  "hsdp_send_packet tick h s buf word_count =
     (let sz = size_of_words word_count;
          ii = hsdp_next (idesc h)
      in and_then (await_ingress tick ii 1000 s) (\<lambda>(found, s1).
        if \<not> found then Inr (- 1, h, s1)
        else
          and_then (read_range buf 0 sz) (\<lambda>bs.
          and_then (write_window tick (buffer_at (ipkts h) ii) bs s1) (\<lambda>s2.
          and_then (write_idesc tick ii (\<lambda>d. d\<lparr>d_buff := axi_addr (ipkts h) ii\<rparr>) s2) (\<lambda>s3.
          and_then (write_idesc tick ii (\<lambda>d. d\<lparr>d_cntl := packet_cntl sz\<rparr>) s3) (\<lambda>s4.
          and_then (write_idesc tick ii (\<lambda>d. d\<lparr>d_sts := 0\<rparr>) s4) (\<lambda>s5.
          and_then (read_idesc tick ii s5) (\<lambda>(_, s6).
          let s7 = (tick s6)\<lparr>i_tail := axi_addr (idesc h) ii\<rparr> in
            Inr (0, h\<lparr>idesc := (idesc h)\<lparr>last_idx := int ii\<rparr>\<rparr>, s7)))))))))"

definition hsdp_send_fast_packet ::
    "'h tick \<Rightarrow> hsdp_dma \<Rightarrow> 'h dma \<Rightarrow> nat \<Rightarrow> nat \<Rightarrow> (int \<times> hsdp_dma \<times> 'h dma) res" where
  "hsdp_send_fast_packet tick h s buf_index word_count =
     (let sz = size_of_words word_count;
          ii = hsdp_next (idesc h)
      in and_then (await_ingress tick ii 1000 s) (\<lambda>(found, s1).
        if \<not> found then Inr (- 1, h, s1)
        else
          and_then (write_idesc tick ii (\<lambda>d. d\<lparr>d_buff := axi_addr (ipkts h) buf_index\<rparr>) s1) (\<lambda>s2.
          and_then (write_idesc tick ii (\<lambda>d. d\<lparr>d_sts := 0\<rparr>) s2) (\<lambda>s3.
          and_then (write_idesc tick ii (\<lambda>d. d\<lparr>d_cntl := packet_cntl sz\<rparr>) s3) (\<lambda>s4.
          let s5 = (tick s4)\<lparr>i_tail := axi_addr (idesc h) ii\<rparr> in
            Inr (0, h\<lparr>idesc := (idesc h)\<lparr>last_idx := int ii\<rparr>\<rparr>, s5))))))"

primrec setup_packets_loop ::
    "'h tick \<Rightarrow> nat \<Rightarrow> nat \<Rightarrow> nat \<Rightarrow> nat \<Rightarrow> hsdp_dma \<Rightarrow> 'h dma \<Rightarrow> (hsdp_dma \<times> 'h dma) res" where
  "setup_packets_loop tick buf_index sz i 0 h s = Inr (h, s)"
| "setup_packets_loop tick buf_index sz i (Suc n) h s =
     (let ii = hsdp_next (idesc h) in
      and_then (write_idesc tick ii (\<lambda>d. d\<lparr>d_buff := axi_addr (ipkts h) (buf_index + i)\<rparr>) s) (\<lambda>s1.
      and_then (write_idesc tick ii (\<lambda>d. d\<lparr>d_sts := 0\<rparr>) s1) (\<lambda>s2.
      and_then (write_idesc tick ii (\<lambda>d. d\<lparr>d_cntl := packet_cntl sz\<rparr>) s2) (\<lambda>s3.
        setup_packets_loop tick buf_index sz (Suc i) n (h\<lparr>idesc := (idesc h)\<lparr>last_idx := int ii\<rparr>\<rparr>) s3))))"

definition hsdp_setup_packets ::
    "'h tick \<Rightarrow> hsdp_dma \<Rightarrow> 'h dma \<Rightarrow> nat \<Rightarrow> nat \<Rightarrow> nat \<Rightarrow> (int \<times> hsdp_dma \<times> 'h dma) res" where
  "hsdp_setup_packets tick h s buf_index num_packets word_count =
     and_then (setup_packets_loop tick buf_index (size_of_words word_count) 0 num_packets h s) (\<lambda>(h', s').
       Inr (0, h'\<lparr>ipkts := (ipkts h')\<lparr>last_idx := int (buf_index + num_packets)\<rparr>\<rparr>, s'))"

definition hsdp_check :: "'h tick \<Rightarrow> 'h dma \<Rightarrow> int \<times> 'h dma" where
  "hsdp_check tick s =
     (let s1 = tick s; s2 = tick s1
      in (if i_status s1 AND 0x4771 \<noteq> 0 \<or> e_status s2 AND 0x4771 \<noteq> 0 then - 1 else 0, s2))"

section \<open>Setting the rings up\<close>

text \<open>The two loops that wait for the engine have no bound.\<close>

partial_function (option) await_reset :: "'h tick \<Rightarrow> 'h dma \<Rightarrow> 'h dma option" where
  "await_reset tick s = (let s1 = tick s in if i_cntl s1 AND 4 = 0 then Some s1 else await_reset tick s1)"

partial_function (option) await_egress :: "'h tick \<Rightarrow> 'h dma \<Rightarrow> 'h dma option" where
  "await_egress tick s = (let s1 = tick s in if e_status s1 AND 1 = 0 then Some s1 else await_egress tick s1)"

definition returned :: "'a option \<Rightarrow> 'a res" where
  "returned x = (case x of None \<Rightarrow> Inl Hang | Some y \<Rightarrow> Inr y)"

definition clear_desc :: desc where
  "clear_desc = \<lparr>d_next = 0, d_buff = 0, d_cntl = 0, d_sts = 0\<rparr>"

definition next_link :: "region \<Rightarrow> nat \<Rightarrow> nat \<Rightarrow> 32 word" where
  "next_link r n i = axi_addr r (if i < n - 1 then i + 1 else 0)"

primrec setup_ingress :: "'h tick \<Rightarrow> hsdp_dma \<Rightarrow> nat \<Rightarrow> nat \<Rightarrow> nat \<Rightarrow> 'h dma \<Rightarrow> 'h dma res" where
  "setup_ingress tick h n i 0 s = Inr s"
| "setup_ingress tick h n i (Suc m) s =
     and_then (write_idesc tick i (\<lambda>d. d\<lparr>d_next := next_link (idesc h) n i\<rparr>) s) (\<lambda>s1.
     and_then (write_idesc tick i (\<lambda>d. d\<lparr>d_buff := axi_addr (ipkts h) i\<rparr>) s1) (\<lambda>s2.
     and_then (write_idesc tick i (\<lambda>d. d\<lparr>d_sts := 0x80000000\<rparr>) s2) (\<lambda>s3.
       setup_ingress tick h n (Suc i) m s3)))"

primrec setup_egress :: "'h tick \<Rightarrow> hsdp_dma \<Rightarrow> nat \<Rightarrow> nat \<Rightarrow> nat \<Rightarrow> 'h dma \<Rightarrow> 'h dma res" where
  "setup_egress tick h n i 0 s = Inr s"
| "setup_egress tick h n i (Suc m) s =
     and_then (write_edesc tick i (\<lambda>d. clear_desc) s) (\<lambda>s1.
     and_then (write_edesc tick i (\<lambda>d. d\<lparr>d_next := next_link (edesc h) n i\<rparr>) s1) (\<lambda>s2.
     and_then (write_edesc tick i (\<lambda>d. d\<lparr>d_buff := axi_addr (epkts h) i\<rparr>) s2) (\<lambda>s3.
     and_then (write_edesc tick i (\<lambda>d. d\<lparr>d_cntl := packet_cntl (packet_size (epkts h))\<rparr>) s3) (\<lambda>s4.
       setup_egress tick h n (Suc i) m s4))))"

definition hsdp_setup_dma :: "'h tick \<Rightarrow> hsdp_dma \<Rightarrow> 'h dma \<Rightarrow> (hsdp_dma \<times> 'h dma) res" where
  "hsdp_setup_dma tick h s =
     (let h1 = h\<lparr>ipkts := (ipkts h)\<lparr>last_idx := - 1\<rparr>, epkts := (epkts h)\<lparr>last_idx := - 1\<rparr>,
                 idesc := (idesc h)\<lparr>last_idx := - 1\<rparr>, edesc := (edesc h)\<lparr>last_idx := - 1\<rparr>\<rparr>;
          ni = hsdp_count (idesc h1);
          ne = hsdp_count (edesc h1);
          s1 = (tick s)\<lparr>i_cntl := 0x00010004\<rparr>
      in and_then (returned (await_reset tick s1)) (\<lambda>s2.
         and_then (ensure (ni \<le> length (idescs (tick s2))) Out_of_bounds) (\<lambda>_.
         let s3 = (tick s2)\<lparr>idescs := replicate ni clear_desc @ drop ni (idescs (tick s2))\<rparr> in
         and_then (setup_ingress tick h1 ni 0 ni s3) (\<lambda>s4.
         let s5 = (tick s4)\<lparr>i_cur := axi_addr (idesc h1) 0\<rparr>;
             s6 = (tick s5)\<lparr>i_cntl := 0x00014003\<rparr>
         in and_then (setup_egress tick h1 ne 0 ne s6) (\<lambda>s7.
            let h2 = h1\<lparr>edesc := (edesc h1)\<lparr>last_idx := int ne - 1\<rparr>\<rparr>;
                s8 = (tick s7)\<lparr>e_cur := axi_addr (edesc h1) 0\<rparr>;
                s9 = (tick s8)\<lparr>e_cntl := 0x00010003\<rparr>
            in and_then (returned (await_egress tick s9)) (\<lambda>s10.
               Inr (h2, (tick s10)\<lparr>e_tail := axi_addr (edesc h2) (ne - 1)\<rparr>)))))))"

definition hsdp_enable :: "'h tick \<Rightarrow> hsdp_dma \<Rightarrow> 'h dma \<Rightarrow> (hsdp_dma \<times> 'h dma) res" where
  "hsdp_enable tick h s = hsdp_setup_dma tick h s"

end
