(* ===== verification/Dpc_Fifo.thy ===== *)
theory Dpc_Fifo
  imports Dpc_Ring "HOL-Library.Sublist"
begin

unbundle bit_operations_syntax

text \<open>
  The rings as queues. \<open>hw_step\<close> is what the documentation of the engine allows it to do: complete the
  next ingress descriptor that is not done, deliver a packet through the next egress descriptor that is
  not done, change its status, complete a reset (bit 2 of the ingress control register), which stops both
  channels and starts its history anew. It is more permissive than the hardware, which also waits for a write to the
  tail register. The locale \<open>dma_engine\<close> takes any \<open>tick\<close> made of such steps. Shown is that the rings are
  first-in-first-out channels under every interleaving: an invariant relates the descriptors, the bytes of
  the slots and the history of the engine to the packets the program sent and received.
\<close>

section \<open>The engine\<close>

inductive hw_step :: "'h dma \<Rightarrow> 'h dma \<Rightarrow> bool" where
  take_packet:
    "bit (i_cntl s) 0 \<Longrightarrow> idescs s \<noteq> [] \<Longrightarrow> i = length (consumed s) mod length (idescs s) \<Longrightarrow> d_sts (idescs s ! i) = 0 \<Longrightarrow>
     read_range (window s) (unat (d_buff (idescs s ! i)) - win_phys s) (unat (d_cntl (idescs s ! i) AND 0x3FFFFFF)) = Inr p \<Longrightarrow>
     hw_step s (s\<lparr>idescs := (idescs s)[i := (idescs s ! i)\<lparr>d_sts := 0x80000000 OR word_of_nat (length p)\<rparr>],
                  consumed := consumed s @ [p]\<rparr>)"
| deliver_packet:
    "bit (e_cntl s) 0 \<Longrightarrow> edescs s \<noteq> [] \<Longrightarrow> i = length (produced s) mod length (edescs s) \<Longrightarrow> d_sts (edescs s ! i) = 0 \<Longrightarrow>
     p \<noteq> [] \<Longrightarrow> 4 dvd length p \<Longrightarrow> length p \<le> unat (d_cntl (edescs s ! i) AND 0x3FFFFFF) \<Longrightarrow>
     write_at (window s) (unat (d_buff (edescs s ! i)) - win_phys s) p = Inr w \<Longrightarrow>
     hw_step s (s\<lparr>window := w, edescs := (edescs s)[i := (edescs s ! i)\<lparr>d_sts := 0x80000000 OR word_of_nat (length p)\<rparr>],
                  produced := produced s @ [p]\<rparr>)"
| registers:
    "(bit ic 0 \<longrightarrow> bit (i_cntl s) 0) \<Longrightarrow> bit ic 2 = bit (i_cntl s) 2 \<Longrightarrow> (bit ec 0 \<longrightarrow> bit (e_cntl s) 0) \<Longrightarrow>
     hw_step s (s\<lparr>i_cntl := ic, e_cntl := ec, i_cur := a, e_cur := b, i_status := st, e_status := et, env := x\<rparr>)"
| reset:
    "bit (i_cntl s) 2 \<Longrightarrow> \<not> bit ic 0 \<Longrightarrow> \<not> bit ic 2 \<Longrightarrow> \<not> bit ec 0 \<Longrightarrow>
     hw_step s (s\<lparr>i_cntl := ic, e_cntl := ec, i_cur := a, e_cur := b, i_status := st, e_status := et,
                  consumed := [], produced := [], env := x\<rparr>)"

inductive_cases hw_stepE: "hw_step s s'"

section \<open>The layout\<close>

definition islot :: "nat \<Rightarrow> nat" where "islot k = 0x200 + 0x410 * (k mod 4)"
definition eslot :: "nat \<Rightarrow> nat" where "eslot k = 0x1240 + 0x410 * (k mod 4)"

definition laid_out :: "nat \<Rightarrow> hsdp_dma \<Rightarrow> bool" where
  "laid_out phys h \<longleftrightarrow>
     idesc h = \<lparr>axi_base = phys, offset = 0, buffer_size = 0x100, packet_size = 0x40, last_idx = last_idx (idesc h)\<rparr> \<and>
     edesc h = \<lparr>axi_base = phys + 0x100, offset = 0x100, buffer_size = 0x100, packet_size = 0x40,
                last_idx = last_idx (edesc h)\<rparr> \<and>
     ipkts h = \<lparr>axi_base = phys + 0x200, offset = 0x200, buffer_size = 0x1040, packet_size = 0x410,
                last_idx = last_idx (ipkts h)\<rparr> \<and>
     epkts h = \<lparr>axi_base = phys + 0x1240, offset = 0x1240, buffer_size = 0x1040, packet_size = 0x410,
                last_idx = last_idx (epkts h)\<rparr>"

lemma mod4_inj: "a mod 4 = b mod 4 \<Longrightarrow> c \<le> a \<Longrightarrow> a < c + 4 \<Longrightarrow> c \<le> b \<Longrightarrow> b < c + 4 \<Longrightarrow> a = (b :: nat)"
proof (induction a b rule: linorder_wlog)
  case (le a b)
  then have "4 dvd b - a" using mod_eq_dvd_iff_nat [of a b 4] by simp
  moreover have "b - a < 4" using le by simp
  ultimately show ?case using le(1) by (auto dest: dvd_imp_le)
qed simp

lemma islot_apart:
  assumes "a mod 4 \<noteq> b mod 4" "m \<le> 0x410" "n \<le> 0x410"
  shows "islot a + m \<le> islot b \<or> islot b + n \<le> islot a"
proof -
  have le: "0x410 * i + 0x410 \<le> 0x410 * j" if "i < j" for i j :: nat
    using mult_le_mono2 [of "Suc i" j "0x410"] that by simp
  show ?thesis
    using assms le [of "a mod 4" "b mod 4"] le [of "b mod 4" "a mod 4"] unfolding islot_def by linarith
qed

lemma eslot_apart: "a mod 4 \<noteq> b mod 4 \<Longrightarrow> m \<le> 0x410 \<Longrightarrow> n \<le> 0x410 \<Longrightarrow> eslot a + m \<le> eslot b \<or> eslot b + n \<le> eslot a"
  using islot_apart [of a b m n] by (simp add: islot_def eslot_def)

lemma mod4_le: "k mod 4 \<le> (3 :: nat)"
  by presburger

lemma islot_le: "islot k + 0x410 \<le> 0x1240" and islot_ge: "0x200 \<le> islot k"
  using mod4_le [of k] unfolding islot_def by linarith+

lemma eslot_le: "eslot k + 0x410 \<le> 0x2280" and eslot_ge: "0x1240 \<le> eslot k"
  using mod4_le [of k] unfolding eslot_def by linarith+

section \<open>The invariant\<close>

text \<open>\<open>in_flight s c p\<close>: packet \<open>p\<close> waits in ingress descriptor and slot number \<open>k mod 4\<close>.\<close>

definition in_flight :: "'h dma \<Rightarrow> nat \<Rightarrow> byte list \<Rightarrow> bool" where
  "in_flight s k p \<longleftrightarrow>
     idescs s ! (k mod 4) = \<lparr>d_next = d_next (idescs s ! (k mod 4)), d_buff = word_of_nat (win_phys s + islot k),
                             d_cntl = packet_cntl (length p), d_sts = 0\<rparr> \<and>
     length p \<le> 0x410 \<and> bytes_at (window s) (islot k) p"

definition ring_in :: "byte list list \<Rightarrow> 'h dma \<Rightarrow> bool" where
  "ring_in sent s \<longleftrightarrow>
     length (idescs s) = 4 \<and> length (consumed s) \<le> length sent \<and> length sent \<le> length (consumed s) + 4 \<and>
     consumed s = take (length (consumed s)) sent \<and>
     (\<forall>k. length (consumed s) \<le> k \<longrightarrow> k < length sent \<longrightarrow> in_flight s k (sent ! k)) \<and>
     (\<forall>k. length sent \<le> k \<longrightarrow> k < length (consumed s) + 4 \<longrightarrow> sts_done (d_sts (idescs s ! (k mod 4))))"

text \<open>\<open>arrived s k p\<close>: packet \<open>p\<close> is done in egress descriptor and slot number \<open>k mod 4\<close>.\<close>

definition arrived :: "'h dma \<Rightarrow> nat \<Rightarrow> byte list \<Rightarrow> bool" where
  "arrived s k p \<longleftrightarrow>
     d_sts (edescs s ! (k mod 4)) = 0x80000000 OR word_of_nat (length p) \<and>
     p \<noteq> [] \<and> 4 dvd length p \<and> length p \<le> 0x410 \<and> bytes_at (window s) (eslot k) p"

definition ring_out :: "nat \<Rightarrow> 'h dma \<Rightarrow> bool" where
  "ring_out rcvd s \<longleftrightarrow>
     length (edescs s) = 4 \<and> rcvd \<le> length (produced s) \<and> length (produced s) \<le> rcvd + 4 \<and>
     (\<forall>k. d_buff (edescs s ! (k mod 4)) = word_of_nat (win_phys s + eslot k) \<and>
          d_cntl (edescs s ! (k mod 4)) = packet_cntl 0x410) \<and>
     (\<forall>k. rcvd \<le> k \<longrightarrow> k < length (produced s) \<longrightarrow> arrived s k (produced s ! k)) \<and>
     (\<forall>k. length (produced s) \<le> k \<longrightarrow> k < rcvd + 4 \<longrightarrow> d_sts (edescs s ! (k mod 4)) = 0)"

definition window_ok :: "'h dma \<Rightarrow> bool" where
  "window_ok s \<longleftrightarrow> 0x2280 \<le> length (window s) \<and> win_phys s + 0x2280 \<le> 2 ^ 32"

lemma window_address:
  "window_ok s \<Longrightarrow> unat (word_of_nat (win_phys s + islot k) :: 32 word) - win_phys s = islot k"
  "window_ok s \<Longrightarrow> unat (word_of_nat (win_phys s + eslot k) :: 32 word) - win_phys s = eslot k"
  using islot_le [of k] eslot_le [of k] by (simp_all add: window_ok_def unat_word_of_nat_32 del: of_nat_add)

lemma packet_cntl_size: "n \<le> 0x410 \<Longrightarrow> unat (packet_cntl n AND 0x3FFFFFF) = n"
proof -
  assume n: "n \<le> 0x410"
  have m: "(0x3FFFFFF :: 32 word) = mask 26" by (simp add: mask_eq_exp_minus_1)
  have "packet_cntl n AND 0x3FFFFFF = take_bit 26 (packet_cntl n)" unfolding m by (simp add: take_bit_eq_mask)
  also have "\<dots> = take_bit 26 (word_of_nat n :: 32 word)"
    by (simp add: packet_cntl_def take_bit_or)
  finally have "unat (packet_cntl n AND 0x3FFFFFF) = take_bit 26 (unat (word_of_nat n :: 32 word))"
    by (simp add: unsigned_take_bit_eq)
  then show ?thesis using n by (simp add: unat_word_of_nat_32 take_bit_nat_eq_self)
qed

lemma done_status: "sts_done (0x80000000 OR w)" "\<not> sts_done 0" "\<not> sts_error 0"
proof -
  have "bit (drop_bit 31 (0x80000000 OR w) AND 1 :: 32 word) 0" by (simp add: bit_simps)
  then show "sts_done (0x80000000 OR w)" unfolding sts_done_def by (metis bit_0_eq bot_apply bot_bool_def)
qed (simp_all add: sts_done_def sts_error_def)

definition rings :: "byte list list \<Rightarrow> nat \<Rightarrow> 'h dma \<Rightarrow> bool" where
  "rings sent rcvd s \<longleftrightarrow> \<not> bit (i_cntl s) 2 \<and> window_ok s \<and> ring_in sent s \<and> ring_out rcvd s"

text \<open>
  What an operation has established half way: \<open>staged\<close> for the next ingress slot (its bytes, address and
  control word), \<open>readable\<close> for an egress slot that was given back before it is read.
\<close>

definition staged :: "nat \<Rightarrow> byte list option \<Rightarrow> bool \<Rightarrow> nat option \<Rightarrow> 'h dma \<Rightarrow> bool" where
  "staged n w b c s \<longleftrightarrow>
     n < length (consumed s) + 4 \<and>
     (\<forall>p. w = Some p \<longrightarrow> length p \<le> 0x410 \<and> bytes_at (window s) (islot n) p) \<and>
     (b \<longrightarrow> d_buff (idescs s ! (n mod 4)) = word_of_nat (win_phys s + islot n)) \<and>
     (\<forall>m. c = Some m \<longrightarrow> d_cntl (idescs s ! (n mod 4)) = packet_cntl m)"

definition readable :: "nat \<Rightarrow> byte list \<Rightarrow> 'h dma \<Rightarrow> bool" where
  "readable r q s \<longleftrightarrow>
     r < length (produced s) \<and> produced s ! r = q \<and> length q \<le> 0x410 \<and>
     (length (produced s) \<le> r + 4 \<longrightarrow> bytes_at (window s) (eslot r) q)"

section \<open>Steps of the engine\<close>

text \<open>The packet the engine takes is the oldest one in flight.\<close>

lemma take_packet_oldest:
  assumes "rings sent r s" "d_sts (idescs s ! (length (consumed s) mod 4)) = 0"
    and "read_range (window s) (unat (d_buff (idescs s ! (length (consumed s) mod 4))) - win_phys s)
           (unat (d_cntl (idescs s ! (length (consumed s) mod 4)) AND 0x3FFFFFF)) = Inr p"
  shows "length (consumed s) < length sent \<and> p = sent ! length (consumed s)"
proof -
  let ?c = "length (consumed s)"
  have c: "?c < length sent"
  proof (rule ccontr)
    assume "\<not> ?c < length sent"
    then have "sts_done (d_sts (idescs s ! (?c mod 4)))" using assms(1) by (simp add: rings_def ring_in_def)
    then show False using assms(2) done_status(2) by simp
  qed
  then have f: "in_flight s ?c (sent ! ?c)" using assms(1) by (simp add: rings_def ring_in_def)
  have w: "window_ok s" using assms(1) by (simp add: rings_def)
  have b: "d_buff (idescs s ! (?c mod 4)) = word_of_nat (win_phys s + islot ?c)"
    "d_cntl (idescs s ! (?c mod 4)) = packet_cntl (length (sent ! ?c))"
    "length (sent ! ?c) \<le> 0x410" "bytes_at (window s) (islot ?c) (sent ! ?c)"
    using f unfolding in_flight_def by (metis desc.select_convs(2,3))+
  have "p = sent ! ?c"
    using assms(3) read_range_bytes [OF b(4)] unfolding b(1,2) packet_cntl_size [OF b(3)] window_address(1) [OF w]
    by simp
  with c show ?thesis by simp
qed

lemma ring_in_take:
  fixes v :: "32 word"
  assumes "ring_in sent s" "c = length (consumed s)" "c < length sent" "i = c mod 4"
  defines "s' \<equiv> s\<lparr>idescs := (idescs s)[i := (idescs s ! i)\<lparr>d_sts := 0x80000000 OR v\<rparr>], consumed := consumed s @ [sent ! c]\<rparr>"
  shows "ring_in sent s'"
proof -
  from assms(1,2) have r: "length (idescs s) = 4" "c \<le> length sent" "length sent \<le> c + 4" "consumed s = take c sent"
    "\<And>k. c \<le> k \<Longrightarrow> k < length sent \<Longrightarrow> in_flight s k (sent ! k)"
    "\<And>k. length sent \<le> k \<Longrightarrow> k < c + 4 \<Longrightarrow> sts_done (d_sts (idescs s ! (k mod 4)))"
    by (simp_all add: ring_in_def)
  have other: "idescs s' ! (k mod 4) = idescs s ! (k mod 4)" if "c < k" "k < c + 4" for k
  proof -
    have "c mod 4 \<noteq> k mod 4" using that mod4_inj [of k c c] by auto
    then show ?thesis by (simp add: s'_def assms(4))
  qed
  have "in_flight s' k (sent ! k)" if "c < k" "k < length sent" for k
    using r(5) [of k] other [of k] that r(3) by (simp add: in_flight_def s'_def)
  moreover have "sts_done (d_sts (idescs s' ! (k mod 4)))" if "length sent \<le> k" "k < c + 5" for k
  proof (cases "k = c + 4")
    case True
    then have "k mod 4 = i" by (simp add: assms(4))
    then show ?thesis by (simp add: s'_def assms(4) r(1) done_status)
  next
    case False
    then have k: "c < k" "k < c + 4" using that assms(3) by linarith+
    show ?thesis unfolding other [OF k] using that(1) k(2) by (rule r(6))
  qed
  moreover have "consumed s' = take (Suc c) sent"
    using take_Suc_conv_app_nth [OF assms(3)] by (simp add: s'_def r(4))
  moreover have "length (consumed s') = Suc c" "length (idescs s') = 4" by (simp_all add: s'_def assms(2) r(1))
  ultimately show ?thesis
    unfolding ring_in_def using r(3) assms(3) by simp
qed

lemma ring_in_window:
  assumes "ring_in sent s" "write_at (window s) q bs = Inr w" "0x1240 \<le> q"
  shows "ring_in sent (s\<lparr>window := w, edescs := ed, produced := pr\<rparr>)"
proof -
  have "bytes_at w (islot k) p = bytes_at (window s) (islot k) p" if "length p \<le> 0x410" for k p
    using bytes_at_other [OF assms(2)] islot_le [of k] that assms(3) by simp
  then show ?thesis using assms(1) by (auto simp: ring_in_def in_flight_def)
qed

lemma ring_out_deliver:
  fixes w :: "byte list"
  assumes "ring_out r s" "m = length (produced s)" "m < r + 4" "p \<noteq> []" "4 dvd length p" "length p \<le> 0x410"
    and "write_at (window s) (eslot m) p = Inr w"
  defines "s' \<equiv> s\<lparr>window := w, edescs := (edescs s)[m mod 4 := (edescs s ! (m mod 4))\<lparr>d_sts := 0x80000000 OR word_of_nat (length p)\<rparr>],
      produced := produced s @ [p]\<rparr>"
  shows "ring_out r s'"
proof -
  from assms(1,2) have o: "length (edescs s) = 4" "r \<le> m" "m \<le> r + 4"
    "\<And>k. d_buff (edescs s ! (k mod 4)) = word_of_nat (win_phys s + eslot k)"
    "\<And>k. d_cntl (edescs s ! (k mod 4)) = packet_cntl 0x410"
    "\<And>k. r \<le> k \<Longrightarrow> k < m \<Longrightarrow> arrived s k (produced s ! k)"
    "\<And>k. m \<le> k \<Longrightarrow> k < r + 4 \<Longrightarrow> d_sts (edescs s ! (k mod 4)) = 0"
    by (simp_all add: ring_out_def)
  have ne: "k mod 4 \<noteq> m mod 4" if "r \<le> k" "k < r + 4" "k \<noteq> m" for k
    using that mod4_inj [of k m r] o(2) assms(3) by auto
  have regs: "d_buff (edescs s' ! (k mod 4)) = word_of_nat (win_phys s' + eslot k)"
    "d_cntl (edescs s' ! (k mod 4)) = packet_cntl 0x410" for k
    using o(1,4,5) by (simp_all add: s'_def nth_list_update)
  have "arrived s' k (produced s' ! k)" if k: "r \<le> k" "k < Suc m" for k
  proof (cases "k = m")
    case True
    then show ?thesis
      using assms(2,4-6) bytes_at_written [OF assms(7,4)] o(1) by (simp add: arrived_def s'_def)
  next
    case False
    with k have k': "r \<le> k" "k < m" by simp_all
    with o(6) have a: "arrived s k (produced s ! k)" by blast
    then have "bytes_at w (eslot k) (produced s ! k)"
      using bytes_at_other [OF assms(7)] eslot_apart [of k m "length (produced s ! k)" "length p"] ne [of k] k' assms(3,6)
      by (auto simp: arrived_def)
    then show ?thesis using a k' ne [of k] assms(2,3) by (simp add: arrived_def s'_def nth_append)
  qed
  moreover have "d_sts (edescs s' ! (k mod 4)) = 0" if "Suc m \<le> k" "k < r + 4" for k
    using that o(2) o(7) [of k] ne [of k] by (simp add: s'_def)
  ultimately show ?thesis
    using o(1,2) assms(2,3) regs by (auto simp: ring_out_def s'_def)
qed

text \<open>The address and size the engine sees when it delivers, and that it stays inside the ring.\<close>

lemma deliver_slot:
  assumes "rings sent r s" "m = length (produced s)" "d_sts (edescs s ! (m mod 4)) = 0"
    and "length p \<le> unat (d_cntl (edescs s ! (m mod 4)) AND 0x3FFFFFF)"
  shows "m < r + 4 \<and> length p \<le> 0x410 \<and> unat (d_buff (edescs s ! (m mod 4))) - win_phys s = eslot m"
proof -
  have o: "ring_out r s" and w: "window_ok s" using assms(1) by (simp_all add: rings_def)
  then have l: "r \<le> m" "m \<le> r + 4" and c: "d_cntl (edescs s ! (m mod 4)) = packet_cntl 0x410"
    and b: "d_buff (edescs s ! (m mod 4)) = word_of_nat (win_phys s + eslot m)"
    using assms(2) by (simp_all add: ring_out_def)
  have "m < r + 4"
  proof (rule ccontr)
    assume "\<not> m < r + 4"
    then have m: "m = r + 4" using l by simp
    then have "arrived s r (produced s ! r)" using o assms(2) by (simp add: ring_out_def)
    then have "sts_done (d_sts (edescs s ! (r mod 4)))" by (simp add: arrived_def done_status)
    then show False using assms(3) done_status(2) by (simp add: m)
  qed
  moreover have "length p \<le> 0x410" using assms(4) unfolding c packet_cntl_size [OF order_refl] .
  moreover have "unat (d_buff (edescs s ! (m mod 4))) - win_phys s = eslot m"
    unfolding b using w by (rule window_address)
  ultimately show ?thesis by blast
qed

lemma hw_step_rings:
  assumes "hw_step s s'" "rings sent r s"
  shows "rings sent r s'"
  using assms(1)
proof cases
  case (take_packet i p)
  have n: "length (idescs s) = 4" using assms(2) by (simp add: rings_def ring_in_def)
  have p: "length (consumed s) < length sent" "p = sent ! length (consumed s)"
    using take_packet_oldest [OF assms(2)] take_packet(4-6) unfolding n by auto
  have "ring_in sent s'"
    using ring_in_take [of sent s _ i "word_of_nat (length p)", OF _ refl p(1)] assms(2) p(2) take_packet(1,4)
    by (simp add: rings_def n)
  moreover have "\<not> bit (i_cntl s') 2" "window_ok s'" "ring_out r s'"
    using assms(2) unfolding take_packet(1)
    by (simp_all add: rings_def window_ok_def ring_out_def arrived_def)
  ultimately show ?thesis by (simp add: rings_def)
next
  case (deliver_packet i p w)
  let ?m = "length (produced s)"
  have n: "length (edescs s) = 4" using assms(2) by (simp add: rings_def ring_out_def)
  then have i: "i = ?m mod 4" using deliver_packet(4) by simp
  from deliver_slot [OF assms(2) refl, of p] have d: "?m < r + 4" "length p \<le> 0x410"
    "unat (d_buff (edescs s ! (?m mod 4))) - win_phys s = eslot ?m"
    using deliver_packet(5,8) unfolding i by blast+
  have w: "write_at (window s) (eslot ?m) p = Inr w" using deliver_packet(9) unfolding i d(3) .
  have "ring_out r s'"
    using ring_out_deliver [OF _ refl d(1) deliver_packet(6,7) d(2) w] assms(2) unfolding deliver_packet(1) i
    by (simp add: rings_def)
  moreover have "ring_in sent s'"
    using ring_in_window [OF _ w eslot_ge] assms(2) unfolding deliver_packet(1) by (simp add: rings_def)
  moreover have "\<not> bit (i_cntl s') 2" "window_ok s'"
    using assms(2) length_write_at [OF w] unfolding deliver_packet(1) by (simp_all add: rings_def window_ok_def)
  ultimately show ?thesis by (simp add: rings_def)
next
  case (registers ic ec a b st et x)
  then show ?thesis
    using assms(2) by (simp add: rings_def window_ok_def ring_in_def in_flight_def ring_out_def arrived_def)
qed (use assms(2) in \<open>simp_all add: rings_def\<close>)

lemma hw_step_staged:
  assumes "hw_step s s'" "rings sent r s" "staged (length sent) w b c s"
  shows "staged (length sent) w b c s'"
  using assms(1)
proof cases
  case (take_packet i p)
  let ?c = "length (consumed s)"
  have n: "length (idescs s) = 4" "length sent \<le> ?c + 4" using assms(2) by (simp_all add: rings_def ring_in_def)
  have c: "?c < length sent" using take_packet_oldest [OF assms(2)] take_packet(4-6) unfolding n by auto
  have l: "length sent < ?c + 4" using assms(3) by (simp add: staged_def)
  have "i \<noteq> length sent mod 4" using mod4_inj [of ?c "length sent" ?c] c l by (auto simp: take_packet(4) n)
  then show ?thesis using assms(3) unfolding take_packet(1) by (simp add: staged_def)
next
  case (deliver_packet i p w')
  let ?m = "length (produced s)"
  have n: "length (edescs s) = 4" using assms(2) by (simp add: rings_def ring_out_def)
  then have i: "i = ?m mod 4" using deliver_packet(4) by simp
  from deliver_slot [OF assms(2) refl, of p] have d: "unat (d_buff (edescs s ! (?m mod 4))) - win_phys s = eslot ?m"
    using deliver_packet(5,8) unfolding i by blast
  have w: "write_at (window s) (eslot ?m) p = Inr w'" using deliver_packet(9) unfolding i d .
  have "bytes_at w' (islot k) q = bytes_at (window s) (islot k) q" if "length q \<le> 0x410" for k q
    using bytes_at_other [OF w] islot_le [of k] eslot_ge [of ?m] that by simp
  then show ?thesis using assms(3) unfolding deliver_packet(1) by (auto simp: staged_def)
next
  case (registers ic ec a b st et x)
  then show ?thesis using assms(3) by (simp add: staged_def)
qed (use assms(2) in \<open>simp_all add: rings_def\<close>)

lemma hw_step_readable:
  assumes "hw_step s s'" "rings sent (Suc r) s" "readable r q s"
  shows "readable r q s'"
  using assms(1)
proof cases
  case (deliver_packet i p w)
  let ?m = "length (produced s)"
  have n: "length (edescs s) = 4" using assms(2) by (simp add: rings_def ring_out_def)
  then have i: "i = ?m mod 4" using deliver_packet(4) by simp
  from deliver_slot [OF assms(2) refl, of p] have d: "length p \<le> 0x410"
    "unat (d_buff (edescs s ! (?m mod 4))) - win_phys s = eslot ?m"
    using deliver_packet(5,8) unfolding i by blast+
  have w: "write_at (window s) (eslot ?m) p = Inr w" using deliver_packet(9) unfolding i d(2) .
  have "bytes_at w (eslot r) q" if l: "Suc ?m \<le> r + 4"
  proof -
    have "r mod 4 \<noteq> ?m mod 4" using mod4_inj [of r ?m r] assms(3) l by (auto simp: readable_def)
    moreover have "bytes_at (window s) (eslot r) q" "length q \<le> 0x410" using assms(3) l by (simp_all add: readable_def)
    ultimately show ?thesis using bytes_at_other [OF w] eslot_apart [of r ?m "length q" "length p"] d(1) by auto
  qed
  then show ?thesis using assms(3) unfolding deliver_packet(1) by (auto simp: readable_def nth_append)
qed (use assms(2,3) in \<open>simp_all add: readable_def rings_def\<close>)

text \<open>What no step changes, and how the history grows while there is no reset.\<close>

definition extends :: "'h dma \<Rightarrow> 'h dma \<Rightarrow> bool" where
  "extends s s' \<longleftrightarrow> win_phys s' = win_phys s \<and>
     (\<not> bit (i_cntl s) 2 \<longrightarrow>
        \<not> bit (i_cntl s') 2 \<and> prefix (consumed s) (consumed s') \<and> prefix (produced s) (produced s'))"

lemma extends_refl [simp]: "extends s s" and extends_trans: "extends s t \<Longrightarrow> extends t u \<Longrightarrow> extends s u"
  by (auto simp: extends_def)

lemma hw_step_extends: "hw_step s s' \<Longrightarrow> extends s s'"
  by (auto simp: extends_def elim!: hw_stepE)

abbreviation hw_steps :: "'h dma \<Rightarrow> 'h dma \<Rightarrow> bool" where
  "hw_steps \<equiv> hw_step\<^sup>*\<^sup>*"

lemma hw_steps_rings: "hw_steps s s' \<Longrightarrow> rings sent r s \<Longrightarrow> rings sent r s'"
  by (induction rule: rtranclp_induct) (auto intro: hw_step_rings)

lemma hw_steps_staged:
  "hw_steps s s' \<Longrightarrow> rings sent r s \<Longrightarrow> staged (length sent) w b c s \<Longrightarrow> staged (length sent) w b c s'"
  by (induction rule: rtranclp_induct) (auto intro: hw_step_staged hw_steps_rings)

lemma hw_steps_readable:
  "hw_steps s s' \<Longrightarrow> rings sent (Suc r) s \<Longrightarrow> readable r q s \<Longrightarrow> readable r q s'"
  by (induction rule: rtranclp_induct) (auto intro: hw_step_readable hw_steps_rings)

lemma hw_steps_extends: "hw_steps s s' \<Longrightarrow> extends s s'"
  by (induction rule: rtranclp_induct) (auto intro: hw_step_extends extends_trans)

section \<open>Writes of the program\<close>

lemma rings_update_free:
  assumes "rings sent r s" "length sent < length (consumed s) + 4" "\<And>d. d_sts (f d) = d_sts d"
  shows "rings sent r (s\<lparr>idescs := (idescs s)[length sent mod 4 := f (idescs s ! (length sent mod 4))]\<rparr>)"
proof -
  let ?n = "length sent" and ?c = "length (consumed s)"
  let ?ds = "(idescs s)[?n mod 4 := f (idescs s ! (?n mod 4))]"
  have i: "ring_in sent s" using assms(1) by (simp add: rings_def)
  then have n: "length (idescs s) = 4" "?c \<le> ?n" by (simp_all add: ring_in_def)
  have other: "?ds ! (k mod 4) = idescs s ! (k mod 4)" if "?c \<le> k" "k < ?n" for k
  proof -
    have "?n mod 4 \<noteq> k mod 4" using mod4_inj [of k ?n ?c] that assms(2) by auto
    then show ?thesis by simp
  qed
  have sts: "d_sts (?ds ! (k mod 4)) = d_sts (idescs s ! (k mod 4))" for k
    using n(1) by (simp add: nth_list_update assms(3))
  show ?thesis
    using assms(1) other sts by (auto simp: rings_def ring_in_def ring_out_def window_ok_def in_flight_def arrived_def)
qed

lemma rings_write_slot:
  assumes "rings sent r s" "length sent < length (consumed s) + 4" "length p \<le> 0x410"
  shows "\<exists>w. write_at (window s) (islot (length sent)) p = Inr w \<and> rings sent r (s\<lparr>window := w\<rparr>) \<and>
    bytes_at w (islot (length sent)) p"
proof -
  let ?n = "length sent" and ?c = "length (consumed s)"
  have wd: "0x2280 \<le> length (window s)" using assms(1) by (simp add: rings_def window_ok_def)
  then obtain w where w: "write_at (window s) (islot ?n) p = Inr w"
    using islot_le [of ?n] assms(3) by (simp add: write_at_def)
  have at: "bytes_at w (islot ?n) p"
  proof (cases "p = []")
    case True
    then show ?thesis using islot_le [of ?n] wd length_write_at [OF w] by (simp add: bytes_at_def)
  qed (rule bytes_at_written [OF w])
  have "bytes_at w (islot k) q" if "?c \<le> k" "k < ?n" "bytes_at (window s) (islot k) q" "length q \<le> 0x410" for k q
  proof -
    have "k mod 4 \<noteq> ?n mod 4" using mod4_inj [of k ?n ?c] that(1,2) assms(2) by auto
    then show ?thesis using bytes_at_other [OF w] islot_apart [of k ?n "length q" "length p"] assms(3) that by auto
  qed
  moreover have "bytes_at w (eslot k) q = bytes_at (window s) (eslot k) q" for k q
    using bytes_at_other [OF w] islot_le [of ?n] eslot_ge [of k] assms(3) by simp
  ultimately have "rings sent r (s\<lparr>window := w\<rparr>)"
    using assms(1) length_write_at [OF w]
    by (auto simp: rings_def ring_in_def ring_out_def window_ok_def in_flight_def arrived_def)
  with w at show ?thesis by blast
qed

lemma rings_submit:
  assumes "rings sent r s" "staged (length sent) (Some p) True (Some (length p)) s"
  shows "rings (sent @ [p]) r (s\<lparr>idescs := (idescs s)[length sent mod 4 := (idescs s ! (length sent mod 4))\<lparr>d_sts := 0\<rparr>]\<rparr>)"
proof -
  let ?n = "length sent" and ?c = "length (consumed s)"
  let ?s = "s\<lparr>idescs := (idescs s)[?n mod 4 := (idescs s ! (?n mod 4))\<lparr>d_sts := 0\<rparr>]\<rparr>"
  have i: "ring_in sent s" using assms(1) by (simp add: rings_def)
  then have r: "length (idescs s) = 4" "?c \<le> ?n" "consumed s = take ?c sent"
    "\<And>k. ?c \<le> k \<Longrightarrow> k < ?n \<Longrightarrow> in_flight s k (sent ! k)"
    "\<And>k. ?n \<le> k \<Longrightarrow> k < ?c + 4 \<Longrightarrow> sts_done (d_sts (idescs s ! (k mod 4)))"
    by (simp_all add: ring_in_def)
  have g: "?n < ?c + 4" "length p \<le> 0x410" "bytes_at (window s) (islot ?n) p"
    "d_buff (idescs s ! (?n mod 4)) = word_of_nat (win_phys s + islot ?n)"
    "d_cntl (idescs s ! (?n mod 4)) = packet_cntl (length p)"
    using assms(2) by (simp_all add: staged_def)
  have other: "idescs ?s ! (k mod 4) = idescs s ! (k mod 4)" if "?c \<le> k" "k < ?c + 4" "k \<noteq> ?n" for k
  proof -
    have "?n mod 4 \<noteq> k mod 4" using mod4_inj [of k ?n ?c] that g(1) r(2) by auto
    then show ?thesis by simp
  qed
  have fl: "in_flight ?s k ((sent @ [p]) ! k)" if "?c \<le> k" "k < Suc ?n" for k
  proof (cases "k = ?n")
    case True
    have "idescs ?s ! (?n mod 4) = (idescs s ! (?n mod 4))\<lparr>d_sts := 0\<rparr>" by (simp add: r(1))
    then show ?thesis using g(2-5) by (simp add: True in_flight_def)
  next
    case False
    then have "k < ?n" "k < ?c + 4" "k \<noteq> ?n" using that g(1) by simp_all
    then show ?thesis using r(4) [OF that(1)] other [OF that(1)] by (simp add: in_flight_def nth_append)
  qed
  have free: "sts_done (d_sts (idescs ?s ! (k mod 4)))" if "Suc ?n \<le> k" "k < ?c + 4" for k
    using that r(2) r(5) [of k] other [of k] by simp
  have "take ?c (sent @ [p]) = take ?c sent" using r(2) by simp
  then have "ring_in (sent @ [p]) ?s"
    unfolding ring_in_def using r(1,2) g(1) fl free by (simp add: r(3) [symmetric])
  then show ?thesis using assms(1) by (simp add: rings_def ring_out_def window_ok_def arrived_def)
qed

section \<open>The operations\<close>

text \<open>The program's side: the regions, and which descriptor each ring uses next.\<close>

definition host_ok :: "nat \<Rightarrow> byte list list \<Rightarrow> nat \<Rightarrow> hsdp_dma \<Rightarrow> bool" where
  "host_ok phys sent rcvd h \<longleftrightarrow>
     laid_out phys h \<and> hsdp_next (idesc h) = length sent mod 4 \<and> hsdp_next (edesc h) = rcvd mod 4"

lemma next_mod4:
  "buffer_size g = 0x100 \<Longrightarrow> packet_size g = 0x40 \<Longrightarrow> last_idx g = int (n mod 4) \<Longrightarrow> hsdp_next g = Suc n mod 4"
  using mod4_le [of n] by (auto simp: hsdp_next_def mod_Suc nat_add_distrib)

lemma host_ok_addresses:
  assumes "host_ok phys sent r h"
  shows "axi_addr (ipkts h) (length sent mod 4) = word_of_nat (phys + islot (length sent))"
    "buffer_at (ipkts h) (length sent mod 4) = islot (length sent)"
    "axi_addr (epkts h) (r mod 4) = word_of_nat (phys + eslot r)"
    "buffer_at (epkts h) 0 = 0x1240" "axi_base (epkts h) = phys + 0x1240"
proof -
  have "axi_base (ipkts h) = phys + 0x200" "offset (ipkts h) = 0x200" "packet_size (ipkts h) = 0x410"
    "axi_base (epkts h) = phys + 0x1240" "offset (epkts h) = 0x1240" "packet_size (epkts h) = 0x410"
    using assms unfolding host_ok_def laid_out_def by (metis region.select_convs)+
  then show "axi_addr (ipkts h) (length sent mod 4) = word_of_nat (phys + islot (length sent))"
    "buffer_at (ipkts h) (length sent mod 4) = islot (length sent)"
    "axi_addr (epkts h) (r mod 4) = word_of_nat (phys + eslot r)"
    "buffer_at (epkts h) 0 = 0x1240" "axi_base (epkts h) = phys + 0x1240"
    by (simp_all add: axi_addr_def buffer_at_def islot_def eslot_def add.assoc)
qed

lemma host_ok_sent:
  assumes "host_ok phys sent r h"
  shows "host_ok phys (sent @ [p]) r (h\<lparr>idesc := (idesc h)\<lparr>last_idx := int (length sent mod 4)\<rparr>\<rparr>)"
proof -
  have "buffer_size (idesc h) = 0x100" "packet_size (idesc h) = 0x40"
    using assms unfolding host_ok_def laid_out_def by (metis region.select_convs)+
  then have "hsdp_next ((idesc h)\<lparr>last_idx := int (length sent mod 4)\<rparr>) = Suc (length sent) mod 4"
    by (intro next_mod4) simp_all
  then show ?thesis using assms by (auto simp: host_ok_def laid_out_def) (metis region.update_convs(5))
qed

lemma host_ok_received:
  assumes "host_ok phys sent r h"
  shows "host_ok phys sent (Suc r)
    (h\<lparr>epkts := (epkts h)\<lparr>last_idx := int (r mod 4)\<rparr>, edesc := (edesc h)\<lparr>last_idx := int (r mod 4)\<rparr>\<rparr>)"
proof -
  have "buffer_size (edesc h) = 0x100" "packet_size (edesc h) = 0x40"
    using assms unfolding host_ok_def laid_out_def by (metis region.select_convs)+
  then have "hsdp_next ((edesc h)\<lparr>last_idx := int (r mod 4)\<rparr>) = Suc r mod 4"
    by (intro next_mod4) simp_all
  then show ?thesis using assms by (auto simp: host_ok_def laid_out_def) (metis region.update_convs(5))+
qed

lemma status_of_size:
  assumes "n \<le> 0x410"
  shows "\<not> sts_error (0x80000000 OR word_of_nat n)" "unat ((0x80000000 OR word_of_nat n :: 32 word) AND 0x3FFFFFF) = n"
proof -
  have m: "(0x3FFFFFF :: 32 word) = mask 26" by (simp add: mask_eq_exp_minus_1)
  have "(0x80000000 OR word_of_nat n :: 32 word) AND 0x3FFFFFF = take_bit 26 (word_of_nat n)"
    unfolding m by (simp add: take_bit_or flip: take_bit_eq_mask)
  then have "unat ((0x80000000 OR word_of_nat n :: 32 word) AND 0x3FFFFFF) = take_bit 26 (unat (word_of_nat n :: 32 word))"
    by (simp add: unsigned_take_bit_eq)
  then show "unat ((0x80000000 OR word_of_nat n :: 32 word) AND 0x3FFFFFF) = n"
    using assms by (simp add: unat_word_of_nat_32 take_bit_nat_eq_self)
  have t: "(word_of_nat n :: 32 word) = take_bit 26 (word_of_nat n)"
    using assms by (intro word_unat_eq_iff [THEN iffD2]) (simp add: unsigned_take_bit_eq unat_word_of_nat_32 take_bit_nat_eq_self)
  have "(word_of_nat n :: 32 word) AND 0x70000000 = (word_of_nat n AND 0x3FFFFFF) AND 0x70000000"
    using t unfolding m by (simp add: take_bit_eq_mask)
  also have "\<dots> = word_of_nat n AND (0x3FFFFFF AND 0x70000000)" by (rule and.assoc)
  finally have "(word_of_nat n :: 32 word) AND 0x70000000 = 0" by simp
  moreover have "(0x80000000 OR word_of_nat n :: 32 word) AND 0x70000000 =
      (0x80000000 AND 0x70000000) OR (word_of_nat n AND 0x70000000)" by (rule bit.conj_disj_distrib2)
  ultimately have "(0x80000000 OR word_of_nat n :: 32 word) AND 0x70000000 = 0" by simp
  then show "\<not> sts_error (0x80000000 OR word_of_nat n)" by (simp add: sts_error_def)
qed

lemma rings_update_edesc:
  assumes "rings sent r s" "\<And>d. d_sts (f d) = d_sts d" "\<And>d. d_cntl (f d) = d_cntl d"
    and "\<And>d. d_buff (f d) = word_of_nat (win_phys s + eslot r)"
  shows "rings sent r (s\<lparr>edescs := (edescs s)[r mod 4 := f (edescs s ! (r mod 4))]\<rparr>)"
proof -
  let ?s = "s\<lparr>edescs := (edescs s)[r mod 4 := f (edescs s ! (r mod 4))]\<rparr>"
  have o: "ring_out r s" using assms(1) by (simp add: rings_def)
  then have l: "length (edescs s) = 4" by (simp add: ring_out_def)
  have "d_sts (edescs ?s ! (k mod 4)) = d_sts (edescs s ! (k mod 4))"
    "d_cntl (edescs ?s ! (k mod 4)) = d_cntl (edescs s ! (k mod 4))" for k
    using l by (simp_all add: nth_list_update assms(2,3))
  moreover have "d_buff (edescs ?s ! (k mod 4)) = word_of_nat (win_phys s + eslot k)" for k
    using l o by (auto simp: nth_list_update assms(4) ring_out_def eslot_def)
  ultimately have "ring_out r ?s"
    using o unfolding ring_out_def by (simp add: arrived_def)
  then show ?thesis using assms(1) by (simp add: rings_def window_ok_def ring_in_def in_flight_def)
qed

lemma rings_release:
  assumes "rings sent r s" "r < length (produced s)"
  defines "s' \<equiv> s\<lparr>edescs := (edescs s)[r mod 4 := (edescs s ! (r mod 4))\<lparr>d_sts := 0\<rparr>]\<rparr>"
  shows "rings sent (Suc r) s' \<and> readable r (produced s ! r) s'"
proof -
  have o: "ring_out r s" using assms(1) by (simp add: rings_def)
  then have l: "length (edescs s) = 4" and m: "length (produced s) \<le> r + 4"
    and a: "\<And>k. r \<le> k \<Longrightarrow> k < length (produced s) \<Longrightarrow> arrived s k (produced s ! k)"
    by (simp_all add: ring_out_def)
  have other: "edescs s' ! (k mod 4) = edescs s ! (k mod 4)" if "r < k" "k < r + 4" for k
  proof -
    have "r mod 4 \<noteq> k mod 4" using mod4_inj [of k r r] that by auto
    then show ?thesis by (simp add: s'_def)
  qed
  have regs: "d_buff (edescs s' ! (k mod 4)) = word_of_nat (win_phys s + eslot k)"
    "d_cntl (edescs s' ! (k mod 4)) = packet_cntl 0x410" for k
    using o l by (simp_all add: s'_def nth_list_update ring_out_def)
  have "arrived s' k (produced s ! k)" if "Suc r \<le> k" "k < length (produced s)" for k
    using a [of k] other [of k] that m by (simp add: arrived_def s'_def)
  moreover have "d_sts (edescs s' ! (k mod 4)) = 0" if "length (produced s) \<le> k" "k < Suc r + 4" for k
  proof (cases "k = r + 4")
    case True
    then have "k mod 4 = r mod 4" by simp
    then show ?thesis by (simp add: s'_def l)
  next
    case False
    then have k: "r < k" "k < r + 4" using that assms(2) by linarith+
    show ?thesis unfolding other [OF k] using o that(1) k(2) by (simp add: ring_out_def)
  qed
  ultimately have "ring_out (Suc r) s'"
    using l m assms(2) regs by (simp add: ring_out_def s'_def)
  moreover have "readable r (produced s ! r) s'"
    using a [of r] assms(2) by (simp add: readable_def arrived_def s'_def)
  ultimately show ?thesis
    using assms(1) by (simp add: rings_def window_ok_def ring_in_def in_flight_def s'_def)
qed

locale dma_engine =
  fixes tick :: "'h tick"
  assumes tick: "hw_steps s (tick s)"
begin

lemmas tick_rings = hw_steps_rings [OF tick]
lemmas tick_staged = hw_steps_staged [OF tick]
lemmas tick_readable = hw_steps_readable [OF tick]
lemmas tick_extends = hw_steps_extends [OF tick]

lemma tick_phys [simp]: "win_phys (tick s) = win_phys s"
  using tick_extends [of s] by (simp add: extends_def)

lemma tick_room: "rings sent r s \<Longrightarrow> n < length (consumed s) + 4 \<Longrightarrow> n < length (consumed (tick s)) + 4"
  using tick_extends [of s] by (auto simp: extends_def prefix_def rings_def)

lemma ring_lengths: "rings sent r s \<Longrightarrow> length (idescs s) = 4" "rings sent r s \<Longrightarrow> length (edescs s) = 4"
  by (simp_all add: rings_def ring_in_def ring_out_def)

lemma read_idesc_ok:
  "rings sent r s \<Longrightarrow> read_idesc tick (k mod 4) s = Inr (idescs (tick s) ! (k mod 4), tick s)"
  using ring_lengths(1) [OF tick_rings] mod4_le [of k] by (simp add: read_idesc_def Let_def)

lemma await_ingress_spec:
  assumes "rings sent r s"
  shows "\<exists>found s'. await_ingress tick (length sent mod 4) m s = Inr (found, s') \<and> rings sent r s' \<and> extends s s' \<and>
    (found \<longrightarrow> length sent < length (consumed s') + 4) \<and>
    (length sent < length (consumed s) + 4 \<longrightarrow> 0 < m \<longrightarrow> found)"
  using assms
proof (induction m arbitrary: s)
  case (Suc m)
  let ?n = "length sent"
  have t: "rings sent r (tick s)" using Suc.prems by (rule tick_rings)
  let ?d = "idescs (tick s) ! (?n mod 4)"
  show ?case
  proof (cases "sts_error (d_sts ?d) \<or> sts_done (d_sts ?d)")
    case True
    have "?n < length (consumed (tick s)) + 4"
    proof (rule ccontr)
      assume "\<not> ?n < length (consumed (tick s)) + 4"
      then have n: "?n = length (consumed (tick s)) + 4" "length (consumed (tick s)) < ?n"
        using t by (simp_all add: rings_def ring_in_def)
      then have "in_flight (tick s) (length (consumed (tick s))) (sent ! length (consumed (tick s)))"
        using t by (simp add: rings_def ring_in_def)
      then have "d_sts (idescs (tick s) ! (length (consumed (tick s)) mod 4)) = 0"
        unfolding in_flight_def by (metis desc.select_convs(4))
      moreover have "length (consumed (tick s)) mod 4 = ?n mod 4" using n(1) by simp
      ultimately show False using True done_status by simp
    qed
    moreover have "await_ingress tick (?n mod 4) (Suc m) s = Inr (True, tick s)"
      using True by (simp add: read_idesc_ok [OF Suc.prems])
    ultimately show ?thesis using t tick_extends [of s] by blast
  next
    case False
    have "\<not> ?n < length (consumed (tick s)) + 4"
      using False t by (auto simp: rings_def ring_in_def)
    then have "\<not> ?n < length (consumed s) + 4" using tick_room [OF Suc.prems] by blast
    moreover have "await_ingress tick (?n mod 4) (Suc m) s = await_ingress tick (?n mod 4) m (tick s)"
      using False by (simp add: read_idesc_ok [OF Suc.prems])
    moreover obtain found s' where "await_ingress tick (?n mod 4) m (tick s) = Inr (found, s')" "rings sent r s'"
      "extends (tick s) s'" "found \<longrightarrow> ?n < length (consumed s') + 4" using Suc.IH [OF t] by blast
    ultimately show ?thesis using extends_trans [OF tick_extends [of s]] by auto
  qed
qed auto

lemma write_buff_ok:
  assumes "rings sent r s" "staged (length sent) w b c s" "v = word_of_nat (win_phys s + islot (length sent))"
  shows "\<exists>s'. write_idesc tick (length sent mod 4) (\<lambda>d. d\<lparr>d_buff := v\<rparr>) s = Inr s' \<and> rings sent r s' \<and>
    staged (length sent) w True c s' \<and> extends s s'"
proof -
  have t: "rings sent r (tick s)" "staged (length sent) w b c (tick s)"
    using assms(1,2) by (auto intro: tick_rings tick_staged)
  have room: "length sent < length (consumed (tick s)) + 4" using t(2) by (simp add: staged_def)
  show ?thesis
    using rings_update_free [OF t(1) room, of "\<lambda>d. d\<lparr>d_buff := v\<rparr>"] t(2) tick_extends [of s] ring_lengths(1) [OF t(1)] assms(3)
    by (simp add: write_idesc_def Let_def staged_def extends_def)
qed

lemma write_cntl_ok:
  assumes "rings sent r s" "staged (length sent) w b c s"
  shows "\<exists>s'. write_idesc tick (length sent mod 4) (\<lambda>d. d\<lparr>d_cntl := packet_cntl m\<rparr>) s = Inr s' \<and> rings sent r s' \<and>
    staged (length sent) w b (Some m) s' \<and> extends s s'"
proof -
  have t: "rings sent r (tick s)" "staged (length sent) w b c (tick s)"
    using assms(1,2) by (auto intro: tick_rings tick_staged)
  have room: "length sent < length (consumed (tick s)) + 4" using t(2) by (simp add: staged_def)
  show ?thesis
    using rings_update_free [OF t(1) room, of "\<lambda>d. d\<lparr>d_cntl := packet_cntl m\<rparr>"] t(2) tick_extends [of s] ring_lengths(1) [OF t(1)]
    by (simp add: write_idesc_def Let_def staged_def extends_def)
qed

lemma write_slot_ok:
  assumes "rings sent r s" "length sent < length (consumed s) + 4" "length p \<le> 0x410"
  shows "\<exists>s'. write_window tick (islot (length sent)) p s = Inr s' \<and> rings sent r s' \<and>
    staged (length sent) (Some p) False None s' \<and> extends s s'"
proof -
  have t: "rings sent r (tick s)" "length sent < length (consumed (tick s)) + 4"
    using assms(1,2) by (auto intro: tick_rings tick_room)
  from rings_write_slot [OF t assms(3)] show ?thesis
    using t(2) assms(3) tick_extends [of s] by (auto simp: write_window_def Let_def staged_def extends_def)
qed

lemma write_sts_ok:
  assumes "rings sent r s" "staged (length sent) (Some p) True (Some (length p)) s"
  shows "\<exists>s'. write_idesc tick (length sent mod 4) (\<lambda>d. d\<lparr>d_sts := 0\<rparr>) s = Inr s' \<and> rings (sent @ [p]) r s' \<and> extends s s'"
proof -
  have t: "rings sent r (tick s)" "staged (length sent) (Some p) True (Some (length p)) (tick s)"
    using assms by (auto intro: tick_rings tick_staged)
  from rings_submit [OF this] show ?thesis
    using tick_extends [of s] ring_lengths(1) [OF t(1)] by (simp add: write_idesc_def Let_def extends_def)
qed

lemma rings_tail: "rings sent r (s\<lparr>i_tail := v\<rparr>) = rings sent r s" "rings sent r (s\<lparr>e_tail := v\<rparr>) = rings sent r s"
  by (simp_all add: rings_def ring_in_def ring_out_def window_ok_def in_flight_def arrived_def)

lemma send_spec:
  assumes "rings sent r s" "host_ok (win_phys s) sent r h" "wc \<le> 260" "4 * wc \<le> length buf"
  shows "\<exists>rv h' s' sent'. hsdp_send_packet tick h s buf wc = Inr (rv, h', s') \<and>
    rings sent' r s' \<and> host_ok (win_phys s') sent' r h' \<and> extends s s' \<and>
    sent' = (if rv = 0 then sent @ [take (4 * wc) buf] else sent) \<and>
    (length sent < length (consumed s) + 4 \<longrightarrow> rv = 0)"
proof -
  let ?p = "take (4 * wc) buf" and ?j = "length sent mod 4"
  have sz: "size_of_words wc = 4 * wc" using assms(3) by (simp add: size_of_words_def)
  have lp: "length ?p = 4 * wc" "length ?p \<le> 0x410" using assms(3,4) by simp_all
  have nx: "hsdp_next (idesc h) = ?j" using assms(2) by (simp add: host_ok_def)
  obtain found s1 where a: "await_ingress tick ?j 1000 s = Inr (found, s1)" and r1: "rings sent r s1" "extends s s1"
    "found \<Longrightarrow> length sent < length (consumed s1) + 4" "length sent < length (consumed s) + 4 \<Longrightarrow> found"
    using await_ingress_spec [OF assms(1), of 1000] by auto
  have ph: "win_phys s1 = win_phys s" using r1(2) by (simp add: extends_def)
  show ?thesis
  proof (cases found)
    case False
    then have "hsdp_send_packet tick h s buf wc = Inr (- 1, h, s1)"
      unfolding hsdp_send_packet_def Let_def sz nx a by simp
    then show ?thesis using r1 assms(2) False ph by auto
  next
    case True
    obtain s2 where w2: "write_window tick (islot (length sent)) ?p s1 = Inr s2" and r2: "rings sent r s2"
      "staged (length sent) (Some ?p) False None s2" "extends s1 s2"
      using write_slot_ok [OF r1(1) r1(3) [OF True] lp(2)] by blast
    have "win_phys s2 = win_phys s" using r2(3) ph by (simp add: extends_def)
    then obtain s3 where w3: "write_idesc tick ?j (\<lambda>d. d\<lparr>d_buff := word_of_nat (win_phys s + islot (length sent))\<rparr>) s2 = Inr s3"
      and r3: "rings sent r s3" "staged (length sent) (Some ?p) True None s3" "extends s2 s3"
      using write_buff_ok [OF r2(1,2)] by metis
    obtain s4 where w4: "write_idesc tick ?j (\<lambda>d. d\<lparr>d_cntl := packet_cntl (4 * wc)\<rparr>) s3 = Inr s4" and r4: "rings sent r s4"
      "staged (length sent) (Some ?p) True (Some (length ?p)) s4" "extends s3 s4"
      using write_cntl_ok [OF r3(1,2), of "4 * wc"] lp(1) by auto
    obtain s5 where w5: "write_idesc tick ?j (\<lambda>d. d\<lparr>d_sts := 0\<rparr>) s4 = Inr s5" and r5: "rings (sent @ [?p]) r s5" "extends s4 s5"
      using write_sts_ok [OF r4(1,2)] by blast
    define s7 where "s7 = (tick (tick s5))\<lparr>i_tail := axi_addr (idesc h) ?j\<rparr>"
    have r7: "rings (sent @ [?p]) r s7"
      unfolding s7_def rings_tail using r5(1) by (intro tick_rings)
    have e7: "extends s s7"
    proof -
      have "extends s5 s7" using tick_extends [of s5] tick_extends [of "tick s5"] by (auto simp: s7_def extends_def)
      then show ?thesis using r1(2) r2(3) r3(3) r4(3) r5(2) by (meson extends_trans)
    qed
    have rd: "read_range buf 0 (4 * wc) = Inr ?p" using assms(4) by (simp add: read_range_def)
    have "hsdp_send_packet tick h s buf wc = Inr (0, h\<lparr>idesc := (idesc h)\<lparr>last_idx := int ?j\<rparr>\<rparr>, s7)"
      unfolding hsdp_send_packet_def Let_def sz nx a and_then_simps prod.case rd host_ok_addresses(1,2) [OF assms(2)] w2 w3 w4 w5
        read_idesc_ok [OF r5(1)] s7_def using True by simp
    moreover have "host_ok (win_phys s7) (sent @ [?p]) r (h\<lparr>idesc := (idesc h)\<lparr>last_idx := int ?j\<rparr>\<rparr>)"
      using host_ok_sent [OF assms(2)] e7 by (simp add: extends_def)
    ultimately show ?thesis using r7 e7 by (intro exI conjI) auto
  qed
qed

lemma read_edesc_ok:
  "rings sent r s \<Longrightarrow> read_edesc tick (k mod 4) s = Inr (edescs (tick s) ! (k mod 4), tick s)"
  using ring_lengths(2) [OF tick_rings] mod4_le [of k] by (simp add: read_edesc_def Let_def)

lemma extends_nth:
  "rings sent n s \<Longrightarrow> extends s s' \<Longrightarrow> r < length (produced s) \<Longrightarrow>
   r < length (produced s') \<and> produced s' ! r = produced s ! r"
  by (auto simp: extends_def prefix_def nth_append rings_def)

text \<open>A packet that is there is received; the descriptor is given back with the packet still in its slot.\<close>

lemma poll_arrived:
  assumes "rings sent r s" "host_ok (win_phys s) sent r h" "r < length (produced (tick s))"
  shows "\<exists>p h' s'. hsdp_poll_fast_packet tick h s = Inr (p, h', s') \<and> extends s s' \<and>
    p_buf p = Some (int (eslot r)) \<and> 4 * p_words p = length (produced s' ! r) \<and> 0 < p_words p \<and>
    rings sent (Suc r) s' \<and> host_ok (win_phys s') sent (Suc r) h' \<and> readable r (produced s' ! r) s'"
proof -
  let ?j = "r mod 4" and ?s1 = "tick s"
  have nx: "hsdp_next (edesc h) = ?j" using assms(2) by (simp add: host_ok_def)
  have r1: "rings sent r ?s1" using assms(1) by (rule tick_rings)
  define q where "q = produced ?s1 ! r"
  have a: "arrived ?s1 r q" using r1 assms(3) by (simp add: rings_def ring_out_def q_def)
  then have q: "d_sts (edescs ?s1 ! ?j) = 0x80000000 OR word_of_nat (length q)" "q \<noteq> []" "4 dvd length q" "length q \<le> 0x410"
    by (simp_all add: arrived_def)
  note st = status_of_size [OF q(4)] done_status(1) [of "word_of_nat (length q)"]
  let ?s2 = "tick ?s1"
  have r2: "rings sent r ?s2" using r1 by (rule tick_rings)
  have "d_buff (edescs ?s2 ! ?j) = word_of_nat (win_phys s + eslot r)" using r2 by (simp add: rings_def ring_out_def)
  moreover have "unat (word_of_nat (win_phys s + eslot r) :: 32 word) = win_phys s + eslot r"
    using assms(1) eslot_le [of r] by (simp add: rings_def window_ok_def unat_word_of_nat_32 del: of_nat_add)
  ultimately have buf: "int 0x1240 + (int (unat (d_buff (edescs ?s2 ! ?j))) - int (win_phys s + 0x1240)) = int (eslot r)"
    by (simp del: of_nat_add)
  let ?v = "word_of_nat (win_phys s + eslot r) :: 32 word"
  define s3 where "s3 = (tick ?s2)\<lparr>edescs := (edescs (tick ?s2))[?j := (edescs (tick ?s2) ! ?j)\<lparr>d_buff := ?v\<rparr>]\<rparr>"
  have w3: "write_edesc tick ?j (\<lambda>d. d\<lparr>d_buff := ?v\<rparr>) ?s2 = Inr s3"
    using ring_lengths(2) [OF tick_rings [OF r2]] by (simp add: write_edesc_def Let_def s3_def)
  have r3: "rings sent r s3"
    unfolding s3_def by (rule rings_update_edesc [OF tick_rings [OF r2]]) simp_all
  have e3: "extends ?s1 s3"
    using tick_extends [of ?s1] tick_extends [of ?s2] by (auto simp: s3_def extends_def)
  let ?s4 = "tick s3"
  have r4: "rings sent r ?s4" using r3 by (rule tick_rings)
  have e4: "extends ?s1 ?s4" using e3 tick_extends [of s3] by (rule extends_trans)
  define s5 where "s5 = ?s4\<lparr>edescs := (edescs ?s4)[?j := (edescs ?s4 ! ?j)\<lparr>d_sts := 0\<rparr>]\<rparr>"
  have w5: "write_edesc tick ?j (\<lambda>d. d\<lparr>d_sts := 0\<rparr>) s3 = Inr s5"
    using ring_lengths(2) [OF r4] by (simp add: write_edesc_def Let_def s5_def)
  have m4: "r < length (produced ?s4)" "produced ?s4 ! r = q" using extends_nth [OF r1 e4 assms(3)] by (simp_all add: q_def)
  have r5: "rings sent (Suc r) s5" "readable r q s5" using rings_release [OF r4 m4(1)] by (simp_all add: s5_def m4(2))
  define s6 where "s6 = (tick s5)\<lparr>e_tail := axi_addr (edesc h) ?j\<rparr>"
  have r6: "rings sent (Suc r) s6" unfolding s6_def rings_tail using r5(1) by (rule tick_rings)
  have rd6: "readable r q s6" using tick_readable [OF r5] by (simp add: s6_def readable_def)
  have e6: "extends s s6"
    using tick_extends [of s] e4 tick_extends [of s5] by (auto simp: s6_def s5_def extends_def)
  define h' where "h' = h\<lparr>epkts := (epkts h)\<lparr>last_idx := int ?j\<rparr>, edesc := (edesc h)\<lparr>last_idx := int ?j\<rparr>\<rparr>"
  have "hsdp_poll_fast_packet tick h s = Inr (\<lparr>p_buf = Some (int (eslot r)), p_words = length q div 4,
      p_slot = Some (buffer_at (epkts h) ?j)\<rparr>, h', s6)"
    unfolding hsdp_poll_fast_packet_def Let_def nx read_edesc_ok [OF assms(1)] read_edesc_ok [OF r1] and_then_simps prod.case q(1)
      if_not_P [OF st(1)] if_P [OF st(3)] st(2) host_ok_addresses(3-5) [OF assms(2)] buf w3 w5 s6_def h'_def ..
  moreover have "host_ok (win_phys s6) sent (Suc r) h'"
    using host_ok_received [OF assms(2)] e6 by (simp add: extends_def h'_def)
  moreover have "produced s6 ! r = q" using rd6 by (simp add: readable_def)
  moreover have "0 < length q div 4"
  proof -
    obtain k where "length q = 4 * k" using q(3) by (rule dvdE)
    then show ?thesis using q(2) by (cases "k = 0") simp_all
  qed
  ultimately show ?thesis using e6 r6 rd6 q(3) by (intro exI conjI) auto
qed

lemma poll_empty:
  assumes "rings sent r s" "host_ok (win_phys s) sent r h" "\<not> r < length (produced (tick s))"
  shows "hsdp_poll_fast_packet tick h s = Inr (\<lparr>p_buf = None, p_words = 0, p_slot = None\<rparr>, h, tick s)"
proof -
  have nx: "hsdp_next (edesc h) = r mod 4" using assms(2) by (simp add: host_ok_def)
  have "rings sent r (tick s)" using assms(1) by (rule tick_rings)
  then have "d_sts (edescs (tick s) ! (r mod 4)) = 0" using assms(3) by (simp add: rings_def ring_out_def)
  then show ?thesis
    by (simp add: hsdp_poll_fast_packet_def nx read_edesc_ok [OF assms(1)] done_status)
qed

end

end
