(* ===== verification/Dpc_Setup.thy ===== *)
theory Dpc_Setup
  imports Dpc_Fifo
begin

unbundle bit_operations_syntax

text \<open>
  Setting the rings up. While a channel of the engine is stopped its ring does not move, so that
  \<open>hsdp_setup_dma\<close> brings both rings, from any content of the memory window, into the state of the
  empty queues, or waits forever for the engine.
\<close>

section \<open>A stopped channel\<close>

lemma hw_steps_stopped_out:
  "hw_steps s s' \<Longrightarrow> \<not> bit (e_cntl s) 0 \<Longrightarrow> \<not> bit (i_cntl s) 2 \<Longrightarrow>
   \<not> bit (e_cntl s') 0 \<and> \<not> bit (i_cntl s') 2 \<and> edescs s' = edescs s \<and> produced s' = produced s \<and> window s' = window s \<and> win_phys s' = win_phys s"
  by (induction rule: rtranclp_induct) (auto elim!: hw_stepE)

lemma hw_steps_stopped_in:
  "hw_steps s s' \<Longrightarrow> \<not> bit (i_cntl s) 0 \<Longrightarrow> \<not> bit (i_cntl s) 2 \<Longrightarrow>
   \<not> bit (i_cntl s') 0 \<and> \<not> bit (i_cntl s') 2 \<and> idescs s' = idescs s \<and> consumed s' = consumed s"
  by (induction rule: rtranclp_induct) (auto elim!: hw_stepE)

text \<open>A reset that has completed leaves both channels stopped, with a new history.\<close>

lemma hw_steps_reset:
  assumes "hw_steps s s'" "bit (i_cntl s) 2"
  shows "bit (i_cntl s') 2 \<or> \<not> bit (i_cntl s') 0 \<and> \<not> bit (e_cntl s') 0 \<and> consumed s' = [] \<and> produced s' = []"
  using assms by (induction rule: rtranclp_induct) (auto elim!: hw_stepE)

lemma hw_steps_sizes:
  "hw_steps s s' \<Longrightarrow> length (idescs s') = length (idescs s) \<and> length (edescs s') = length (edescs s) \<and>
   length (window s') = length (window s) \<and> win_phys s' = win_phys s"
  by (induction rule: rtranclp_induct) (auto elim!: hw_stepE dest: length_write_at)

text \<open>An ingress ring in which everything is done.\<close>

definition idle_in :: "'h dma \<Rightarrow> bool" where
  "idle_in s \<longleftrightarrow> \<not> bit (i_cntl s) 2 \<and> length (idescs s) = 4 \<and> consumed s = [] \<and> (\<forall>j < 4. sts_done (d_sts (idescs s ! j)))"

lemma idle_in_ring: "idle_in s \<longleftrightarrow> \<not> bit (i_cntl s) 2 \<and> ring_in [] s"
proof
  assume "\<not> bit (i_cntl s) 2 \<and> ring_in [] s"
  then have i: "ring_in [] s" and b: "\<not> bit (i_cntl s) 2" by simp_all
  have "sts_done (d_sts (idescs s ! j))" if "j < 4" for j
  proof -
    have "sts_done (d_sts (idescs s ! (j mod 4)))" using i that by (auto simp: ring_in_def)
    then show ?thesis using that by simp
  qed
  then show "idle_in s" using i b by (simp add: idle_in_def ring_in_def)
next
  assume i: "idle_in s"
  have "sts_done (d_sts (idescs s ! (k mod 4)))" for k
    using i mod4_le [of k] by (simp add: idle_in_def)
  then show "\<not> bit (i_cntl s) 2 \<and> ring_in [] s" using i by (simp add: ring_in_def idle_in_def)
qed

lemma hw_steps_idle: "hw_steps s s' \<Longrightarrow> idle_in s \<Longrightarrow> idle_in s'"
proof (induction rule: rtranclp_induct)
  case (step t u)
  then have t: "idle_in t" by simp
  from step.hyps(2) show ?case
  proof cases
    case (take_packet i p)
    then have "d_sts (idescs t ! 0) = 0" using t by (simp add: idle_in_def)
    moreover have "sts_done (d_sts (idescs t ! 0))" using t by (simp add: idle_in_def)
    ultimately show ?thesis by (simp add: done_status)
  qed (use t in \<open>simp_all add: idle_in_def\<close>)
qed

context dma_engine
begin

lemmas tick_stopped_out = hw_steps_stopped_out [OF tick]
lemmas tick_stopped_in = hw_steps_stopped_in [OF tick]
lemmas tick_idle = hw_steps_idle [OF tick]

lemma await_reset_steps:
  assumes "await_reset tick s = Some s'"
  shows "hw_steps s s'"
proof -
  have "tick = tick \<longrightarrow> hw_steps s s'"
  proof (rule await_reset.raw_induct [where P = "\<lambda>t s y. t = tick \<longrightarrow> hw_steps s y", OF _ assms])
    fix f and t :: "'h tick" and s y :: "'h dma"
    assume IH: "\<And>t s y. f t s = Some y \<Longrightarrow> t = tick \<longrightarrow> hw_steps s y"
      and e: "(let s1 = t s in if i_cntl s1 AND 4 = 0 then Some s1 else f t s1) = Some y"
    show "t = tick \<longrightarrow> hw_steps s y"
      using e IH [of t "t s" y] tick [of s] by (auto simp: Let_def split: if_split_asm)
  qed
  then show ?thesis by simp
qed

lemma await_reset_done:
  assumes "await_reset tick s = Some s'"
  shows "\<not> bit (i_cntl s') 2"
proof -
  have "i_cntl s' AND 4 = 0"
  proof (rule await_reset.raw_induct [where P = "\<lambda>t s y. i_cntl y AND 4 = 0", OF _ assms])
    fix f and t :: "'h tick" and s y :: "'h dma"
    assume IH: "\<And>t s y. f t s = Some y \<Longrightarrow> i_cntl y AND 4 = 0"
      and e: "(let s1 = t s in if i_cntl s1 AND 4 = 0 then Some s1 else f t s1) = Some y"
    show "i_cntl y AND 4 = 0"
      using e IH [of t "t s" y] by (auto simp: Let_def split: if_split_asm)
  qed
  then have "\<not> bit (i_cntl s' AND 4) 2" by simp
  moreover have "bit (4 :: 32 word) 2" by (simp add: bit_iff_odd)
  ultimately show ?thesis by (simp add: bit_and_iff)
qed

lemma await_egress_steps:
  assumes "await_egress tick s = Some s'"
  shows "hw_steps s s'"
proof -
  have "tick = tick \<longrightarrow> hw_steps s s'"
  proof (rule await_egress.raw_induct [where P = "\<lambda>t s y. t = tick \<longrightarrow> hw_steps s y", OF _ assms])
    fix f and t :: "'h tick" and s y :: "'h dma"
    assume IH: "\<And>t s y. f t s = Some y \<Longrightarrow> t = tick \<longrightarrow> hw_steps s y"
      and e: "(let s1 = t s in if e_status s1 AND 1 = 0 then Some s1 else f t s1) = Some y"
    show "t = tick \<longrightarrow> hw_steps s y"
      using e IH [of t "t s" y] tick [of s] by (auto simp: Let_def split: if_split_asm)
  qed
  then show ?thesis by simp
qed

section \<open>The loops\<close>

text \<open>What stays when both channels are stopped, apart from the ingress descriptors.\<close>

definition quiet :: "'h dma \<Rightarrow> 'h dma \<Rightarrow> bool" where
  "quiet s s' \<longleftrightarrow> \<not> bit (i_cntl s') 2 \<and> \<not> bit (e_cntl s') 0 \<and> produced s' = produced s \<and> window s' = window s \<and> win_phys s' = win_phys s \<and>
     consumed s' = consumed s"

lemma setup_ingress_ok:
  assumes "\<not> bit (i_cntl s) 2" "\<not> bit (i_cntl s) 0" "\<not> bit (e_cntl s) 0" "i + m \<le> length (idescs s)"
  shows "\<exists>s'. setup_ingress tick h n i m s = Inr s' \<and> quiet s s' \<and> \<not> bit (i_cntl s') 0 \<and> edescs s' = edescs s \<and>
    length (idescs s') = length (idescs s) \<and>
    (\<forall>j < length (idescs s). d_sts (idescs s' ! j) = (if i \<le> j \<and> j < i + m then 0x80000000 else d_sts (idescs s ! j)))"
  using assms
proof (induction m arbitrary: i s)
  case 0
  then show ?case by (auto simp: quiet_def)
next
  case (Suc m)
  have il: "i < length (idescs s)" using Suc.prems(4) by simp
  define w where "w = (\<lambda>f (s :: 'h dma). (tick s)\<lparr>idescs := (idescs s)[i := f (idescs s ! i)]\<rparr>)"
  have w: "write_idesc tick i f t = Inr (w f t) \<and> \<not> bit (i_cntl (w f t)) 0 \<and> \<not> bit (e_cntl (w f t)) 0 \<and>
      quiet t (w f t) \<and> edescs (w f t) = edescs t \<and> idescs (w f t) = (idescs t)[i := f (idescs t ! i)]"
    if "\<not> bit (i_cntl t) 0" "\<not> bit (e_cntl t) 0" "\<not> bit (i_cntl t) 2" "i < length (idescs t)" for f and t :: "'h dma"
    using tick_stopped_in [of t] tick_stopped_out [of t] that by (simp add: write_idesc_def Let_def w_def quiet_def)
  let ?f1 = "\<lambda>d. d\<lparr>d_next := next_link (idesc h) n i\<rparr>" and ?f2 = "\<lambda>d. d\<lparr>d_buff := axi_addr (ipkts h) i\<rparr>"
    and ?f3 = "\<lambda>d. d\<lparr>d_sts := 0x80000000\<rparr>"
  define s1 where "s1 = w ?f1 s"
  define s2 where "s2 = w ?f2 s1"
  define s3 where "s3 = w ?f3 s2"
  have 1: "write_idesc tick i ?f1 s = Inr s1" "\<not> bit (i_cntl s1) 0" "\<not> bit (e_cntl s1) 0" "quiet s s1" "edescs s1 = edescs s"
    "idescs s1 = (idescs s)[i := ?f1 (idescs s ! i)]"
    using w [of s ?f1] Suc.prems(1-3) il unfolding s1_def by blast+
  have 2: "write_idesc tick i ?f2 s1 = Inr s2" "\<not> bit (i_cntl s2) 0" "\<not> bit (e_cntl s2) 0" "quiet s1 s2" "edescs s2 = edescs s1"
    "idescs s2 = (idescs s1)[i := ?f2 (idescs s1 ! i)]"
    using w [of s1 ?f2] 1 il unfolding s2_def by (simp_all add: quiet_def)
  have 3: "write_idesc tick i ?f3 s2 = Inr s3" "\<not> bit (i_cntl s3) 0" "\<not> bit (e_cntl s3) 0" "quiet s2 s3" "edescs s3 = edescs s2"
    "idescs s3 = (idescs s2)[i := ?f3 (idescs s2 ! i)]"
    using w [of s2 ?f3] 1 2 il unfolding s3_def by (simp_all add: quiet_def)
  have l3: "length (idescs s3) = length (idescs s)" using 1(6) 2(6) 3(6) by simp
  have sts: "d_sts (idescs s3 ! j) = (if j = i then 0x80000000 else d_sts (idescs s ! j))" if "j < length (idescs s)" for j
    using that il unfolding 3(6) 2(6) 1(6) by (simp add: nth_list_update)
  have "Suc i + m \<le> length (idescs s3)" using Suc.prems(4) l3 by simp
  moreover have "\<not> bit (i_cntl s3) 2" using 3(4) by (simp add: quiet_def)
  ultimately have "\<not> bit (i_cntl s3) 2" "Suc i + m \<le> length (idescs s3)" by blast+
  from Suc.IH [OF this(1) 3(2,3) this(2)] obtain s' where
    "setup_ingress tick h n (Suc i) m s3 = Inr s'" "quiet s3 s'" "\<not> bit (i_cntl s') 0" "edescs s' = edescs s3"
    "length (idescs s') = length (idescs s3)"
    "\<forall>j < length (idescs s3). d_sts (idescs s' ! j) = (if Suc i \<le> j \<and> j < Suc i + m then 0x80000000 else d_sts (idescs s3 ! j))"
    by blast
  then show ?case
    using 1 2 3 l3 sts by (intro exI [of _ s']) (auto simp: quiet_def)
qed

lemma setup_egress_ok:
  assumes "idle_in s" "\<not> bit (e_cntl s) 0" "i + m \<le> length (edescs s)"
  shows "\<exists>s'. setup_egress tick h n i m s = Inr s' \<and> quiet s s' \<and> idle_in s' \<and>
    length (edescs s') = length (edescs s) \<and>
    (\<forall>j < length (edescs s). (i \<le> j \<and> j < i + m \<longrightarrow> d_sts (edescs s' ! j) = 0 \<and>
        d_buff (edescs s' ! j) = axi_addr (epkts h) j \<and> d_cntl (edescs s' ! j) = packet_cntl (packet_size (epkts h))) \<and>
      (j < i \<longrightarrow> edescs s' ! j = edescs s ! j))"
  using assms
proof (induction m arbitrary: i s)
  case 0
  then show ?case by (auto simp: quiet_def idle_in_def)
next
  case (Suc m)
  have il: "i < length (edescs s)" using Suc.prems(3) by simp
  define w where "w = (\<lambda>f (s :: 'h dma). (tick s)\<lparr>edescs := (edescs s)[i := f (edescs s ! i)]\<rparr>)"
  have w: "write_edesc tick i f t = Inr (w f t) \<and> idle_in (w f t) \<and> \<not> bit (e_cntl (w f t)) 0 \<and>
      quiet t (w f t) \<and> edescs (w f t) = (edescs t)[i := f (edescs t ! i)]"
    if "idle_in t" "\<not> bit (e_cntl t) 0" "i < length (edescs t)" for f and t :: "'h dma"
  proof -
    have "\<not> bit (i_cntl t) 2" using that(1) by (simp add: idle_in_def)
    from tick_idle [OF that(1)] tick_stopped_out [OF that(2) this] that
    show ?thesis by (simp add: write_edesc_def Let_def w_def quiet_def idle_in_def)
  qed
  let ?f1 = "\<lambda>d. clear_desc" and ?f2 = "\<lambda>d. d\<lparr>d_next := next_link (edesc h) n i\<rparr>"
    and ?f3 = "\<lambda>d. d\<lparr>d_buff := axi_addr (epkts h) i\<rparr>" and ?f4 = "\<lambda>d. d\<lparr>d_cntl := packet_cntl (packet_size (epkts h))\<rparr>"
  define s1 where "s1 = w ?f1 s"
  define s2 where "s2 = w ?f2 s1"
  define s3 where "s3 = w ?f3 s2"
  define s4 where "s4 = w ?f4 s3"
  have 1: "write_edesc tick i ?f1 s = Inr s1" "idle_in s1" "\<not> bit (e_cntl s1) 0" "quiet s s1"
    "edescs s1 = (edescs s)[i := clear_desc]"
    using w [of s ?f1] Suc.prems(1,2) il unfolding s1_def by blast+
  have 2: "write_edesc tick i ?f2 s1 = Inr s2" "idle_in s2" "\<not> bit (e_cntl s2) 0" "quiet s1 s2"
    "edescs s2 = (edescs s1)[i := ?f2 (edescs s1 ! i)]"
    using w [of s1 ?f2] 1 il unfolding s2_def by simp_all
  have 3: "write_edesc tick i ?f3 s2 = Inr s3" "idle_in s3" "\<not> bit (e_cntl s3) 0" "quiet s2 s3"
    "edescs s3 = (edescs s2)[i := ?f3 (edescs s2 ! i)]"
    using w [of s2 ?f3] 1 2 il unfolding s3_def by simp_all
  have 4: "write_edesc tick i ?f4 s3 = Inr s4" "idle_in s4" "\<not> bit (e_cntl s4) 0" "quiet s3 s4"
    "edescs s4 = (edescs s3)[i := ?f4 (edescs s3 ! i)]"
    using w [of s3 ?f4] 1 2 3 il unfolding s4_def by simp_all
  have e4: "edescs s4 = (edescs s)[i := ?f4 (?f3 (?f2 clear_desc))]"
    using il unfolding 4(5) 3(5) 2(5) 1(5) by simp
  have l4: "length (edescs s4) = length (edescs s)" unfolding e4 by simp
  then have "Suc i + m \<le> length (edescs s4)" using Suc.prems(3) by simp
  from Suc.IH [OF 4(2,3) this] obtain s' where IH:
    "setup_egress tick h n (Suc i) m s4 = Inr s'" "quiet s4 s'" "idle_in s'" "length (edescs s') = length (edescs s)"
    "\<And>j. j < length (edescs s) \<Longrightarrow> Suc i \<le> j \<Longrightarrow> j < Suc i + m \<Longrightarrow> d_sts (edescs s' ! j) = 0 \<and>
        d_buff (edescs s' ! j) = axi_addr (epkts h) j \<and> d_cntl (edescs s' ! j) = packet_cntl (packet_size (epkts h))"
    "\<And>j. j < length (edescs s) \<Longrightarrow> j < Suc i \<Longrightarrow> edescs s' ! j = edescs s4 ! j"
    unfolding l4 by blast
  have i: "edescs s' ! i = ?f4 (?f3 (?f2 clear_desc))" using IH(6) [OF il] il unfolding e4 by simp
  have "d_sts (edescs s' ! j) = 0 \<and> d_buff (edescs s' ! j) = axi_addr (epkts h) j \<and>
      d_cntl (edescs s' ! j) = packet_cntl (packet_size (epkts h))"
    if "j < length (edescs s)" "i \<le> j" "j < i + Suc m" for j
  proof (cases "j = i")
    case True
    then show ?thesis unfolding True i by (simp add: clear_desc_def)
  next
    case False
    then show ?thesis using that by (intro IH(5)) simp_all
  qed
  moreover have "edescs s' ! j = edescs s ! j" if "j < length (edescs s)" "j < i" for j
    using IH(6) [of j] that unfolding e4 by simp
  moreover have "quiet s s'" using 1(4) 2(4) 3(4) 4(4) IH(2) by (simp add: quiet_def)
  moreover have "setup_egress tick h n i (Suc m) s = Inr s'" by (simp add: 1(1) 2(1) 3(1) 4(1) IH(1))
  ultimately show ?case using IH(3,4) by blast
qed

section \<open>The whole setup\<close>

text \<open>The control words written: reset, run with the delay interrupt, run.\<close>

lemma cntl_bits:
  "bit (0x00010004 :: 32 word) 2" "\<not> bit (0x00010004 :: 32 word) 0"
  "\<not> bit (0x00014003 :: 32 word) 2"
  by (simp_all add: bit_iff_odd)

lemma setup_counts:
  assumes "laid_out phys h"
  shows "hsdp_count (idesc h) = 4" "hsdp_count (edesc h) = 4" "packet_size (epkts h) = 0x410"
    "axi_addr (epkts h) (k mod 4) = word_of_nat (phys + eslot k)"
proof -
  have e: "axi_base (epkts h) = phys + 0x1240" "packet_size (epkts h) = 0x410"
    "buffer_size (idesc h) = 0x100" "packet_size (idesc h) = 0x40" "buffer_size (edesc h) = 0x100" "packet_size (edesc h) = 0x40"
    using assms unfolding laid_out_def by (metis region.select_convs)+
  then show "hsdp_count (idesc h) = 4" "hsdp_count (edesc h) = 4" "packet_size (epkts h) = 0x410"
    "axi_addr (epkts h) (k mod 4) = word_of_nat (phys + eslot k)"
    by (simp_all add: hsdp_count_def axi_addr_def eslot_def add.assoc)
qed

text \<open>A configured pair of rings is the pair of empty queues.\<close>

lemma configured_rings:
  assumes "idle_in s" "window_ok s" "produced s = []" "laid_out (win_phys s) h" "length (edescs s) = 4"
    and "\<And>j. j < 4 \<Longrightarrow> d_sts (edescs s ! j) = 0 \<and> d_buff (edescs s ! j) = axi_addr (epkts h) j \<and>
           d_cntl (edescs s ! j) = packet_cntl (packet_size (epkts h))"
  shows "rings [] 0 s"
proof -
  have "d_sts (edescs s ! (k mod 4)) = 0" "d_buff (edescs s ! (k mod 4)) = word_of_nat (win_phys s + eslot k)"
    "d_cntl (edescs s ! (k mod 4)) = packet_cntl 0x410" for k
    using assms(6) [of "k mod 4"] mod4_le [of k] setup_counts(3,4) [OF assms(4)] by simp_all
  then have "ring_out 0 s" using assms(3,5,6) by (simp add: ring_out_def)
  then show ?thesis using assms(1,2) idle_in_ring [of s] by (simp add: rings_def)
qed

lemma rings_cur: "rings sent r (s\<lparr>e_cur := v\<rparr>) = rings sent r s" "rings sent r (s\<lparr>e_cntl := v\<rparr>) = rings sent r s"
  by (simp_all add: rings_def ring_in_def ring_out_def window_ok_def in_flight_def arrived_def)

lemma setup_spec:
  assumes "window_ok s" "length (idescs s) = 4" "length (edescs s) = 4" "laid_out (win_phys s) h"
  shows "hsdp_setup_dma tick h s = Inl Hang \<or>
    (\<exists>h' s'. hsdp_setup_dma tick h s = Inr (h', s') \<and> rings [] 0 s' \<and> host_ok (win_phys s') [] 0 h' \<and>
       win_phys s' = win_phys s)"
proof -
  define h1 where "h1 = h\<lparr>ipkts := (ipkts h)\<lparr>last_idx := - 1\<rparr>, epkts := (epkts h)\<lparr>last_idx := - 1\<rparr>,
                 idesc := (idesc h)\<lparr>last_idx := - 1\<rparr>, edesc := (edesc h)\<lparr>last_idx := - 1\<rparr>\<rparr>"
  have lo: "laid_out (win_phys s) h1"
    using assms(4) unfolding laid_out_def h1_def by (auto simp: region.update_convs) (metis region.update_convs(5))+
  have cnt: "hsdp_count (idesc h1) = 4" "hsdp_count (edesc h1) = 4" using setup_counts [OF lo] by simp_all
  define s1 where "s1 = (tick s)\<lparr>i_cntl := 0x00010004\<rparr>"
  have z1: "window_ok s1" "length (idescs s1) = 4" "length (edescs s1) = 4" "win_phys s1 = win_phys s"
    using hw_steps_sizes [OF tick [of s]] assms(1-3) by (simp_all add: s1_def window_ok_def)
  show ?thesis
  proof (cases "await_reset tick s1")
    case None
    then have "hsdp_setup_dma tick h s = Inl Hang"
      unfolding hsdp_setup_dma_def Let_def h1_def [symmetric] s1_def [symmetric] by (simp add: returned_def)
    then show ?thesis by blast
  next
    case (Some s2)
    note st2 = await_reset_steps [OF Some]
    define s2' where "s2' = tick s2"
    have z2: "window_ok s2'" "length (idescs s2') = 4" "length (edescs s2') = 4" "win_phys s2' = win_phys s"
      using hw_steps_sizes [OF st2] hw_steps_sizes [OF tick [of s2]] z1 by (simp_all add: s2'_def window_ok_def)
    have "bit (i_cntl s2) 2 = False" using await_reset_done [OF Some] by simp
    then have r2: "\<not> bit (i_cntl s2) 2" "\<not> bit (i_cntl s2) 0" "\<not> bit (e_cntl s2) 0" "consumed s2 = []" "produced s2 = []"
      using hw_steps_reset [OF st2] cntl_bits(1) by (simp_all add: s1_def)
    have r2': "\<not> bit (i_cntl s2') 2" "\<not> bit (i_cntl s2') 0" "\<not> bit (e_cntl s2') 0" "consumed s2' = []" "produced s2' = []"
      using tick_stopped_in [OF r2(2,1)] tick_stopped_out [OF r2(3,1)] r2(4,5) by (simp_all add: s2'_def)
    define s3 where "s3 = s2'\<lparr>idescs := replicate 4 clear_desc @ drop 4 (idescs s2')\<rparr>"
    have "\<exists>s'. setup_ingress tick h1 4 0 4 s3 = Inr s' \<and> quiet s3 s' \<and> \<not> bit (i_cntl s') 0 \<and> edescs s' = edescs s3 \<and>
        length (idescs s') = length (idescs s3) \<and>
        (\<forall>j < length (idescs s3). d_sts (idescs s' ! j) = (if 0 \<le> j \<and> j < 0 + 4 then 0x80000000 else d_sts (idescs s3 ! j)))"
      by (rule setup_ingress_ok) (simp_all add: s3_def r2' z2)
    then obtain s4 where s4: "setup_ingress tick h1 4 0 4 s3 = Inr s4" "quiet s3 s4" "\<not> bit (i_cntl s4) 0" "edescs s4 = edescs s3"
      "length (idescs s4) = 4" "\<And>j. j < 4 \<Longrightarrow> d_sts (idescs s4 ! j) = 0x80000000"
      using z2(2) by (auto simp: s3_def)
    have q4: "\<not> bit (i_cntl s4) 2" "\<not> bit (e_cntl s4) 0" "produced s4 = []" "consumed s4 = []" "win_phys s4 = win_phys s"
      "window s4 = window s2'"
      using s4(2) r2' z2(4) by (simp_all add: quiet_def s3_def)
    have i4: "idle_in s4"
      using q4 s4(5,6) done_status(1) [of 0] by (simp add: idle_in_def)
    define s5 where "s5 = (tick s4)\<lparr>i_cur := axi_addr (idesc h1) 0\<rparr>"
    note t4 = tick_idle [OF i4] tick_stopped_out [OF q4(2,1)]
    have i5: "idle_in s5" "\<not> bit (e_cntl s5) 0" "\<not> bit (i_cntl s5) 2" "produced s5 = []" "length (edescs s5) = 4" "win_phys s5 = win_phys s"
      "window_ok s5"
      using t4 q4 s4(4) z2 by (simp_all add: s5_def idle_in_def s3_def window_ok_def)
    define s6 where "s6 = (tick s5)\<lparr>i_cntl := 0x00014003\<rparr>"
    note t5 = tick_idle [OF i5(1)] tick_stopped_out [OF i5(2,3)]
    have i6: "idle_in s6" "\<not> bit (e_cntl s6) 0" "produced s6 = []" "length (edescs s6) = 4" "win_phys s6 = win_phys s" "window_ok s6"
      using t5 i5 cntl_bits(3) by (simp_all add: s6_def idle_in_def window_ok_def)
    have "0 + 4 \<le> length (edescs s6)" using i6(4) by simp
    then obtain s7 where s7: "setup_egress tick h1 4 0 4 s6 = Inr s7" "quiet s6 s7" "idle_in s7" "length (edescs s7) = length (edescs s6)"
      "\<And>j. j < 4 \<Longrightarrow> d_sts (edescs s7 ! j) = 0 \<and> d_buff (edescs s7 ! j) = axi_addr (epkts h1) j \<and>
           d_cntl (edescs s7 ! j) = packet_cntl (packet_size (epkts h1))"
      using setup_egress_ok [OF i6(1,2), of 0 4 h1 4] i6(4) by auto
    have r7: "rings [] 0 s7"
      by (rule configured_rings [where h = h1])
        (use s7(2-5) i6 lo in \<open>simp_all add: quiet_def window_ok_def\<close>)
    have p7: "win_phys s7 = win_phys s" using s7(2) i6(5) by (simp add: quiet_def)
    define s8 where "s8 = (tick s7)\<lparr>e_cur := axi_addr (edesc h1) 0\<rparr>"
    define s9 where "s9 = (tick s8)\<lparr>e_cntl := 0x00010003\<rparr>"
    have r9: "rings [] 0 s9" "win_phys s9 = win_phys s"
      using tick_rings [OF r7] p7 by (simp_all add: s9_def s8_def rings_cur tick_rings)
    define h2 where "h2 = h1\<lparr>edesc := (edesc h1)\<lparr>last_idx := 3\<rparr>\<rparr>"
    have "ensure (4 \<le> length (idescs s2')) Out_of_bounds = Inr ()" using z2(2) by (simp add: ensure_def)
    then have run: "hsdp_setup_dma tick h s =
        and_then (returned (await_egress tick s9)) (\<lambda>s10. Inr (h2, (tick s10)\<lparr>e_tail := axi_addr (edesc h2) 3\<rparr>))"
      unfolding hsdp_setup_dma_def Let_def h1_def [symmetric] s1_def [symmetric] Some cnt returned_def option.case and_then_simps
        s2'_def [symmetric] s3_def [symmetric] s4(1) s5_def [symmetric] s6_def [symmetric] s7(1) s8_def [symmetric] s9_def [symmetric]
      by (simp add: h2_def)
    show ?thesis
    proof (cases "await_egress tick s9")
      case None
      then show ?thesis by (simp add: run returned_def)
    next
      case (Some s10)
      have r10: "rings [] 0 s10" "win_phys s10 = win_phys s"
        using hw_steps_rings [OF await_egress_steps [OF Some]] hw_steps_extends [OF await_egress_steps [OF Some]] r9
        by (simp_all add: extends_def)
      define s11 where "s11 = (tick s10)\<lparr>e_tail := axi_addr (edesc h2) 3\<rparr>"
      have "rings [] 0 s11" "win_phys s11 = win_phys s"
        using tick_rings [OF r10(1)] r10(2) by (simp_all add: s11_def rings_tail)
      moreover have "host_ok (win_phys s) [] 0 h2"
      proof -
        have "idesc h1 = \<lparr>axi_base = win_phys s, offset = 0, buffer_size = 0x100, packet_size = 0x40, last_idx = - 1\<rparr>"
          "edesc h1 = \<lparr>axi_base = win_phys s + 0x100, offset = 0x100, buffer_size = 0x100, packet_size = 0x40, last_idx = - 1\<rparr>"
          using lo unfolding laid_out_def by (simp_all add: h1_def)
        then show ?thesis
          using lo by (simp add: host_ok_def h2_def laid_out_def hsdp_next_def)
      qed
      ultimately show ?thesis unfolding run Some by (simp add: returned_def s11_def [symmetric])
    qed
  qed
qed

end

end
