(* ===== verification/Dpc_Lib.thy ===== *)
theory Dpc_Lib
  imports Dpc_Setup Mem_Server
begin

unbundle bit_operations_syntax

text \<open>
  \<open>dpc/src/hsdp_lib.c\<close>, which maps the DMA registers and the packet memory and lays the rings out in
  it, and the callbacks of \<open>dpc/src/xvc_dpc.c\<close>. What the operating system answers is data
  (\<open>dpc_os\<close>), and so is what lies behind the two mappings (\<open>shown\<close>). Messages and the descriptor of
  \<open>/dev/mem\<close>, which is closed again, are left out.
\<close>

section \<open>State\<close>

record loc_buffer =
  physical :: "64 word"
  lb_size :: "64 word"

text \<open>
  The static variables. \<open>mmap_buffers\<close> are the first \<open>mmap_buffer_count\<close> entries of the array; \<open>dma\<close>
  and \<open>data_buffer\<close> point into it.
\<close>

record hsdp_lib =
  dma_phys_addr :: "64 word"
  dma_size :: "64 word"
  buffer_phys_addr :: "64 word"
  data_size :: "64 word"              \<comment> \<open>\<open>buffer_size\<close>\<close>
  mmap_buffers :: "loc_buffer list"
  dma_buffer :: "nat option"          \<comment> \<open>\<open>dma\<close>\<close>
  data_buffer :: "nat option"

definition hsdp_lib0 :: hsdp_lib where
  "hsdp_lib0 = \<lparr>dma_phys_addr = 0xA4000000, dma_size = 0x1000, buffer_phys_addr = 0x7FF00000, data_size = 0x40000,
     mmap_buffers = [], dma_buffer = None, data_buffer = None\<rparr>"

record dpc_os =
  devmem_opens :: bool
  maps :: "64 word \<Rightarrow> 64 word \<Rightarrow> bool"
  allocates :: bool

type_synonym 'h shown = "loc_buffer \<Rightarrow> loc_buffer \<Rightarrow> 'h dma"

section \<open>Mapping\<close>

definition max_mmap_buffers :: nat where "max_mmap_buffers = 2"

definition mmap_buffer :: "dpc_os \<Rightarrow> 64 word \<Rightarrow> 64 word \<Rightarrow> hsdp_lib \<Rightarrow> (nat \<times> hsdp_lib) res" where
  "mmap_buffer os address num_bytes l =
     and_then (ensure (length (mmap_buffers l) < max_mmap_buffers) Assert_failed) (\<lambda>_.
       if \<not> maps os address num_bytes then Inl (Exit 1)
       else Inr (length (mmap_buffers l),
                 l\<lparr>mmap_buffers := mmap_buffers l @ [\<lparr>physical = address, lb_size = num_bytes\<rparr>]\<rparr>))"

definition free_buffers :: "hsdp_lib \<Rightarrow> hsdp_lib" where
  "free_buffers l = l\<lparr>mmap_buffers := []\<rparr>"

definition alloc_buffers :: "dpc_os \<Rightarrow> hsdp_lib \<Rightarrow> hsdp_lib res" where
  "alloc_buffers os l =
     (if \<not> devmem_opens os then Inl (Exit 1)
      else
        and_then (mmap_buffer os (dma_phys_addr l) (dma_size l) l) (\<lambda>(i, l1).
        let l2 = l1\<lparr>dma_buffer := Some i\<rparr> in
        and_then (mmap_buffer os (buffer_phys_addr l2) (data_size l2) l2) (\<lambda>(j, l3).
          Inr (l3\<lparr>data_buffer := Some j\<rparr>))))"

definition pointee :: "hsdp_lib \<Rightarrow> nat option \<Rightarrow> loc_buffer res" where
  "pointee l p =
     (case p of None \<Rightarrow> Inl Out_of_bounds
      | Some i \<Rightarrow> if i < length (mmap_buffers l) then Inr (mmap_buffers l ! i) else Inl Out_of_bounds)"

section \<open>The layout of the rings\<close>

definition max_egress_packets :: nat where "max_egress_packets = 4"
definition dma_desc_size :: nat where "dma_desc_size = 0x40"
definition dma_packet_buff_size_default :: nat where "dma_packet_buff_size_default = 0x410"

definition hsdp_regions :: "loc_buffer \<Rightarrow> hsdp_dma \<Rightarrow> hsdp_dma" where
  "hsdp_regions d h =
     (let desc_count = max_egress_packets;
          ids = desc_count * dma_desc_size;
          packet_buffer_offset = ids * 2;
          ips = desc_count * dma_packet_buff_size_default
      in h\<lparr>idesc := (idesc h)\<lparr>buffer_size := ids, offset := 0, axi_base := unat (physical d), packet_size := dma_desc_size\<rparr>,
           edesc := (edesc h)\<lparr>buffer_size := ids, offset := ids, axi_base := unat (physical d + word_of_nat ids),
                              packet_size := dma_desc_size\<rparr>,
           ipkts := (ipkts h)\<lparr>buffer_size := ips, offset := packet_buffer_offset,
                              axi_base := unat (physical d + word_of_nat packet_buffer_offset),
                              packet_size := dma_packet_buff_size_default\<rparr>,
           epkts := (epkts h)\<lparr>buffer_size := ips, offset := packet_buffer_offset + ips,
                              axi_base := unat (physical d + word_of_nat (packet_buffer_offset + ips)),
                              packet_size := dma_packet_buff_size_default\<rparr>\<rparr>)"

definition hsdp_setup :: "'h tick \<Rightarrow> hsdp_lib \<Rightarrow> hsdp_dma \<Rightarrow> 'h dma \<Rightarrow> (hsdp_dma \<times> 'h dma) res" where
  "hsdp_setup tick l h s =
     and_then (pointee l (data_buffer l)) (\<lambda>d. hsdp_enable tick (hsdp_regions d h) s)"

definition setup_dma_region :: "64 word \<Rightarrow> 64 word \<Rightarrow> hsdp_lib \<Rightarrow> hsdp_lib" where
  "setup_dma_region addr n l =
     (let l1 = l\<lparr>dma_phys_addr := addr\<rparr> in if n \<noteq> 0 then l1\<lparr>dma_size := n\<rparr> else l1)"

definition setup_buffer_region :: "64 word \<Rightarrow> 64 word \<Rightarrow> hsdp_lib \<Rightarrow> hsdp_lib" where
  "setup_buffer_region addr n l =
     (let l1 = l\<lparr>buffer_phys_addr := addr\<rparr> in if n \<noteq> 0 then l1\<lparr>data_size := n\<rparr> else l1)"

definition region0 :: region where
  "region0 = \<lparr>axi_base = 0, offset = 0, buffer_size = 0, packet_size = 0, last_idx = 0\<rparr>"

definition hsdp0 :: hsdp_dma where \<comment> \<open>after \<open>memset\<close>\<close>
  "hsdp0 = \<lparr>ipkts = region0, epkts = region0, idesc = region0, edesc = region0\<rparr>"

definition hsdp_open ::
    "'h tick \<Rightarrow> dpc_os \<Rightarrow> 'h shown \<Rightarrow> hsdp_lib \<Rightarrow> 'h dma \<Rightarrow> (hsdp_dma \<times> hsdp_lib \<times> 'h dma) res" where
  "hsdp_open tick os shown l s =
     and_then
       (if mmap_buffers l = [] then
          and_then (alloc_buffers os l) (\<lambda>l1.
          and_then (pointee l1 (dma_buffer l1)) (\<lambda>a.
          and_then (pointee l1 (data_buffer l1)) (\<lambda>b. Inr (l1, shown a b))))
        else Inr (l, s)) (\<lambda>(l1, s1).
     and_then (ensure (allocates os) Out_of_bounds) (\<lambda>_. \<comment> \<open>\<open>memset\<close> of a null pointer\<close>
     and_then (pointee l1 (dma_buffer l1)) (\<lambda>_.
     and_then (hsdp_setup tick l1 hsdp0 s1) (\<lambda>(h, s2). Inr (h, l1, s2)))))"

text \<open>The handle is a pointer; a null handle unmaps the memory.\<close>

definition hsdp_close :: "bool \<Rightarrow> hsdp_lib \<Rightarrow> int \<times> hsdp_lib" where
  "hsdp_close null l = (0, if null then free_buffers l else l)"

section \<open>Callbacks\<close>

record mem_region =
  r_addr :: "64 word"
  r_size :: "64 word"

record 'h xvc_dpc =
  hsdp :: hsdp_dma
  dma_region :: mem_region      \<comment> \<open>\<open>dma\<close>\<close>
  buf_region :: mem_region      \<comment> \<open>\<open>buf\<close>\<close>
  lib :: hsdp_lib
  mem :: "'h dma"

definition dpc_open_port ::
    "'h tick \<Rightarrow> dpc_os \<Rightarrow> 'h shown \<Rightarrow> 'h xvc_dpc \<Rightarrow> (int \<times> 'h xvc_dpc \<times> err) res" where
  "dpc_open_port tick os shown x =
     (let l1 = setup_dma_region (r_addr (dma_region x)) (r_size (dma_region x)) (lib x);
          l2 = setup_buffer_region (r_addr (buf_region x)) (r_size (buf_region x)) l1
      in and_then (hsdp_open tick os shown l2 (mem x)) (\<lambda>(h, l3, s).
           Inr (0, x\<lparr>hsdp := h, lib := l3, mem := s\<rparr>, None)))"

definition dpc_close_port :: "'h xvc_dpc \<Rightarrow> 'h xvc_dpc" where
  "dpc_close_port x = x\<lparr>lib := snd (hsdp_close False (lib x))\<rparr>"

definition max_packet_size :: nat where "max_packet_size = 1032"

definition err_too_large :: "64 word \<Rightarrow> byte list" where
  "err_too_large num_words =
     bytes_of ''Size of ingress packet ('' @ fmt_u (unat num_words) @
     bytes_of '' words) greater than allowed max packet size of '' @ fmt_u (max_packet_size div 4) @
     bytes_of '' words'' @ [0x0A]"

definition err_ingress :: "int \<Rightarrow> byte list" where
  "err_ingress ret = bytes_of ''Ingress of DPC packet failed. Return value = '' @ fmt_d ret @ [0x0A]"

definition idpc :: "'h tick \<Rightarrow> 'h xvc_dpc \<Rightarrow> 32 word \<Rightarrow> 64 word \<Rightarrow> byte list \<Rightarrow> ('h xvc_dpc \<times> err) res" where
  "idpc tick x flags num_words buf =
     (if max_packet_size \<le> unat num_words then Inr (x, Some (err_too_large num_words))
      else
        and_then (hsdp_send_packet tick (hsdp x) (mem x) buf (unat num_words)) (\<lambda>(ret, h, s).
          Inr (x\<lparr>hsdp := h, mem := s\<rparr>, if ret \<noteq> 0 then Some (err_ingress ret) else None)))"

text \<open>The results are \<open>*num_words\<close> and, if it is set, \<open>*buf\<close>, a place in the memory window.\<close>

definition edpc :: "'h tick \<Rightarrow> 'h xvc_dpc \<Rightarrow> 32 word \<Rightarrow> (64 word \<times> int option \<times> 'h xvc_dpc \<times> err) res" where
  "edpc tick x flags =
     and_then (hsdp_receive_fast_packet tick (hsdp x) (mem x)) (\<lambda>(_, p, h, s).
       let x' = x\<lparr>hsdp := h, mem := s\<rparr> in
       if p_words p = 0 then Inr (0, None, x', None)
       else Inr (word_of_nat (p_words p), p_buf p, x', None))"

text \<open>\<open>memcpy\<close> from a pointer into the window.\<close>

definition copy_out :: "'h tick \<Rightarrow> 'h xvc_dpc \<Rightarrow> int \<Rightarrow> nat \<Rightarrow> (byte list \<times> 'h xvc_dpc) res" where
  "copy_out tick x p n =
     (if p < 0 then Inl Out_of_bounds
      else and_then (read_window tick (nat p) n (mem x)) (\<lambda>(bs, s). Inr (bs, x\<lparr>mem := s\<rparr>)))"

section \<open>Opening the port\<close>

lemma regions_laid_out:
  assumes "unat (physical d) + 0x2280 \<le> 2 ^ 32"
  shows "laid_out (unat (physical d)) (hsdp_regions d h)"
proof -
  have "unat (physical d + word_of_nat k) = unat (physical d) + k" if "k \<le> 0x2280" for k
  proof -
    have "unat (word_of_nat k :: 64 word) = k" using that by (simp add: unat_word_of_nat_64)
    then show ?thesis using assms that by (subst unat_add_lem [THEN iffD1]) simp_all
  qed
  from this [of "0x100"] this [of "0x200"] this [of "0x1240"] show ?thesis
    by (simp add: laid_out_def hsdp_regions_def Let_def max_egress_packets_def dma_desc_size_def
        dma_packet_buff_size_default_def)
qed

text \<open>What is mapped: the memory at the buffer's address, large enough for the rings.\<close>

definition shows_rings :: "64 word \<Rightarrow> 'h dma \<Rightarrow> bool" where
  "shows_rings b s \<longleftrightarrow> win_phys s = unat b \<and> window_ok s \<and> length (idescs s) = 4 \<and> length (edescs s) = 4"

text \<open>The two regions that the options ask for.\<close>

definition dma_config :: "'h xvc_dpc \<Rightarrow> loc_buffer" where
  "dma_config x = \<lparr>physical = r_addr (dma_region x),
     lb_size = if r_size (dma_region x) \<noteq> 0 then r_size (dma_region x) else dma_size (lib x)\<rparr>"

definition buf_config :: "'h xvc_dpc \<Rightarrow> loc_buffer" where
  "buf_config x = \<lparr>physical = r_addr (buf_region x),
     lb_size = if r_size (buf_region x) \<noteq> 0 then r_size (buf_region x) else data_size (lib x)\<rparr>"

definition memory_shown :: "'h shown \<Rightarrow> 'h xvc_dpc \<Rightarrow> bool" where
  "memory_shown shown x \<longleftrightarrow> shows_rings (physical (buf_config x)) (shown (dma_config x) (buf_config x))"

text \<open>Between connections: nothing is mapped yet, or both mappings are and stay.\<close>

definition port_closed :: "'h xvc_dpc \<Rightarrow> bool" where
  "port_closed x \<longleftrightarrow>
     mmap_buffers (lib x) = [] \<or>
     (\<exists>a b. mmap_buffers (lib x) = [a, b] \<and> dma_buffer (lib x) = Some 0 \<and> data_buffer (lib x) = Some 1 \<and>
       shows_rings (physical b) (mem x))"

definition port_open :: "byte list list \<Rightarrow> nat \<Rightarrow> 'h xvc_dpc \<Rightarrow> bool" where
  "port_open sent rcvd x \<longleftrightarrow>
     rings sent rcvd (mem x) \<and> host_ok (win_phys (mem x)) sent rcvd (hsdp x) \<and>
     (\<exists>a b. mmap_buffers (lib x) = [a, b] \<and> dma_buffer (lib x) = Some 0 \<and> data_buffer (lib x) = Some 1 \<and>
       physical b = word_of_nat (win_phys (mem x)))"

lemma rings_shown:
  assumes "rings sent r s"
  shows "shows_rings (word_of_nat (win_phys s)) s"
proof -
  have "win_phys s < 2 ^ 64" using assms by (simp add: rings_def window_ok_def)
  then show ?thesis using assms by (simp add: shows_rings_def rings_def ring_in_def ring_out_def unat_word_of_nat_64)
qed

lemma port_open_closed: "port_open sent r x \<Longrightarrow> port_closed (dpc_close_port x)"
  by (auto simp: port_open_def port_closed_def dpc_close_port_def hsdp_close_def intro: rings_shown)

text \<open>Why a port does not open.\<close>

definition grants :: "dpc_os \<Rightarrow> 'h xvc_dpc \<Rightarrow> bool" where
  "grants os x \<longleftrightarrow> devmem_opens os \<and> maps os (physical (dma_config x)) (lb_size (dma_config x)) \<and>
     maps os (physical (buf_config x)) (lb_size (buf_config x))"

definition open_fault :: "'h tick \<Rightarrow> dpc_os \<Rightarrow> 'h xvc_dpc \<Rightarrow> fault \<Rightarrow> bool" where
  "open_fault tick os x f \<longleftrightarrow>
     f = Exit 1 \<and> \<not> grants os x \<or> f = Out_of_bounds \<and> \<not> allocates os \<or>
     f = Hang \<and> (\<exists>h s. hsdp_setup_dma tick h s = Inl Hang)"

context dma_engine
begin

lemma setup_shown:
  assumes "shows_rings (physical d) s"
  shows "hsdp_enable tick (hsdp_regions d h) s = Inl Hang \<or>
    (\<exists>h' s'. hsdp_enable tick (hsdp_regions d h) s = Inr (h', s') \<and> rings [] 0 s' \<and> host_ok (win_phys s) [] 0 h' \<and>
       win_phys s' = win_phys s)"
proof -
  have w: "window_ok s" "win_phys s = unat (physical d)" "length (idescs s) = 4" "length (edescs s) = 4"
    using assms by (simp_all add: shows_rings_def)
  then have "laid_out (win_phys s) (hsdp_regions d h)" using regions_laid_out [of d h] by (simp add: window_ok_def)
  from setup_spec [OF w(1,3,4) this] show ?thesis unfolding hsdp_enable_def by auto
qed

text \<open>
  The port opens with both queues empty, whatever the memory and the queues of the connection before
  were; or the program exits, or waits for the engine.
\<close>

lemma open_mapped:
  assumes "mmap_buffers l = [a, b]" "dma_buffer l = Some 0" "data_buffer l = Some 1" "shows_rings (physical b) s"
  shows "hsdp_setup tick l hsdp0 s = Inl Hang \<and> (\<exists>h t. hsdp_setup_dma tick h t = Inl Hang) \<or>
    (\<exists>h s'. hsdp_setup tick l hsdp0 s = Inr (h, s') \<and> rings [] 0 s' \<and> host_ok (win_phys s) [] 0 h \<and> win_phys s' = win_phys s)"
  using setup_shown [OF assms(4), of hsdp0] assms(1,3) by (auto simp: hsdp_setup_def pointee_def hsdp_enable_def)

lemma open_port_spec:
  assumes "port_closed x" "memory_shown shown x"
  shows "(\<exists>f. dpc_open_port tick os shown x = Inl f \<and> open_fault tick os x f) \<or>
    (\<exists>x'. dpc_open_port tick os shown x = Inr (0, x', None) \<and> port_open [] 0 x')"
proof -
  define l where "l = setup_buffer_region (r_addr (buf_region x)) (r_size (buf_region x))
      (setup_dma_region (r_addr (dma_region x)) (r_size (dma_region x)) (lib x))"
  have l: "mmap_buffers l = mmap_buffers (lib x)" "dma_buffer l = dma_buffer (lib x)" "data_buffer l = data_buffer (lib x)"
    by (simp_all add: l_def setup_buffer_region_def setup_dma_region_def Let_def)
  have c: "\<lparr>physical = dma_phys_addr l, lb_size = dma_size l\<rparr> = dma_config x"
    "\<lparr>physical = buffer_phys_addr l, lb_size = data_size l\<rparr> = buf_config x"
    by (simp_all add: l_def setup_buffer_region_def setup_dma_region_def Let_def dma_config_def buf_config_def)
  have op: "dpc_open_port tick os shown x = and_then (hsdp_open tick os shown l (mem x)) (\<lambda>(h, l3, s).
      Inr (0, x\<lparr>hsdp := h, lib := l3, mem := s\<rparr>, None))"
    by (simp add: dpc_open_port_def l_def)
  have ready: "(\<exists>f. dpc_open_port tick os shown x = Inl f \<and> open_fault tick os x f) \<or>
      (\<exists>x'. dpc_open_port tick os shown x = Inr (0, x', None) \<and> port_open [] 0 x')"
    if lb: "mmap_buffers l1 = [a, b]" "dma_buffer l1 = Some 0" "data_buffer l1 = Some 1" "shows_rings (physical b) s"
      and e: "hsdp_open tick os shown l (mem x) = and_then (ensure (allocates os) Out_of_bounds) (\<lambda>_.
         and_then (pointee l1 (dma_buffer l1)) (\<lambda>_. and_then (hsdp_setup tick l1 hsdp0 s) (\<lambda>(h, s2). Inr (h, l1, s2))))"
    for l1 a b s
  proof -
    have p: "pointee l1 (dma_buffer l1) = Inr a" using lb by (simp add: pointee_def)
    have ph: "physical b = word_of_nat (win_phys s)" using lb(4) by (simp add: shows_rings_def)
    from open_mapped [OF lb] show ?thesis
      unfolding op e p by (cases "allocates os") (auto simp: ensure_def port_open_def open_fault_def lb ph)
  qed
  from assms(1) consider (fresh) "mmap_buffers l = []"
    | (mapped) a b where "mmap_buffers l = [a, b]" "dma_buffer l = Some 0" "data_buffer l = Some 1" "shows_rings (physical b) (mem x)"
    unfolding port_closed_def l by blast
  then show ?thesis
  proof cases
    case mapped
    then show ?thesis by (intro ready [of l a b "mem x"]) (simp_all add: hsdp_open_def)
  next
    case fresh
    let ?l1 = "l\<lparr>mmap_buffers := [dma_config x, buf_config x], dma_buffer := Some 0, data_buffer := Some 1\<rparr>"
    show ?thesis
    proof (cases "devmem_opens os \<and> maps os (dma_phys_addr l) (dma_size l) \<and> maps os (buffer_phys_addr l) (data_size l)")
      case True
      then have "alloc_buffers os l = Inr ?l1"
        using fresh by (simp add: alloc_buffers_def mmap_buffer_def max_mmap_buffers_def Let_def flip: c)
      then show ?thesis
        using fresh by (intro ready [of ?l1 "dma_config x" "buf_config x" "shown (dma_config x) (buf_config x)"])
          (simp_all add: hsdp_open_def pointee_def assms(2) [unfolded memory_shown_def])
    next
      case False
      then have "alloc_buffers os l = Inl (Exit 1)"
        using fresh by (auto simp: alloc_buffers_def mmap_buffer_def max_mmap_buffers_def Let_def)
      then show ?thesis using fresh False by (simp add: op hsdp_open_def open_fault_def grants_def flip: c)
    qed
  qed
qed

section \<open>Packets through an open port\<close>

lemma idpc_spec:
  assumes "port_open sent r x" "unat wc \<le> 260" "4 * unat wc \<le> length buf"
  shows "\<exists>x' e sent'. idpc tick x fl wc buf = Inr (x', e) \<and> port_open sent' r x' \<and> extends (mem x) (mem x') \<and>
    sent' = (if e = None then sent @ [take (4 * unat wc) buf] else sent) \<and>
    (length sent < length (consumed (mem x)) + 4 \<longrightarrow> e = None)"
proof -
  have p: "rings sent r (mem x)" "host_ok (win_phys (mem x)) sent r (hsdp x)" using assms(1) by (simp_all add: port_open_def)
  from send_spec [OF p assms(2,3)] obtain rv h s sent' where
    e: "hsdp_send_packet tick (hsdp x) (mem x) buf (unat wc) = Inr (rv, h, s)"
    and q: "rings sent' r s" "host_ok (win_phys s) sent' r h" "extends (mem x) s"
      "sent' = (if rv = 0 then sent @ [take (4 * unat wc) buf] else sent)"
      "length sent < length (consumed (mem x)) + 4 \<longrightarrow> rv = 0"
    by blast
  have "win_phys s = win_phys (mem x)" using q(3) by (simp add: extends_def)
  moreover have "\<not> max_packet_size \<le> unat wc" using assms(2) by (simp add: max_packet_size_def)
  ultimately show ?thesis
    using assms(1) e q by (auto simp: idpc_def port_open_def)
qed

lemma edpc_spec:
  assumes "port_open sent r x"
  shows "(\<exists>x'. edpc tick x fl = Inr (0, None, x', None) \<and> port_open sent r x' \<and> extends (mem x) (mem x') \<and>
      \<not> r < length (produced (mem x'))) \<or>
    (\<exists>wc x'. edpc tick x fl = Inr (wc, Some (int (eslot r)), x', None) \<and> port_open sent (Suc r) x' \<and>
      extends (mem x) (mem x') \<and> wc \<noteq> 0 \<and> 4 * unat wc = length (produced (mem x') ! r) \<and> readable r (produced (mem x') ! r) (mem x'))"
proof -
  have p: "rings sent r (mem x)" "host_ok (win_phys (mem x)) sent r (hsdp x)" using assms by (simp_all add: port_open_def)
  show ?thesis
  proof (cases "r < length (produced (tick (mem x)))")
    case False
    then show ?thesis
      using assms tick_rings [OF p(1)] tick_extends [of "mem x"]
      by (simp add: edpc_def hsdp_receive_fast_packet_def poll_empty [OF p] port_open_def)
  next
    case True
    from poll_arrived [OF p True] obtain q h s where
      e: "hsdp_poll_fast_packet tick (hsdp x) (mem x) = Inr (q, h, s)"
      and f: "extends (mem x) s" "p_buf q = Some (int (eslot r))" "4 * p_words q = length (produced s ! r)" "0 < p_words q"
        "rings sent (Suc r) s" "host_ok (win_phys s) sent (Suc r) h" "readable r (produced s ! r) s"
      by blast
    have "p_words q \<le> 260" using f(3,7) by (simp add: readable_def)
    then have "unat (word_of_nat (p_words q) :: 64 word) = p_words q" by (intro unat_word_of_nat_64) simp
    moreover from this f(4) have "word_of_nat (p_words q) \<noteq> (0 :: 64 word)" by (metis unat_0 not_less_zero)
    moreover have "win_phys s = win_phys (mem x)" using f(1) by (simp add: extends_def)
    ultimately show ?thesis
      using assms e f by (auto simp: edpc_def hsdp_receive_fast_packet_def port_open_def)
  qed
qed

lemma copy_out_spec:
  assumes "port_open sent (Suc r) x" "readable r q (mem x)" "n = length q"
  shows "\<exists>bs x'. copy_out tick x (int (eslot r)) n = Inr (bs, x') \<and> port_open sent (Suc r) x' \<and> extends (mem x) (mem x') \<and>
    readable r q (mem x') \<and> (length (produced (mem x')) \<le> r + 4 \<longrightarrow> bs = q)"
proof -
  let ?s = "tick (mem x)"
  have p: "rings sent (Suc r) (mem x)" using assms(1) by (simp add: port_open_def)
  have rd: "readable r q ?s" using tick_readable [OF p assms(2)] .
  have t: "rings sent (Suc r) ?s" using tick_rings [OF p] .
  have n: "n \<le> 0x410" "eslot r + n \<le> length (window ?s)"
    using rd t eslot_le [of r] assms(3) by (simp_all add: readable_def rings_def window_ok_def)
  have "read_range (window ?s) (eslot r) n = Inr (take n (drop (eslot r) (window ?s)))" using n(2) by (simp add: read_range_def)
  then have e: "copy_out tick x (int (eslot r)) n = Inr (take n (drop (eslot r) (window ?s)), x\<lparr>mem := ?s\<rparr>)"
    by (simp add: copy_out_def read_window_def Let_def)
  have "take n (drop (eslot r) (window ?s)) = q" if "length (produced ?s) \<le> r + 4"
  proof -
    have "bytes_at (window ?s) (eslot r) q" using rd that by (simp add: readable_def)
    from read_range_bytes [OF this] assms(3) \<open>read_range (window ?s) (eslot r) n = _\<close> show ?thesis by simp
  qed
  then show ?thesis
    unfolding e using assms(1) t rd tick_extends [of "mem x"] by (auto simp: port_open_def)
qed

end

end
