(* ===== verification/Dpc_Server.thy ===== *)
theory Dpc_Server
  imports Mem_Start Dpc_Lib
begin

unbundle bit_operations_syntax

text \<open>
  The protocol engine of \<open>dpc/src/xvcserver.c\<close>. It is a revision of the engine of \<open>mem/versal\<close>: the number
  reader, the reply buffer, \<open>configure:\<close>'s parser, the url and the listening socket are the same code and
  the same definitions here; the commands, the table of callbacks, the loops and the status are its own. Its
  client record has no field \<open>locked\<close>, which nothing here reads or writes.
\<close>

section \<open>Callbacks\<close>

text \<open>\<open>k_memory\<close> is what \<open>memcpy\<close> reads through a pointer that \<open>edpc\<close> returned; it is no field of the table.\<close>

record 'd dpc_table =
  k_open_port :: "'d \<Rightarrow> (int \<times> 'd \<times> err) res"
  k_close_port :: "'d \<Rightarrow> 'd"
  k_flush :: "('d \<Rightarrow> int \<times> 'd \<times> err) option"
  k_lock :: "('d \<Rightarrow> 32 word \<Rightarrow> 'd \<times> err) option"
  k_unlock :: "('d \<Rightarrow> 'd \<times> err) option"
  k_idpc :: "('d \<Rightarrow> 32 word \<Rightarrow> 64 word \<Rightarrow> byte list \<Rightarrow> ('d \<times> err) res) option"
  k_edpc :: "('d \<Rightarrow> 32 word \<Rightarrow> (64 word \<times> int option \<times> 'd \<times> err) res) option"
  k_memory :: "'d \<Rightarrow> int \<Rightarrow> nat \<Rightarrow> (byte list \<times> 'd) res"

section \<open>Commands\<close>

text \<open>\<open>reply_uleb128\<close> takes an \<open>unsigned\<close> here; it writes what the other one does for the same number.\<close>

function dpc_reply_uleb128_loop :: "nat \<Rightarrow> 32 word \<Rightarrow> reply \<Rightarrow> (nat \<times> reply) res" where
  "dpc_reply_uleb128_loop pos value r =
     and_then (reply_put (u32 (reply_len r + pos))
         (if 0x80 \<le> value then (ucast value AND 0x7f) OR 0x80 else ucast value AND 0x7f) r) (\<lambda>r'.
       let value' = drop_bit 7 value
       in if value' \<noteq> 0 then dpc_reply_uleb128_loop (pos + 1) value' r' else Inr (pos + 1, r'))"
  by pat_completeness auto
termination
  by (relation "measure (\<lambda>(pos, value, r). unat value)") (simp_all add: drop_bit_7_less)

declare dpc_reply_uleb128_loop.simps [simp del]

definition dpc_reply_uleb128 :: "32 word \<Rightarrow> reply \<Rightarrow> reply res" where
  "dpc_reply_uleb128 value r =
     and_then (dpc_reply_uleb128_loop 0 value r) (\<lambda>(pos, r').
       Inr (r'\<lparr>reply_len := u32 (reply_len r' + pos)\<rparr>))"

lemma ucast_steps:
  fixes v :: "32 word"
  shows "drop_bit 7 (ucast v :: 64 word) = ucast (drop_bit 7 v)" "0x80 \<le> (ucast v :: 64 word) \<longleftrightarrow> 0x80 \<le> v"
    "(ucast v :: 64 word) = 0 \<longleftrightarrow> v = 0" "(ucast (ucast v :: 64 word) :: byte) = ucast v"
proof -
  have unat_ucast_up: "unat (ucast v :: 64 word) = unat v"
    using unsigned_less [of v, where 'a = nat] by (simp add: unsigned_ucast_eq take_bit_nat_eq_self_iff)
  show "drop_bit 7 (ucast v :: 64 word) = ucast (drop_bit 7 v)"
    by (rule bit_eqI) (auto simp: bit_simps dest: bit_imp_le_length)
  show "0x80 \<le> (ucast v :: 64 word) \<longleftrightarrow> 0x80 \<le> v" by (simp add: word_le_nat_alt unat_ucast_up)
  show "(ucast v :: 64 word) = 0 \<longleftrightarrow> v = 0" by (metis unat_ucast_up unat_eq_zero)
  show "(ucast (ucast v :: 64 word) :: byte) = ucast v" by (rule bit_eqI) (auto simp: bit_simps)
qed

lemma dpc_reply_uleb128_loop_eq: "dpc_reply_uleb128_loop pos v r = reply_uleb128_loop pos (ucast v) r"
proof (induction pos v r rule: dpc_reply_uleb128_loop.induct)
  case (1 pos v r)
  define b where "b = (if 0x80 \<le> v then (ucast v AND 0x7f) OR 0x80 else ucast v AND 0x7f :: byte)"
  have "(if 0x80 \<le> (ucast v :: 64 word) then (ucast (ucast v :: 64 word) AND 0x7f) OR 0x80 else ucast (ucast v :: 64 word) AND 0x7f) = b"
    by (simp only: b_def ucast_steps)
  then show ?case
    using "1.IH" [folded b_def, OF _ refl]
    by (cases "reply_put (u32 (reply_len r + pos)) b r")
       (simp_all only: dpc_reply_uleb128_loop.simps [of pos v r] reply_uleb128_loop.simps [of pos "ucast v" r] ucast_steps
          flip: b_def, simp_all add: Let_def ucast_steps)
qed

lemma dpc_reply_uleb128_eq: "dpc_reply_uleb128 v r = reply_uleb128 (ucast v) r"
  by (simp add: dpc_reply_uleb128_def reply_uleb128_def dpc_reply_uleb128_loop_eq)

definition dpc_capabilities :: "'d dpc_table \<Rightarrow> byte list" where
  "dpc_capabilities h =
     bytes_of ''status,'' @ (if k_idpc h \<noteq> None \<and> k_edpc h \<noteq> None then bytes_of ''dpc'' else [])"

definition dpc_cmd_capabilities :: "'d dpc_table \<Rightarrow> 'd srv \<Rightarrow> nat \<Rightarrow> 'd step res" where
  "dpc_cmd_capabilities h s p =
     and_then (dpc_reply_uleb128 (word_of_nat (length (dpc_capabilities h))) (rp s)) (\<lambda>r1.
     and_then (reply_append (dpc_capabilities h) r1) (\<lambda>r2. Inr (Reply (s\<lparr>rp := r2\<rparr>) p)))"

definition dpc_cmd_configure :: "'d dpc_table \<Rightarrow> 'd srv \<Rightarrow> nat \<Rightarrow> nat \<Rightarrow> 'd step res" where
  "dpc_cmd_configure h s cbuf p =
     and_then (get_uleb128 (rx_buf (cl s)) (buf_len (cl s)) p) (\<lambda>(v, p1).
     and_then (ptr_add s p1 (unat (ucast v :: 32 word))) (\<lambda>pktend.
       if buf_len (cl s) < pktend then
         and_then (ensure (pktend - cbuf < buf_max (cl s)) Assert_failed) (\<lambda>_. Inr (Break s True))
       else
         and_then (read_at (rx_buf (cl s)) pktend) (\<lambda>oldc.
         and_then (write_at (rx_buf (cl s)) pktend [0]) (\<lambda>buf1.
         and_then (config_loop (k_lock h \<noteq> None \<and> k_unlock h \<noteq> None) buf1 p1 (cl s)) (\<lambda>(buf2, c).
         and_then (write_at buf2 pktend [oldc]) (\<lambda>buf3.
           Inr (Reply_with_status (s\<lparr>cl := c\<lparr>rx_buf := buf3\<rparr>\<rparr>) pktend)))))))"

definition dpc_cmd_error :: "'d srv \<Rightarrow> nat \<Rightarrow> 'd step res" where
  "dpc_cmd_error s p =
     (let len = length (pending_error (cl s));
          lim = u32 (buf_max (cl s) + 2 ^ 32 - (len + 127) div 128);
          bytes = (if lim < len then lim else len)
      in and_then (dpc_reply_uleb128 (word_of_nat bytes) (rp s)) (\<lambda>r1.
         and_then (reply_append (take bytes (pending_error (cl s))) r1) (\<lambda>r2.
           Inr (Reply (s\<lparr>rp := r2, cl := (cl s)\<lparr>pending_error := []\<rparr>\<rparr>) p))))"

definition call_edpc :: "'d dpc_table \<Rightarrow> 32 word \<Rightarrow> 'd srv \<Rightarrow> (64 word \<times> int option \<times> 'd srv) res" where
  "call_edpc h flags s =
     (case k_edpc h of
        None \<Rightarrow> Inl Null_call
      | Some f \<Rightarrow>
         if \<not> ok s then Inr (0, None, s)
         else and_then (f (dev s) flags) (\<lambda>(num_words, buf, d, e). Inr (num_words, buf, report e (s\<lparr>dev := d\<rparr>))))"

definition copy_packet :: "'d dpc_table \<Rightarrow> int option \<Rightarrow> nat \<Rightarrow> 'd srv \<Rightarrow> 'd srv res" where
  "copy_packet h epkt_buf num_bytes s =
     (case epkt_buf of
        None \<Rightarrow> Inr s
      | Some q \<Rightarrow>
          and_then (k_memory h (dev s) q num_bytes) (\<lambda>(bs, d).
          and_then (write_at (reply_buf (rp s)) (reply_len (rp s)) bs) (\<lambda>b.
            Inr (s\<lparr>dev := d, rp := (rp s)\<lparr>reply_buf := b\<rparr>\<rparr>))))"

definition cmd_edpc :: "'d dpc_table \<Rightarrow> 'd srv \<Rightarrow> nat \<Rightarrow> nat \<Rightarrow> 'd step res" where
  "cmd_edpc h s cbuf p =
     and_then (get_uleb128 (rx_buf (cl s)) (buf_len (cl s)) p) (\<lambda>(flags, p1).
       if buf_len (cl s) < p1 then need_more s cbuf p1
       else
         and_then (call_edpc h (ucast flags) s) (\<lambda>(num_words, epkt_buf, s1).
         let num_bytes = unat (num_words * 4) in
         and_then (dpc_reply_uleb128 (ucast num_words) (rp s1)) (\<lambda>r.
         and_then (copy_packet h epkt_buf num_bytes (s1\<lparr>rp := r\<rparr>)) (\<lambda>s2.
         and_then (reply_data num_bytes s2) (\<lambda>s3. Inr (Reply_with_status s3 p1))))))"

definition call_idpc :: "'d dpc_table \<Rightarrow> 32 word \<Rightarrow> 64 word \<Rightarrow> nat \<Rightarrow> 'd srv \<Rightarrow> 'd srv res" where
  "call_idpc h flags num_words p s =
     (case k_idpc h of
        None \<Rightarrow> Inl Null_call
      | Some f \<Rightarrow>
         if \<not> ok s then Inr s
         else and_then (f (dev s) flags num_words (drop p (rx_buf (cl s)))) (\<lambda>(d, e). Inr (report e (s\<lparr>dev := d\<rparr>))))"

definition cmd_idpc :: "'d dpc_table \<Rightarrow> 'd srv \<Rightarrow> nat \<Rightarrow> nat \<Rightarrow> 'd step res" where
  "cmd_idpc h s cbuf p =
     and_then (get_uleb128 (rx_buf (cl s)) (buf_len (cl s)) p) (\<lambda>(flags, p1).
     and_then (get_uleb128 (rx_buf (cl s)) (buf_len (cl s)) p1) (\<lambda>(num_words, p2).
     and_then (ptr_add s p2 (unat (num_words * 4))) (\<lambda>q.
       if buf_len (cl s) < q then need_more s cbuf q
       else and_then (call_idpc h (ucast flags) num_words p2 s) (\<lambda>s1. Inr (Reply_with_status s1 q)))))"

section \<open>The command loop\<close>

text \<open>The line that would leave the status out is unreachable: every command jumps past it.\<close>

definition dpc_dispatch :: "'d dpc_table \<Rightarrow> 'd srv \<Rightarrow> nat \<Rightarrow> nat \<Rightarrow> byte list \<Rightarrow> 'd step res" where
  "dpc_dispatch h s cbuf p hdr =
     (if hdr = bytes_of ''getinfo:'' then cmd_getinfo s p
      else if hdr = bytes_of ''capabilities:'' then dpc_cmd_capabilities h s p
      else if hdr = bytes_of ''configure:'' then dpc_cmd_configure h s cbuf p
      else if hdr = bytes_of ''error:'' then dpc_cmd_error s p
      else if hdr = bytes_of ''edpc:'' \<and> k_edpc h \<noteq> None then cmd_edpc h s cbuf p
      else if hdr = bytes_of ''idpc:'' \<and> k_idpc h \<noteq> None then cmd_idpc h s cbuf p
      else Inr (Protocol_error s))"

definition dpc_one_command :: "'d dpc_table \<Rightarrow> 'd srv \<Rightarrow> nat \<Rightarrow> 'd step res" where
  "dpc_one_command h s cbuf =
     (let e = min (cbuf + 30) (buf_len (cl s)) in
      and_then (find_colon (rx_buf (cl s)) e cbuf) (\<lambda>p.
        if e \<le> p then
          Inr (if 30 \<le> p - cbuf then Protocol_error s else Break s True)
        else dpc_dispatch h s cbuf (p + 1) (take (p + 1 - cbuf) (drop cbuf (rx_buf (cl s))))))"

definition dpc_iteration :: "'d dpc_table \<Rightarrow> 'd srv \<Rightarrow> nat \<Rightarrow> 'd loop_end res" where
  "dpc_iteration h s cbuf = and_then (dpc_one_command h s cbuf) (finish cbuf)"

lemma copy_packet_frame: "copy_packet h b n s = Inr s' \<Longrightarrow> cl s' = cl s \<and> reply_len (rp s') = reply_len (rp s)"
  by (auto simp: copy_packet_def res_simps split: option.split_asm)

lemma dpc_call_frame:
  "call_edpc h fl s = Inr (n, b, s1) \<Longrightarrow> client_frame (cl s) (cl s1)"
  "call_idpc h fl m p s = Inr s1 \<Longrightarrow> client_frame (cl s) (cl s1)"
  by (auto simp: call_edpc_def call_idpc_def res_simps split: option.split_asm if_split_asm)

lemma dpc_step_ok:
  assumes "cbuf < p" "p \<le> buf_len (cl s)"
  shows "dpc_cmd_capabilities h s p = Inr st \<Longrightarrow> step_ok cbuf s st"
    and "dpc_cmd_error s p = Inr st \<Longrightarrow> step_ok cbuf s st"
    and "cmd_edpc h s cbuf p = Inr st \<Longrightarrow> step_ok cbuf s st"
    and "cmd_idpc h s cbuf p = Inr st \<Longrightarrow> step_ok cbuf s st"
  using assms
  by (auto simp: dpc_cmd_capabilities_def dpc_cmd_error_def cmd_edpc_def cmd_idpc_def and_then_eq_Inr Let_def
      step_ok_def client_frame_def[of c "c\<lparr>pending_error := e\<rparr>" for c e] split: if_split_asm
      dest!: need_more_frame dpc_call_frame get_uleb128_bounds copy_packet_frame reply_data_frame ptr_add_frame)

lemma dpc_step_ok_configure:
  assumes "cbuf < p" "dpc_cmd_configure h s cbuf p = Inr st"
  shows "step_ok cbuf s st"
  using assms
  by (auto simp: dpc_cmd_configure_def and_then_eq_Inr step_ok_def split: if_split_asm
      dest!: get_uleb128_bounds ptr_add_frame config_loop_client_frame length_write_at)
    (auto simp: client_frame_def)

lemma dpc_step_ok_dispatch:
  assumes "cbuf < p" "p \<le> buf_len (cl s)" "dpc_dispatch h s cbuf p hdr = Inr st"
  shows "step_ok cbuf s st"
proof -
  have "step_ok cbuf s (Protocol_error s)" by (simp add: step_ok_def)
  then show ?thesis
    using assms(3) unfolding dpc_dispatch_def
    by (simp only: sum.inject split: if_split_asm)
       (blast intro: step_ok_simple(1) [OF assms(1,2)] dpc_step_ok [OF assms(1,2)] dpc_step_ok_configure [OF assms(1)])+
qed

lemma dpc_step_ok_one_command:
  assumes "dpc_one_command h s cbuf = Inr st"
  shows "step_ok cbuf s st"
proof -
  let ?e = "min (cbuf + 30) (buf_len (cl s))"
  from assms obtain p where p: "find_colon (rx_buf (cl s)) ?e cbuf = Inr p"
    and r: "(if ?e \<le> p then Inr (if 30 \<le> p - cbuf then Protocol_error s else Break s True)
       else dpc_dispatch h s cbuf (p + 1) (take (p + 1 - cbuf) (drop cbuf (rx_buf (cl s))))) = Inr st"
    unfolding dpc_one_command_def Let_def and_then_eq_Inr by blast
  show ?thesis
  proof (cases "?e \<le> p")
    case True
    with r show ?thesis by (auto simp: step_ok_def split: if_split_asm)
  next
    case False
    then have "cbuf < p + 1" "p + 1 \<le> buf_len (cl s)" using find_colon_bounds [OF p] by auto
    with False r show ?thesis by (intro dpc_step_ok_dispatch) simp_all
  qed
qed

lemma dpc_iteration_progress:
  assumes "dpc_iteration h s cbuf = Inr r"
  shows "case r of
       Next s' p \<Rightarrow> client_frame (cl s) (cl s') \<and> cbuf < p \<and> p \<le> buf_len (cl s)
     | Broke s' q fill \<Rightarrow> s' = s \<and> q = cbuf
     | Errored s' \<Rightarrow> s' = s"
proof -
  from assms obtain st where st: "dpc_one_command h s cbuf = Inr st" and f: "finish cbuf st = Inr r"
    by (auto simp: dpc_iteration_def and_then_eq_Inr)
  from dpc_step_ok_one_command [OF st] f show ?thesis
    by (auto simp: finish_def step_ok_def and_then_eq_Inr dest!: with_status_frame
        split: step.split_asm if_split_asm)
qed

function dpc_command_loop :: "'d dpc_table \<Rightarrow> 'd srv \<Rightarrow> nat \<Rightarrow> 'd loop_end res" where
  "dpc_command_loop h s cbuf =
     and_then (dpc_iteration h s cbuf) (\<lambda>r.
       case r of
         Next s' p \<Rightarrow> dpc_command_loop h s' p
       | Broke s' q fill \<Rightarrow> Inr (Broke s' q fill)
       | Errored s' \<Rightarrow> Inr (Errored s'))"
  by pat_completeness auto
termination
  by (relation "measure (\<lambda>(h, s, cbuf). buf_len (cl s) - cbuf)")
     (auto dest!: dpc_iteration_progress simp: client_frame_def)

declare dpc_command_loop.simps [simp del]

lemma dpc_command_loop_end:
  "dpc_command_loop h s cbuf = Inr r \<Longrightarrow> cbuf \<le> buf_len (cl s) \<Longrightarrow>
   (\<exists>s' q fill. r = Broke s' q fill \<and> client_frame (cl s) (cl s') \<and> cbuf \<le> q \<and> q \<le> buf_len (cl s)) \<or>
   (\<exists>s'. r = Errored s' \<and> client_frame (cl s) (cl s'))"
proof (induction h s cbuf rule: dpc_command_loop.induct)
  case (1 h s cbuf)
  from "1.prems"(1) obtain x where it: "dpc_iteration h s cbuf = Inr x"
    and r: "(case x of Next s' p \<Rightarrow> dpc_command_loop h s' p
       | Broke s' q fill \<Rightarrow> Inr (Broke s' q fill) | Errored s' \<Rightarrow> Inr (Errored s')) = Inr r"
    by (subst (asm) dpc_command_loop.simps) (auto simp: and_then_eq_Inr)
  show ?case
  proof (cases x)
    case (Next s' p)
    with dpc_iteration_progress [OF it] have f: "client_frame (cl s) (cl s')" "cbuf < p" "p \<le> buf_len (cl s')"
      by (auto simp: client_frame_def)
    from r Next have "dpc_command_loop h s' p = Inr r" by simp
    from "1.IH" [OF it Next this f(3)] f show ?thesis
      by (auto simp: client_frame_def)
  qed (use r dpc_iteration_progress [OF it] "1.prems"(2) in auto)
qed

end
