(* ===== verification/Dpc_Session.thy ===== *)
theory Dpc_Session
  imports Dpc_Server Mem_Main
begin

unbundle bit_operations_syntax

text \<open>
  The rest of \<open>dpc/src/xvcserver.c\<close>, from the end of the command loop to \<open>xvcserver_start\<close>, and the
  table of callbacks and \<open>main\<close> of \<open>dpc/src/xvc_dpc.c\<close>.
\<close>

section \<open>Replies and more bytes\<close>

definition dpc_flush :: "'d dpc_table \<Rightarrow> 'd srv \<Rightarrow> int \<times> 'd srv" where
  "dpc_flush h s =
     (case k_flush h of
        None \<Rightarrow> (0, s)
      | Some f \<Rightarrow> (case f (dev s) of (rv, d, e) \<Rightarrow> (rv, report e (s\<lparr>dev := d\<rparr>))))"

definition dpc_after_commands :: "'d dpc_table \<Rightarrow> 'd loop_end \<Rightarrow> sock \<Rightarrow> 'd turn res" where
  "dpc_after_commands h r k =
     (case r of
        Errored s \<Rightarrow> Inr (Finished s k Terminated)
      | Next s cbuf \<Rightarrow> Inl Hang \<comment> \<open>never the end of the loop\<close>
      | Broke s cbuf fill \<Rightarrow>
          if 0 < cbuf then
            (case dpc_flush h s of (rv, s1) \<Rightarrow>
               if rv < 0 then Inr (Finished s1 k Terminated)
               else and_then (send_packet s1 k) (\<lambda>(sent, k1).
                 if \<not> sent then Inr (Finished s1 k1 Terminated)
                 else and_then (consume_packet cbuf s1) (\<lambda>s2.
                   if buf_len (cl s2) \<noteq> 0 \<and> \<not> fill then Inr (Read_more s2 k1)
                   else receive s2 k1)))
          else receive s k)"

definition dpc_turn :: "'d dpc_table \<Rightarrow> 'd srv \<Rightarrow> sock \<Rightarrow> 'd turn res" where
  "dpc_turn h s k =
     and_then (dpc_command_loop h (s\<lparr>rp := (rp s)\<lparr>reply_len := 0\<rparr>\<rparr>) 0) (\<lambda>r. dpc_after_commands h r k)"

lemma dpc_flush_frame: "client_frame c (cl (snd (dpc_flush h s))) \<longleftrightarrow> client_frame c (cl s)"
  by (simp add: dpc_flush_def split: option.split prod.split)

lemma dpc_turn_progress:
  assumes "dpc_turn h s k = Inr (Read_more s' k')"
  shows "rx_total k' < rx_total k \<or> rx_total k' = rx_total k \<and> buf_len (cl s') < buf_len (cl s)"
proof -
  from assms obtain r where r: "dpc_command_loop h (s\<lparr>rp := (rp s)\<lparr>reply_len := 0\<rparr>\<rparr>) 0 = Inr r"
    and a: "dpc_after_commands h r k = Inr (Read_more s' k')"
    by (auto simp: dpc_turn_def and_then_eq_Inr)
  from dpc_command_loop_end [OF r] a obtain s1 cbuf fill where
    r1: "r = Broke s1 cbuf fill" and f1: "client_frame (cl s) (cl s1)"
    by (auto simp: dpc_after_commands_def)
  show ?thesis
  proof (cases "0 < cbuf")
    case False
    with a r1 have "receive s1 k = Inr (Read_more s' k')" by (simp add: dpc_after_commands_def)
    then show ?thesis by (blast dest: receive_progress)
  next
    case True
    obtain rv s2 where fl: "dpc_flush h s1 = (rv, s2)" by force
    with a r1 True obtain k1 s3 where k1: "send_packet s2 k = Inr (True, k1)"
      and s3: "consume_packet cbuf s2 = Inr s3"
      and e: "(if buf_len (cl s3) \<noteq> 0 \<and> \<not> fill then Inr (Read_more s3 k1) else receive s3 k1) =
                Inr (Read_more s' k')"
      by (auto simp: dpc_after_commands_def and_then_eq_Inr split: if_split_asm)
    have "client_frame (cl s) (cl s2)" using dpc_flush_frame [of "cl s" h s1] f1 fl by simp
    then have "buf_len (cl s3) < buf_len (cl s)"
      using consume_packet_frame(1,2) [OF s3] True by (simp add: client_frame_def)
    then show ?thesis
      using e receive_progress send_packet_frame [OF k1] by (fastforce split: if_split_asm)
  qed
qed

function dpc_read_more :: "'d dpc_table \<Rightarrow> 'd srv \<Rightarrow> sock \<Rightarrow> ('d srv \<times> sock \<times> ended) res" where
  "dpc_read_more h s k =
     and_then (dpc_turn h s k) (\<lambda>t.
       case t of
         Read_more s' k' \<Rightarrow> dpc_read_more h s' k'
       | Finished s' k' e \<Rightarrow> Inr (s', k', e))"
  by pat_completeness auto
termination
  by (relation "measures [\<lambda>(h, s, k). rx_total k, \<lambda>(h, s, k). buf_len (cl s)]")
     (auto dest!: dpc_turn_progress)

declare dpc_read_more.simps [simp del]

definition dpc_read_packet ::
    "'d dpc_table \<Rightarrow> (nat \<Rightarrow> byte) \<Rightarrow> 'd srv \<Rightarrow> sock \<Rightarrow> ('d srv \<times> sock \<times> ended) res" where
  "dpc_read_packet h heap s k =
     and_then (reply_buf_size heap (word_of_nat max_packet_len) (rp s)) (\<lambda>r.
       dpc_read_more h (s\<lparr>rp := r\<rparr>) k)"

section \<open>Connections\<close>

definition dpc_serve ::
    "'d dpc_table \<Rightarrow> (nat \<Rightarrow> byte) \<Rightarrow> 'd connection \<Rightarrow> 'd \<Rightarrow> reply \<Rightarrow> int \<Rightarrow>
     (outcome \<times> 'd \<times> reply \<times> int) res" where
  "dpc_serve h heap k d r fds =
     (let fds1 = fds + 1 in
      if \<not> peer_ok k then Inr (Peer_failed, d, r, fds1)
      else
        and_then (k_open_port h d) (\<lambda>(rv, d1, e).
          if rv < 0 then Inr (Open_failed, d1, r, fds1 - 1)
          else
            and_then (dpc_read_packet h heap
                (report e \<lparr>cl = client0 (c_addr k) (c_block k), rp = r, dev = d1\<rparr>) (c_sock k)) (\<lambda>(s, k', en).
              Inr (Served k' en, k_close_port h (dev s), rp s, fds1 - 1))))"

primrec dpc_accept_loop ::
    "'d dpc_table \<Rightarrow> (nat \<Rightarrow> byte) \<Rightarrow> 'd connection list \<Rightarrow> 'd \<Rightarrow> reply \<Rightarrow> int \<Rightarrow>
     (outcome list \<times> 'd \<times> reply \<times> int) res" where
  "dpc_accept_loop h heap [] d r fds = Inr ([], d, r, fds)"
| "dpc_accept_loop h heap (k # ks) d r fds =
     and_then (dpc_serve h heap k d r fds) (\<lambda>(o1, d1, r1, fds1).
     and_then (dpc_accept_loop h heap ks d1 r1 fds1) (\<lambda>(os, d2, r2, fds2).
       Inr (o1 # os, d2, r2, fds2)))"

definition dpc_xvcserver_start ::
    "'d dpc_table \<Rightarrow> (nat \<Rightarrow> byte) \<Rightarrow> net \<Rightarrow> 'd connection list \<Rightarrow> byte list \<Rightarrow> 'd \<Rightarrow> reply \<Rightarrow> int \<Rightarrow>
     (int \<times> outcome list \<times> 'd \<times> reply \<times> int) res" where
  "dpc_xvcserver_start h heap w conns url d r fds =
     and_then (parse_url url) (\<lambda>u.
       case u of
         Inl ret \<Rightarrow> Inr (ret, [], d, r, fds)
       | Inr (host, port) \<Rightarrow>
           (case open_server w fds of
              (opened, fds1) \<Rightarrow>
                if \<not> opened then Inr (err_socket_creation, [], d, r, fds1)
                else if host = [] \<and> \<not> hostname_ok w then Inr (err_gethostname, [], d, r, fds1 - 1)
                else and_then (dpc_accept_loop h heap conns d r fds1) (\<lambda>(os, d', r', fds2).
                  Inr (0, os, d', r', fds2 - 1))))"

section \<open>The program\<close>

definition dpc_handlers :: "'h tick \<Rightarrow> dpc_os \<Rightarrow> 'h shown \<Rightarrow> 'h xvc_dpc dpc_table" where
  "dpc_handlers tick os shown = \<lparr>
     k_open_port = dpc_open_port tick os shown, k_close_port = dpc_close_port, k_flush = None, k_lock = None,
     k_unlock = None, k_idpc = Some (idpc tick), k_edpc = Some (edpc tick), k_memory = copy_out tick\<rparr>"

record dpc_options =
  q_url :: "byte list"
  q_dma :: mem_region
  q_buf :: mem_region
  q_quiet :: bool
  q_verbose :: bool
  q_log :: logging_mode

text \<open>\<open>main\<close> sets the two sizes to 0; the addresses hold what was on the stack.\<close>

definition dpc_options0 :: "64 word \<Rightarrow> 64 word \<Rightarrow> dpc_options" where
  "dpc_options0 dma_junk buf_junk = \<lparr>q_url = bytes_of ''tcp::2542'', q_dma = \<lparr>r_addr = dma_junk, r_size = 0\<rparr>,
     q_buf = \<lparr>r_addr = buf_junk, r_size = 0\<rparr>, q_quiet = False, q_verbose = False, q_log = LOG_MODE_DEFAULT\<rparr>"

text \<open>The options that take a number, and what they set.\<close>

definition numeric_option :: "byte list \<Rightarrow> (64 word \<Rightarrow> dpc_options \<Rightarrow> dpc_options) option" where
  "numeric_option a =
     (if a = bytes_of ''--dma_addr'' then Some (\<lambda>v o1. o1\<lparr>q_dma := (q_dma o1)\<lparr>r_addr := v\<rparr>\<rparr>)
      else if a = bytes_of ''--dma_size'' then Some (\<lambda>v o1. o1\<lparr>q_dma := (q_dma o1)\<lparr>r_size := v\<rparr>\<rparr>)
      else if a = bytes_of ''--buf_addr'' then Some (\<lambda>v o1. o1\<lparr>q_buf := (q_buf o1)\<lparr>r_addr := v\<rparr>\<rparr>)
      else if a = bytes_of ''--buf_size'' then Some (\<lambda>v o1. o1\<lparr>q_buf := (q_buf o1)\<lparr>r_size := v\<rparr>\<rparr>)
      else None)"

fun dpc_parse_args :: "byte list list \<Rightarrow> dpc_options \<Rightarrow> int + dpc_options" where
  "dpc_parse_args [] o1 = Inr o1"
| "dpc_parse_args (a # as) o1 =
     (if a = [] \<or> hd a \<noteq> 0x2D then Inr o1
      else if a = bytes_of ''-s'' then
        (case as of [] \<Rightarrow> Inl error_invalid_argument
         | v # as' \<Rightarrow> dpc_parse_args as' (o1\<lparr>q_url := v\<rparr>))
      else case numeric_option a of
        Some f \<Rightarrow>
          (case as of [] \<Rightarrow> Inl error_invalid_argument
           | v # as' \<Rightarrow> dpc_parse_args as' (f (strtoul v) o1))
      | None \<Rightarrow>
          if a = bytes_of ''--verbose'' then
            if q_quiet o1 then Inl error_invalid_argument
            else dpc_parse_args as (o1\<lparr>q_verbose := True, q_log := LOG_MODE_VERBOSE\<rparr>)
          else if a = bytes_of ''--quiet'' then
            if q_verbose o1 then Inl error_invalid_argument
            else dpc_parse_args as (o1\<lparr>q_quiet := True, q_log := LOG_MODE_QUIET\<rparr>)
          else Inl error_invalid_argument)"

definition xvc_dpc0 :: "dpc_options \<Rightarrow> 'h dma \<Rightarrow> 'h xvc_dpc" where
  "xvc_dpc0 o1 s = \<lparr>hsdp = hsdp0, dma_region = q_dma o1, buf_region = q_buf o1, lib = hsdp_lib0, mem = s\<rparr>"

definition dpc_main ::
    "'h tick \<Rightarrow> dpc_os \<Rightarrow> 'h shown \<Rightarrow> 64 word \<Rightarrow> 64 word \<Rightarrow> 'h dma \<Rightarrow> (nat \<Rightarrow> byte) \<Rightarrow> net \<Rightarrow>
     'h xvc_dpc connection list \<Rightarrow> byte list list \<Rightarrow> int \<Rightarrow> (int \<times> outcome list \<times> 'h xvc_dpc option \<times> int) res" where
  "dpc_main tick os shown dma_junk buf_junk s heap w conns argv fds =
     (case dpc_parse_args argv (dpc_options0 dma_junk buf_junk) of
        Inl ret \<Rightarrow> Inr (ret, [], None, fds)
      | Inr o1 \<Rightarrow>
          and_then (dpc_xvcserver_start (dpc_handlers tick os shown) heap w conns (q_url o1) (xvc_dpc0 o1 s) reply0 fds)
            (\<lambda>(ret, out, d, r, fds'). Inr (ret, out, Some d, fds')))"

text \<open>Without the options for the addresses they stay what the stack held.\<close>

lemma dpc_parse_args_addrs:
  assumes "dpc_parse_args as o1 = Inr o2"
  shows "bytes_of ''--dma_addr'' \<notin> set as \<Longrightarrow> r_addr (q_dma o2) = r_addr (q_dma o1)"
    and "bytes_of ''--buf_addr'' \<notin> set as \<Longrightarrow> r_addr (q_buf o2) = r_addr (q_buf o1)"
  using assms
  by (induction as o1 rule: dpc_parse_args.induct) (auto simp: numeric_option_def split: if_split_asm list.split_asm)

lemma open_port_addresses:
  assumes "dpc_open_port tick os shown x = Inr (rv, x', e)" "mmap_buffers (lib x) = []"
  shows "mmap_buffers (lib x') = [dma_config x, buf_config x]"
  using assms
  by (auto simp: dpc_open_port_def hsdp_open_def alloc_buffers_def mmap_buffer_def max_mmap_buffers_def dma_config_def buf_config_def
      setup_dma_region_def setup_buffer_region_def and_then_eq_Inr ensure_eq_Inr Let_def split: if_split_asm)

end
