(* ===== verification/Dpc_Channel.thy ===== *)
theory Dpc_Channel
  imports Dpc_Lib
begin

unbundle bit_operations_syntax

text \<open>
  The two callbacks of \<open>dpc/src/xvc_dpc.c\<close> as a channel: a sequence of calls, in the order in which the
  server makes them, against any engine. A reference engine, an interpretation of the locale, shows that
  the hypotheses can hold.
\<close>

section \<open>A reference engine\<close>

text \<open>
  It completes a reset, takes a packet when one is there, and delivers the packets of its list \<open>env\<close> as
  soon as it finds a free descriptor.
\<close>

definition ref_reset :: "byte list list dma \<Rightarrow> byte list list dma" where
  "ref_reset s = (if bit (i_cntl s) 2 then s\<lparr>i_cntl := 0, e_cntl := 0, i_cur := i_cur s, e_cur := e_cur s,
     i_status := 0, e_status := 0, consumed := [], produced := [], env := env s\<rparr> else s)"

definition ref_take :: "byte list list dma \<Rightarrow> byte list list dma" where
  "ref_take s =
     (let i = length (consumed s) mod length (idescs s); d = idescs s ! i in
      if bit (i_cntl s) 0 \<and> idescs s \<noteq> [] \<and> d_sts d = 0 then
        case read_range (window s) (unat (d_buff d) - win_phys s) (unat (d_cntl d AND 0x3FFFFFF)) of
          Inl _ \<Rightarrow> s
        | Inr p \<Rightarrow> s\<lparr>idescs := (idescs s)[i := d\<lparr>d_sts := 0x80000000 OR word_of_nat (length p)\<rparr>], consumed := consumed s @ [p]\<rparr>
      else s)"

definition deliver :: "byte list \<Rightarrow> 'h dma \<Rightarrow> 'h dma" where
  "deliver p s =
     (let i = length (produced s) mod length (edescs s); d = edescs s ! i in
      case write_at (window s) (unat (d_buff d) - win_phys s) p of
        Inl _ \<Rightarrow> s
      | Inr w \<Rightarrow> s\<lparr>window := w, edescs := (edescs s)[i := d\<lparr>d_sts := 0x80000000 OR word_of_nat (length p)\<rparr>],
                   produced := produced s @ [p]\<rparr>)"

definition can_deliver :: "byte list \<Rightarrow> 'h dma \<Rightarrow> bool" where
  "can_deliver p s \<longleftrightarrow>
     (let d = edescs s ! (length (produced s) mod length (edescs s)) in
      bit (e_cntl s) 0 \<and> edescs s \<noteq> [] \<and> d_sts d = 0 \<and> p \<noteq> [] \<and> 4 dvd length p \<and>
      length p \<le> unat (d_cntl d AND 0x3FFFFFF))"

definition ref_deliver :: "byte list list dma \<Rightarrow> byte list list dma" where
  "ref_deliver s =
     (case env s of
        [] \<Rightarrow> s
      | p # ps \<Rightarrow> if can_deliver p s then (deliver p s)\<lparr>env := ps\<rparr> else s)"

definition ref_tick :: "byte list list dma \<Rightarrow> byte list list dma" where
  "ref_tick s = ref_deliver (ref_take (ref_reset s))"

lemma set_env_step: "hw_step s (s\<lparr>env := x\<rparr>)"
proof -
  have "hw_step s (s\<lparr>i_cntl := i_cntl s, e_cntl := e_cntl s, i_cur := i_cur s, e_cur := e_cur s,
      i_status := i_status s, e_status := e_status s, env := x\<rparr>)" by (rule registers) simp_all
  then show ?thesis by simp
qed

lemma ref_reset_steps: "hw_steps s (ref_reset s)"
proof (cases "bit (i_cntl s) 2")
  case True
  have "hw_step s (s\<lparr>i_cntl := 0, e_cntl := 0, i_cur := i_cur s, e_cur := e_cur s,
      i_status := 0, e_status := 0, consumed := [], produced := [], env := env s\<rparr>)"
    by (rule reset [OF True]) simp_all
  then show ?thesis by (simp add: ref_reset_def True)
qed (simp add: ref_reset_def)

lemma ref_take_steps: "hw_steps s (ref_take s)"
  by (auto simp: ref_take_def Let_def split: sum.split intro!: r_into_rtranclp take_packet)

lemma deliver_steps: "can_deliver p s \<Longrightarrow> hw_steps s (deliver p s)"
  by (auto simp: can_deliver_def deliver_def Let_def split: sum.split intro!: r_into_rtranclp deliver_packet)

lemma ref_deliver_steps: "hw_steps s (ref_deliver s)"
  by (auto simp: ref_deliver_def split: list.split intro: rtranclp.rtrancl_into_rtrancl [OF deliver_steps set_env_step])

interpretation ref: dma_engine ref_tick
proof
  fix s :: "byte list list dma"
  show "hw_steps s (ref_tick s)"
    unfolding ref_tick_def
    by (rule rtranclp_trans [OF ref_reset_steps rtranclp_trans [OF ref_take_steps ref_deliver_steps]])
qed

text \<open>An engine that never moves.\<close>

lemma still_engine: "dma_engine (\<lambda>s. s)"
  by unfold_locales simp

section \<open>A sequence of calls\<close>

text \<open>
  \<open>idpc:\<close> with a packet, and \<open>edpc:\<close> with the copy of the packet out of its slot. An event of a received
  packet also says how many packets the engine had produced when it was copied.
\<close>

datatype action = Idpc "32 word" "64 word" "byte list" | Edpc "32 word"

datatype event = Sent "byte list" | Refused "byte list" | Nothing | Received "byte list" nat

definition act :: "'h tick \<Rightarrow> action \<Rightarrow> 'h xvc_dpc \<Rightarrow> (event \<times> 'h xvc_dpc) res" where
  "act tick a x =
     (case a of
        Idpc fl wc buf \<Rightarrow>
          and_then (idpc tick x fl wc buf) (\<lambda>(x', e).
            Inr (case e of None \<Rightarrow> Sent (take (4 * unat wc) buf) | Some msg \<Rightarrow> Refused msg, x'))
      | Edpc fl \<Rightarrow>
          and_then (edpc tick x fl) (\<lambda>(wc, p, x1, e).
            case p of
              None \<Rightarrow> Inr (Nothing, x1)
            | Some q \<Rightarrow> and_then (copy_out tick x1 q (unat wc * 4)) (\<lambda>(bs, x2).
                Inr (Received bs (length (produced (mem x2))), x2))))"

primrec acts :: "'h tick \<Rightarrow> action list \<Rightarrow> 'h xvc_dpc \<Rightarrow> (event list \<times> 'h xvc_dpc) res" where
  "acts tick [] x = Inr ([], x)"
| "acts tick (a # as) x =
     and_then (act tick a x) (\<lambda>(ev, x1). and_then (acts tick as x1) (\<lambda>(evs, x2). Inr (ev # evs, x2)))"

primrec well_sized :: "action \<Rightarrow> bool" where
  "well_sized (Idpc fl wc buf) \<longleftrightarrow> unat wc \<le> 260 \<and> 4 * unat wc \<le> length buf"
| "well_sized (Edpc fl) \<longleftrightarrow> True"

definition sent_of :: "event list \<Rightarrow> byte list list" where
  "sent_of evs = concat (map (\<lambda>e. case e of Sent p \<Rightarrow> [p] | _ \<Rightarrow> []) evs)"

definition received_of :: "event list \<Rightarrow> (byte list \<times> nat) list" where
  "received_of evs = concat (map (\<lambda>e. case e of Received p m \<Rightarrow> [(p, m)] | _ \<Rightarrow> []) evs)"

lemma events_simps [simp]:
  "sent_of [] = []" "sent_of (Sent p # evs) = p # sent_of evs" "sent_of (Refused e # evs) = sent_of evs"
  "sent_of (Nothing # evs) = sent_of evs" "sent_of (Received q m # evs) = sent_of evs"
  "received_of [] = []" "received_of (Sent p # evs) = received_of evs" "received_of (Refused e # evs) = received_of evs"
  "received_of (Nothing # evs) = received_of evs" "received_of (Received q m # evs) = (q, m) # received_of evs"
  by (simp_all add: sent_of_def received_of_def)

text \<open>A copy of packet number \<open>r\<close>: its length, and its content if the ring had not come round.\<close>

definition copy_of :: "byte list list \<Rightarrow> nat \<Rightarrow> byte list \<times> nat \<Rightarrow> bool" where
  "copy_of ps r c \<longleftrightarrow> r < length ps \<and> length (fst c) = length (ps ! r) \<and> (snd c \<le> r + 4 \<longrightarrow> fst c = ps ! r)"

lemma copy_of_extends: "copy_of (produced s) r c \<Longrightarrow> extends s s' \<Longrightarrow> \<not> bit (i_cntl s) 2 \<Longrightarrow> copy_of (produced s') r c"
proof -
  assume c: "copy_of (produced s) r c" and e: "extends s s'" "\<not> bit (i_cntl s) 2"
  have "prefix (produced s) (produced s')" using e by (simp add: extends_def)
  then obtain ps where "produced s' = produced s @ ps" by (rule prefixE)
  moreover have "r < length (produced s)" using c by (simp add: copy_of_def)
  ultimately have "r < length (produced s')" "produced s' ! r = produced s ! r" by (simp_all add: nth_append)
  then show "copy_of (produced s') r c" using c by (simp add: copy_of_def)
qed

definition copies :: "byte list list \<Rightarrow> nat \<Rightarrow> (byte list \<times> nat) list \<Rightarrow> bool" where
  "copies ps r cs \<longleftrightarrow> (\<forall>i < length cs. copy_of ps (r + i) (cs ! i))"

lemma copies_simps: "copies ps r []" "copies ps r (c # cs) \<longleftrightarrow> copy_of ps r c \<and> copies ps (Suc r) cs"
  by (simp_all add: copies_def All_less_Suc2)

lemma port_open_running: "port_open sent r x \<Longrightarrow> \<not> bit (i_cntl (mem x)) 2"
  by (simp add: port_open_def rings_def)

context dma_engine
begin

lemma act_spec:
  assumes "port_open sent r x" "well_sized a"
  shows "\<exists>ev x'. act tick a x = Inr (ev, x') \<and> port_open (sent @ sent_of [ev]) (r + length (received_of [ev])) x' \<and>
    extends (mem x) (mem x') \<and> copies (produced (mem x')) r (received_of [ev])"
proof (cases a)
  case (Idpc fl wc buf)
  with assms(2) have "unat wc \<le> 260" "4 * unat wc \<le> length buf" by simp_all
  from idpc_spec [OF assms(1) this, of fl] obtain x' e sent' where
    "idpc tick x fl wc buf = Inr (x', e)" "port_open sent' r x'" "extends (mem x) (mem x')"
    "sent' = (if e = None then sent @ [take (4 * unat wc) buf] else sent)" by blast
  then show ?thesis unfolding Idpc by (cases e) (simp_all add: act_def copies_simps)
next
  case (Edpc fl)
  from edpc_spec [OF assms(1), of fl] show ?thesis
  proof (elim disjE exE conjE)
    fix x' assume "edpc tick x fl = Inr (0, None, x', None)" "port_open sent r x'" "extends (mem x) (mem x')"
    then show ?thesis unfolding Edpc by (simp add: act_def copies_simps)
  next
    fix wc x1
    assume e: "edpc tick x fl = Inr (wc, Some (int (eslot r)), x1, None)" "port_open sent (Suc r) x1" "extends (mem x) (mem x1)"
      and n: "4 * unat wc = length (produced (mem x1) ! r)" and rd: "readable r (produced (mem x1) ! r) (mem x1)"
    have "unat wc * 4 = length (produced (mem x1) ! r)" using n by simp
    from copy_out_spec [OF e(2) rd this] obtain bs x2 where
      c: "copy_out tick x1 (int (eslot r)) (unat wc * 4) = Inr (bs, x2)" "port_open sent (Suc r) x2" "extends (mem x1) (mem x2)"
      "readable r (produced (mem x1) ! r) (mem x2)" "length (produced (mem x2)) \<le> r + 4 \<longrightarrow> bs = produced (mem x1) ! r" by blast
    have "length bs = unat wc * 4"
      using c(1) by (auto simp: copy_out_def read_window_def Let_def and_then_eq_Inr read_range_def split: if_split_asm)
    then have "copy_of (produced (mem x2)) r (bs, length (produced (mem x2)))"
      using c(4,5) n by (simp add: copy_of_def readable_def)
    moreover have "act tick a x = Inr (Received bs (length (produced (mem x2))), x2)"
      unfolding Edpc by (simp add: act_def e(1) c(1))
    ultimately show ?thesis
      using c(2) extends_trans [OF e(3) c(3)] by (simp add: copies_simps)
  qed
qed

lemma copies_extends: "copies (produced s) r cs \<Longrightarrow> extends s s' \<Longrightarrow> \<not> bit (i_cntl s) 2 \<Longrightarrow> copies (produced s') r cs"
  unfolding copies_def by (blast intro: copy_of_extends)

lemma acts_spec:
  assumes "port_open sent r x" "\<forall>a \<in> set as. well_sized a"
  shows "\<exists>evs x'. acts tick as x = Inr (evs, x') \<and> port_open (sent @ sent_of evs) (r + length (received_of evs)) x' \<and>
    extends (mem x) (mem x') \<and> copies (produced (mem x')) r (received_of evs)"
  using assms
proof (induction as arbitrary: sent r x)
  case (Cons a as)
  have "well_sized a" using Cons.prems(2) by simp
  from act_spec [OF Cons.prems(1) this] obtain ev x1 where
    1: "act tick a x = Inr (ev, x1)" "port_open (sent @ sent_of [ev]) (r + length (received_of [ev])) x1"
      "extends (mem x) (mem x1)" "copies (produced (mem x1)) r (received_of [ev])" by blast
  from Cons.IH [OF 1(2)] Cons.prems(2) obtain evs x2 where
    2: "acts tick as x1 = Inr (evs, x2)"
      "port_open ((sent @ sent_of [ev]) @ sent_of evs) (r + length (received_of [ev]) + length (received_of evs)) x2"
      "extends (mem x1) (mem x2)" "copies (produced (mem x2)) (r + length (received_of [ev])) (received_of evs)" by auto
  have "copies (produced (mem x2)) r (received_of [ev])"
    using copies_extends [OF 1(4) 2(3) port_open_running [OF 1(2)]] .
  then have "copies (produced (mem x2)) r (received_of (ev # evs))"
    using 2(4) by (cases ev) (simp_all add: copies_simps)
  moreover have "port_open (sent @ sent_of (ev # evs)) (r + length (received_of (ev # evs))) x2"
    using 2(2) by (cases ev) simp_all
  ultimately show ?case using 1(1) 2(1) extends_trans [OF 1(3) 2(3)] by simp
qed (simp add: copies_simps)

end

end
