(* ===== verification/Dpc_Commands.thy ===== *)
theory Dpc_Commands
  imports Dpc_Session Dpc_Channel Mem_Spec
begin

unbundle bit_operations_syntax

text \<open>
  A connection to the DPC server as its client sees it: the two packet commands with their bytes, an
  abstract server that runs them on the packet channel of \<open>Dpc_Channel\<close>, and the lemmas that the engine of
  \<open>dpc/src/xvcserver.c\<close> on the callbacks of \<open>xvc_dpc.c\<close> does the same, command by command, then for the
  loop, a turn and a connection.
\<close>

section \<open>The abstract server\<close>

datatype packet_request = Send_packet "64 word" "byte list" | Fetch_packet "64 word" \<comment> \<open>flags, data\<close>

primrec packet_encode :: "packet_request \<Rightarrow> byte list" where
  "packet_encode (Send_packet fl d) =
     bytes_of ''idpc:'' @ uleb_bytes fl @ uleb_bytes (word_of_nat (length d div 4)) @ d"
| "packet_encode (Fetch_packet fl) = bytes_of ''edpc:'' @ uleb_bytes fl"

primrec packet_fits :: "packet_request \<Rightarrow> bool" where
  "packet_fits (Send_packet fl d) \<longleftrightarrow> 4 dvd length d \<and> length d \<le> 0x410"
| "packet_fits (Fetch_packet fl) \<longleftrightarrow> True"

text \<open>The state is the pending error and the port. With an error pending nothing reaches the port.\<close>

primrec packet_exec ::
    "'h tick \<Rightarrow> packet_request \<Rightarrow> byte list \<times> 'h xvc_dpc \<Rightarrow> ((byte list \<times> 'h xvc_dpc) \<times> byte list) res" where
  "packet_exec tick (Send_packet fl d) st =
     (if fst st \<noteq> [] then Inr (st, [1])
      else and_then (act tick (Idpc (ucast fl) (word_of_nat (length d div 4)) d) (snd st)) (\<lambda>(ev, x).
        Inr (case ev of Refused m \<Rightarrow> ((take 1023 (cstring m), x), [1]) | _ \<Rightarrow> (([], x), [0]))))"
| "packet_exec tick (Fetch_packet fl) st =
     (if fst st \<noteq> [] then Inr (st, [0, 1])
      else and_then (act tick (Edpc (ucast fl)) (snd st)) (\<lambda>(ev, x).
        Inr (([], x), (case ev of Received bs m \<Rightarrow> uleb_bytes (word_of_nat (length bs div 4)) @ bs | _ \<Rightarrow> [0]) @ [0])))"

primrec packet_exec_all ::
    "'h tick \<Rightarrow> packet_request list \<Rightarrow> byte list \<times> 'h xvc_dpc \<Rightarrow> ((byte list \<times> 'h xvc_dpc) \<times> byte list) res" where
  "packet_exec_all tick [] st = Inr (st, [])"
| "packet_exec_all tick (q # qs) st =
     and_then (packet_exec tick q st) (\<lambda>(st1, out). and_then (packet_exec_all tick qs st1) (\<lambda>(st2, outs).
       Inr (st2, out @ outs)))"

section \<open>Only the packet is read\<close>

lemma idpc_cut:
  assumes "unat wc \<le> 260" "4 * unat wc \<le> length buf"
  shows "idpc tick x fl wc buf = idpc tick x fl wc (take (4 * unat wc) buf)"
proof -
  have sz: "size_of_words (unat wc) = 4 * unat wc" using assms(1) by (simp add: size_of_words_def)
  have rd: "read_range buf 0 (4 * unat wc) = read_range (take (4 * unat wc) buf) 0 (4 * unat wc)"
    using assms(2) by (simp add: read_range_def)
  show ?thesis unfolding idpc_def hsdp_send_packet_def Let_def sz rd ..
qed

lemma word_count:
  assumes "4 dvd length d" "length d \<le> 0x410"
  shows "unat (word_of_nat (length d div 4) :: 64 word) = length d div 4" "4 * (length d div 4) = length d"
    "unat ((word_of_nat (length d div 4) :: 64 word) * 4) = length d"
proof -
  obtain k where k: "length d = 4 * k" using assms(1) by (rule dvdE)
  then show c: "unat (word_of_nat (length d div 4) :: 64 word) = length d div 4" "4 * (length d div 4) = length d"
    using assms(2) by (simp_all add: unat_word_of_nat_64)
  have "(word_of_nat k :: 64 word) * 4 = word_of_nat (k * 4)" by simp
  moreover have "unat (word_of_nat (k * 4) :: 64 word) = k * 4" using k assms(2) by (intro unat_word_of_nat_64) simp
  ultimately show "unat ((word_of_nat (length d div 4) :: 64 word) * 4) = length d" using k by (simp add: mult.commute)
qed

section \<open>The engine's state\<close>

definition dpc_ready :: "byte list list \<Rightarrow> nat \<Rightarrow> 'h xvc_dpc srv \<Rightarrow> bool" where
  "dpc_ready sent r s \<longleftrightarrow>
     port_open sent r (dev s) \<and> reply_ready (rp s) \<and> buf_len (cl s) \<le> max_packet_len \<and> buf_max (cl s) = max_packet_len \<and>
     length (rx_buf (cl s)) = max_packet_len \<and> buf_addr (cl s) + 2 * max_packet_len < 2 ^ 64"

definition abs_port :: "'h xvc_dpc srv \<Rightarrow> byte list \<times> 'h xvc_dpc" where
  "abs_port s = (pending_error (cl s), dev s)"

definition packet_done :: "'h xvc_dpc srv \<Rightarrow> 'h xvc_dpc srv \<Rightarrow> (byte list \<times> 'h xvc_dpc) \<times> byte list \<Rightarrow> bool" where
  "packet_done s s' res \<longleftrightarrow>
     abs_port s' = fst res \<and> appended (rp s) (snd res) (rp s') \<and> client_frame (cl s) (cl s') \<and> rx_buf (cl s') = rx_buf (cl s)"

lemma dpc_header:
  assumes "bytes_at (rx_buf (cl s)) cbuf (name @ [0x3A])" "0x3A \<notin> set name" "length name < 30"
    and "cbuf + length name < buf_len (cl s)"
  shows "dpc_one_command h s cbuf = dpc_dispatch h s cbuf (cbuf + length name + 1) (name @ [0x3A])"
proof -
  have "find_colon (rx_buf (cl s)) (min (cbuf + 30) (buf_len (cl s))) cbuf = Inr (cbuf + length name)"
    using assms by (intro find_colon_at) auto
  moreover have "take (length name + 1) (drop cbuf (rx_buf (cl s))) = name @ [0x3A]"
    using assms(1) by (simp add: bytes_at_def)
  moreover have "\<not> min (cbuf + 30) (buf_len (cl s)) \<le> cbuf + length name" using assms(3,4) by simp
  ultimately show ?thesis by (simp add: dpc_one_command_def Let_def)
qed

text \<open>The end of a command that answers with the status.\<close>

lemma finish_packet:
  assumes "appended (rp s) bs (rp s1)" "reply_len (rp s) + length bs < max_packet_len"
    and "client_frame (cl s) (cl s1)" "rx_buf (cl s1) = rx_buf (cl s)"
  shows "\<exists>s'. finish cbuf (Reply_with_status s1 q) = Inr (Next s' q) \<and>
    packet_done s s' (abs_port s1, bs @ [if pending_error (cl s1) \<noteq> [] then 1 else 0])"
proof -
  have "reply_len (rp s1) < max_packet_len" using assms(1,2) by (simp add: appended_len)
  from with_status_appended [OF appended_ready [OF assms(1)] this] obtain r' where
    w: "with_status s1 = Inr (s1\<lparr>rp := r'\<rparr>)"
    and r': "appended (rp s1) [if pending_error (cl s1) \<noteq> [] then 1 else 0] r'" by blast
  have "appended (rp s) (bs @ [if pending_error (cl s1) \<noteq> [] then 1 else 0]) r'" using appended_trans [OF assms(1) r'] .
  then show ?thesis using w assms(3,4) by (simp add: finish_def packet_done_def abs_port_def)
qed

lemma dpc_uleb_appended:
  assumes "reply_ready r" "n \<le> 260" "reply_len r + 2 \<le> max_packet_len"
  shows "\<exists>r'. dpc_reply_uleb128 (ucast (word_of_nat n :: 64 word)) r = Inr r' \<and> appended r (uleb_bytes (word_of_nat n)) r'"
proof -
  have "ucast (ucast (word_of_nat n :: 64 word) :: 32 word) = (word_of_nat n :: 64 word)"
    using assms(2) by (intro word_unat_eq_iff [THEN iffD2]) (simp add: unsigned_ucast_eq unat_word_of_nat_64 unsigned_take_bit_eq take_bit_nat_eq_self)
  moreover have "length (uleb_bytes (word_of_nat n)) \<le> 2" using assms(2) by (intro length_uleb_small) simp
  ultimately show ?thesis
    using reply_uleb128_appended [OF assms(1), of "word_of_nat n"] assms(3) by (simp add: dpc_reply_uleb128_eq)
qed

section \<open>One command\<close>

text \<open>The fields of the table that the packet commands use.\<close>

definition packet_table :: "'h tick \<Rightarrow> 'h xvc_dpc dpc_table \<Rightarrow> bool" where
  "packet_table tick h \<longleftrightarrow> k_idpc h = Some (idpc tick) \<and> k_edpc h = Some (edpc tick) \<and> k_memory h = copy_out tick \<and> k_flush h = None"

lemma dpc_ready_done:
  assumes "dpc_ready sent r s" "packet_done s s' res" "port_open sent' r' (snd (fst res))"
  shows "dpc_ready sent' r' s'"
proof -
  have "dev s' = snd (fst res)" using assms(2) by (auto simp: packet_done_def abs_port_def dest: arg_cong [of _ _ snd])
  then show ?thesis using assms by (auto simp: dpc_ready_def packet_done_def client_frame_def appended_def)
qed

lemma reply_data_after:
  assumes "reply_ready r" "reply_len r + length bs \<le> max_packet_len" "ok s"
  shows "\<exists>r'. write_at (reply_buf r) (reply_len r) bs = Inr (reply_buf r') \<and> appended r bs r' \<and>
    (\<forall>b d. reply_buf r' = b \<longrightarrow> reply_data (length bs) (s\<lparr>dev := d, rp := r\<lparr>reply_buf := b\<rparr>\<rparr>) = Inr (s\<lparr>dev := d, rp := r'\<rparr>))"
proof -
  have l: "reply_len r + length bs \<le> length (reply_buf r)"
    using assms by (simp add: reply_ready_def reply_wf_def)
  let ?b = "take (reply_len r) (reply_buf r) @ bs @ drop (reply_len r + length bs) (reply_buf r)"
  have ap: "appended r bs (r\<lparr>reply_buf := ?b, reply_len := u32 (reply_len r + length bs)\<rparr>)"
    using appendedI [OF assms(1,2), of ?b] l by simp
  show ?thesis
    using ap l assms(3)
    by (intro exI [of _ "r\<lparr>reply_buf := ?b, reply_len := u32 (reply_len r + length bs)\<rparr>"])
       (simp add: write_at_ok reply_data_def ok_def)
qed

lemma run_fetch:
  assumes "dpc_ready sent r s" "dma_engine tick" "bytes_at (rx_buf (cl s)) p (uleb_bytes fl)" "p + length (uleb_bytes fl) \<le> buf_len (cl s)"
    and "reply_len (rp s) + 0x420 \<le> max_packet_len" "packet_table tick h"
  shows "\<exists>res sent' r' s'. packet_exec tick (Fetch_packet fl) (abs_port s) = Inr res \<and>
    and_then (cmd_edpc h s cbuf p) (finish cbuf) = Inr (Next s' (p + length (uleb_bytes fl))) \<and> packet_done s s' res \<and>
    dpc_ready sent' r' s' \<and> length (snd res) \<le> 0x414"
proof -
  let ?q = "p + length (uleb_bytes fl)"
  have rdy: "reply_ready (rp s)" and op: "port_open sent r (dev s)" using assms(1) by (simp_all add: dpc_ready_def)
  have tab: "k_idpc h = Some (idpc tick)" "k_edpc h = Some (edpc tick)" "k_memory h = copy_out tick" "k_flush h = None"
    using assms(6) by (simp_all add: packet_table_def)
  have g: "get_uleb128 (rx_buf (cl s)) (buf_len (cl s)) p = Inr (fl, ?q)"
    using assms(1,3,4) by (intro get_uleb128_at) (simp_all add: dpc_ready_def)
  have cmd: "cmd_edpc h s cbuf p =
      and_then (call_edpc h (ucast fl) s) (\<lambda>(num_words, epkt_buf, s1).
         and_then (dpc_reply_uleb128 (ucast num_words) (rp s1)) (\<lambda>r.
         and_then (copy_packet h epkt_buf (unat (num_words * 4)) (s1\<lparr>rp := r\<rparr>)) (\<lambda>s2.
         and_then (reply_data (unat (num_words * 4)) s2) (\<lambda>s3. Inr (Reply_with_status s3 ?q)))))"
    using assms(4) by (simp add: cmd_edpc_def g Let_def)
  have room: "reply_len (rp s) + 2 \<le> max_packet_len" using assms(5) by simp
  have zero: "uleb_bytes 0 = [0]" by (simp add: uleb_bytes.simps)
  from dpc_uleb_appended [OF rdy _ room, of 0] obtain r0 where r0: "dpc_reply_uleb128 0 (rp s) = Inr r0" "appended (rp s) [0] r0"
    by (auto simp: zero)
  have u: "u32 (reply_len r0) = reply_len r0"
    using r0(2) assms(5) by (simp add: appended_def max_packet_len_def)
  have empty: "\<exists>s'. and_then (cmd_edpc h s cbuf p) (finish cbuf) = Inr (Next s' ?q) \<and>
      packet_done s s' ((pending_error (cl s), d), [0, if pending_error (cl s) \<noteq> [] then 1 else 0])"
    if "call_edpc h (ucast fl) s = Inr (0, None, s\<lparr>dev := d\<rparr>)" for d
  proof -
    define s1 where "s1 = s\<lparr>dev := d, rp := r0\<rparr>"
    have c: "cmd_edpc h s cbuf p = Inr (Reply_with_status s1 ?q)"
      unfolding cmd using that r0(1) u by (simp add: copy_packet_def reply_data_def memset0_at_def s1_def)
    have a1: "appended (rp s) [0] (rp s1)" using r0(2) by (simp add: s1_def)
    from finish_packet [OF a1, of cbuf ?q] obtain s' where
      "finish cbuf (Reply_with_status s1 ?q) = Inr (Next s' ?q)"
      "packet_done s s' (abs_port s1, [0] @ [if pending_error (cl s1) \<noteq> [] then 1 else 0])"
      using room by (auto simp: s1_def)
    then show ?thesis using c by (auto simp: s1_def abs_port_def)
  qed
  show ?thesis
  proof (cases "ok s")
    case False
    then have pe: "pending_error (cl s) \<noteq> []" by (simp add: ok_def)
    have "call_edpc h (ucast fl) s = Inr (0, None, s\<lparr>dev := dev s\<rparr>)" using False by (simp add: call_edpc_def tab)
    from empty [OF this] obtain s' where s': "and_then (cmd_edpc h s cbuf p) (finish cbuf) = Inr (Next s' ?q)"
      "packet_done s s' ((pending_error (cl s), dev s), [0, 1])" using pe by auto
    have "packet_exec tick (Fetch_packet fl) (abs_port s) = Inr ((pending_error (cl s), dev s), [0, 1])"
      using pe by (simp add: abs_port_def)
    moreover have "dpc_ready sent r s'" by (rule dpc_ready_done [OF assms(1) s'(2)]) (simp add: op)
    ultimately show ?thesis using s' by fastforce
  next
    case True
    then have pe: "pending_error (cl s) = []" by (simp add: ok_def)
    from dma_engine.edpc_spec [OF assms(2) op, of "ucast fl"] show ?thesis
    proof (elim disjE exE conjE)
      fix x' assume e: "edpc tick (dev s) (ucast fl) = Inr (0, None, x', None)" "port_open sent r x'"
      have "call_edpc h (ucast fl) s = Inr (0, None, s\<lparr>dev := x'\<rparr>)" using True e(1) by (simp add: call_edpc_def tab report_def)
      from empty [OF this] obtain s' where s': "and_then (cmd_edpc h s cbuf p) (finish cbuf) = Inr (Next s' ?q)"
        "packet_done s s' (([], x'), [0, 0])" using pe by auto
      have "packet_exec tick (Fetch_packet fl) (abs_port s) = Inr (([], x'), [0, 0])"
        using pe e(1) by (simp add: abs_port_def act_def)
      moreover have "dpc_ready sent r s'" by (rule dpc_ready_done [OF assms(1) s'(2)]) (simp add: e(2))
      ultimately show ?thesis using s' by fastforce
    next
      fix wc x1
      assume e: "edpc tick (dev s) (ucast fl) = Inr (wc, Some (int (eslot r)), x1, None)" "port_open sent (Suc r) x1"
        and n: "4 * unat wc = length (produced (mem x1) ! r)" and rd: "readable r (produced (mem x1) ! r) (mem x1)"
      have wc: "unat wc \<le> 260" using n rd by (simp add: readable_def)
      have n4: "unat wc * 4 = length (produced (mem x1) ! r)" using n by simp
      from dma_engine.copy_out_spec [OF assms(2) e(2) rd n4] obtain bs x2 where
        c: "copy_out tick x1 (int (eslot r)) (unat wc * 4) = Inr (bs, x2)" "port_open sent (Suc r) x2" by blast
      have lb: "length bs = unat wc * 4"
        using c(1) by (auto simp: copy_out_def read_window_def Let_def and_then_eq_Inr read_range_def split: if_split_asm)
      have w4: "unat (wc * 4) = unat wc * 4" using wc by (simp add: unat_word_ariths)
      have wn: "wc = word_of_nat (unat wc)" by simp
      from dpc_uleb_appended [OF rdy wc room] obtain r1 where
        r1: "dpc_reply_uleb128 (ucast wc) (rp s) = Inr r1" "appended (rp s) (uleb_bytes wc) r1" by auto
      have lu: "length (uleb_bytes wc) \<le> 2" using length_uleb_small [of "unat wc"] wc by simp
      have ready1: "reply_ready r1" "reply_len r1 + length bs \<le> max_packet_len"
        using r1(2) lu lb wc assms(5) by (simp_all add: appended_def)
      from reply_data_after [OF ready1 True] obtain r2 where
        r2: "write_at (reply_buf r1) (reply_len r1) bs = Inr (reply_buf r2)" "appended r1 bs r2"
          "\<And>b d. reply_buf r2 = b \<Longrightarrow> reply_data (length bs) (s\<lparr>dev := d, rp := r1\<lparr>reply_buf := b\<rparr>\<rparr>) = Inr (s\<lparr>dev := d, rp := r2\<rparr>)"
        by blast
      define s1 where "s1 = s\<lparr>dev := x2, rp := r2\<rparr>"
      have "call_edpc h (ucast fl) s = Inr (wc, Some (int (eslot r)), s\<lparr>dev := x1\<rparr>)"
        using True e(1) by (simp add: call_edpc_def tab report_def)
      moreover have "copy_packet h (Some (int (eslot r))) (unat wc * 4) (s\<lparr>dev := x1, rp := r1\<rparr>) =
          Inr (s\<lparr>dev := x2, rp := r1\<lparr>reply_buf := reply_buf r2\<rparr>\<rparr>)"
        using c(1) r2(1) by (simp add: copy_packet_def tab)
      ultimately have cc: "cmd_edpc h s cbuf p = Inr (Reply_with_status s1 ?q)"
        unfolding cmd using r1(1) r2(3) [OF refl] lb by (simp add: w4 s1_def)
      have ap: "appended (rp s) (uleb_bytes wc @ bs) (rp s1)" using appended_trans [OF r1(2) r2(2)] by (simp add: s1_def)
      from finish_packet [OF ap, of cbuf ?q] obtain s' where
        f: "finish cbuf (Reply_with_status s1 ?q) = Inr (Next s' ?q)" "packet_done s s' (([], x2), (uleb_bytes wc @ bs) @ [0])"
        using pe lu lb wc assms(5) by (auto simp: s1_def abs_port_def)
      have "packet_exec tick (Fetch_packet fl) (abs_port s) = Inr (([], x2), (uleb_bytes wc @ bs) @ [0])"
        using pe e(1) c(1) lb by (simp add: abs_port_def act_def)
      moreover have "dpc_ready sent (Suc r) s'" by (rule dpc_ready_done [OF assms(1) f(2)]) (simp add: c(2))
      moreover have "length ((uleb_bytes wc @ bs) @ [0]) \<le> 0x414" using lu lb wc by simp
      ultimately show ?thesis using cc f by fastforce
    qed
  qed
qed

lemma packet_names:
  "length (bytes_of ''idpc:'') = 5" "length (bytes_of ''edpc:'') = 5"
  "bytes_of ''idpc:'' = bytes_of ''idpc'' @ [0x3A]" "bytes_of ''edpc:'' = bytes_of ''edpc'' @ [0x3A]"
  by (simp_all add: bytes_of_def)

lemma run_send:
  assumes "dpc_ready sent r s" "dma_engine tick"
    and "bytes_at (rx_buf (cl s)) p (uleb_bytes fl @ uleb_bytes (word_of_nat (length d div 4)) @ d)"
    and "p + length (uleb_bytes fl @ uleb_bytes (word_of_nat (length d div 4)) @ d) \<le> buf_len (cl s)"
    and "reply_len (rp s) + 0x420 \<le> max_packet_len" "packet_table tick h" "4 dvd length d" "length d \<le> 0x410"
  shows "\<exists>res sent' r' s'. packet_exec tick (Send_packet fl d) (abs_port s) = Inr res \<and>
    and_then (cmd_idpc h s cbuf p) (finish cbuf) =
      Inr (Next s' (p + length (uleb_bytes fl @ uleb_bytes (word_of_nat (length d div 4)) @ d))) \<and> packet_done s s' res \<and>
    dpc_ready sent' r' s' \<and> length (snd res) \<le> 0x414"
proof -
  let ?n = "word_of_nat (length d div 4) :: 64 word"
  let ?p1 = "p + length (uleb_bytes fl)" 
  let ?p2 = "?p1 + length (uleb_bytes ?n)"
  let ?q = "p + length (uleb_bytes fl @ uleb_bytes ?n @ d)"
  have rdy: "reply_ready (rp s)" and op: "port_open sent r (dev s)" using assms(1) by (simp_all add: dpc_ready_def)
  have tab: "k_idpc h = Some (idpc tick)" using assms(6) by (simp add: packet_table_def)
  note wc = word_count [OF assms(7,8)]
  note at = assms(3) [unfolded bytes_at_append]
  have len: "buf_len (cl s) \<le> length (rx_buf (cl s))" "buf_len (cl s) \<le> max_packet_len" "buf_addr (cl s) + 2 * max_packet_len < 2 ^ 64"
    using assms(1) by (simp_all add: dpc_ready_def)
  have g1: "get_uleb128 (rx_buf (cl s)) (buf_len (cl s)) p = Inr (fl, ?p1)"
    using at assms(4) len by (intro get_uleb128_at) simp_all
  have g2: "get_uleb128 (rx_buf (cl s)) (buf_len (cl s)) ?p1 = Inr (?n, ?p2)"
    using at assms(4) len by (intro get_uleb128_at) simp_all
  have q: "?p2 + length d = ?q" by simp
  have pa: "ptr_add s ?p2 (unat (?n * 4)) = Inr ?q"
    unfolding wc(3) using assms(4) len by (simp add: ptr_add_def)
  let ?buf = "drop ?p2 (rx_buf (cl s))"
  have d: "take (4 * unat ?n) ?buf = d" "4 * unat ?n \<le> length ?buf"
  proof -
    have "take (length d) ?buf = d" "?p2 + length d \<le> length (rx_buf (cl s))" using at by (simp_all add: bytes_at_def)
    then show "take (4 * unat ?n) ?buf = d" "4 * unat ?n \<le> length ?buf" unfolding wc(1,2) by (simp_all add: le_diff_conv2)
  qed
  have n: "unat ?n \<le> 260" using wc(1) assms(8) by simp
  have cmd: "cmd_idpc h s cbuf p = and_then (call_idpc h (ucast fl) ?n ?p2 s) (\<lambda>s1. Inr (Reply_with_status s1 ?q))"
    using assms(4) pa by (simp add: cmd_idpc_def g1 g2)
  have status: "\<exists>s'. and_then (cmd_idpc h s cbuf p) (finish cbuf) = Inr (Next s' ?q) \<and>
      packet_done s s' (abs_port s1, [if pending_error (cl s1) \<noteq> [] then 1 else 0])"
    if "call_idpc h (ucast fl) ?n ?p2 s = Inr s1" "rp s1 = rp s" "client_frame (cl s) (cl s1)" "rx_buf (cl s1) = rx_buf (cl s)" for s1
  proof -
    have "appended (rp s) [] (rp s1)" using that(2) rdy by (simp add: appended_refl)
    from finish_packet [OF this _ that(3,4), of cbuf ?q] show ?thesis using assms(5) that(1) by (auto simp: cmd)
  qed
  show ?thesis
  proof (cases "ok s")
    case False
    then have pe: "pending_error (cl s) \<noteq> []" by (simp add: ok_def)
    have "call_idpc h (ucast fl) ?n ?p2 s = Inr s" using False by (simp add: call_idpc_def tab)
    from status [OF this] obtain s' where s': "and_then (cmd_idpc h s cbuf p) (finish cbuf) = Inr (Next s' ?q)"
      "packet_done s s' (abs_port s, [1])" using pe by auto
    have "packet_exec tick (Send_packet fl d) (abs_port s) = Inr (abs_port s, [1])" using pe by (simp add: abs_port_def)
    moreover have "dpc_ready sent r s'" by (rule dpc_ready_done [OF assms(1) s'(2)]) (simp add: op abs_port_def)
    ultimately show ?thesis using s' by fastforce
  next
    case True
    then have pe: "pending_error (cl s) = []" by (simp add: ok_def)
    from dma_engine.idpc_spec [OF assms(2) op n d(2), of "ucast fl"] obtain x e sent' where
      i: "idpc tick (dev s) (ucast fl) ?n ?buf = Inr (x, e)" "port_open sent' r x" by blast
    from i(1) n obtain rv where "e = (if rv \<noteq> 0 then Some (err_ingress rv) else None)"
      by (auto simp: idpc_def max_packet_size_def and_then_eq_Inr)
    then have e: "e = None \<or> (\<exists>rv. e = Some (err_ingress rv))" by auto
    define s1 where "s1 = report e (s\<lparr>dev := x\<rparr>)"
    have s1: "call_idpc h (ucast fl) ?n ?p2 s = Inr s1" "rp s1 = rp s" "client_frame (cl s) (cl s1)" "rx_buf (cl s1) = rx_buf (cl s)"
      using True i(1) by (simp_all add: call_idpc_def tab s1_def)
    have e1: "pending_error (cl s1) = (case e of None \<Rightarrow> [] | Some m \<Rightarrow> take 1023 (cstring m))" "dev s1 = x"
      by (simp_all add: s1_def report_def set_error_def pe split: option.split)
    have nz: "take 1023 (cstring (err_ingress rv)) \<noteq> []" for rv by (simp add: err_ingress_def bytes_of_def cstring_def)
    from status [OF s1] obtain s' where s': "and_then (cmd_idpc h s cbuf p) (finish cbuf) = Inr (Next s' ?q)"
      "packet_done s s' (abs_port s1, [if pending_error (cl s1) \<noteq> [] then 1 else 0])" by blast
    have "idpc tick (dev s) (ucast fl) ?n d = Inr (x, e)" using idpc_cut [OF n d(2), of tick "dev s" "ucast fl"] i(1) d(1) by simp
    then have "packet_exec tick (Send_packet fl d) (abs_port s) =
        Inr (abs_port s1, [if pending_error (cl s1) \<noteq> [] then 1 else 0])"
      using pe e nz by (auto simp: abs_port_def act_def e1)
    moreover have "dpc_ready sent' r s'" by (rule dpc_ready_done [OF assms(1) s'(2)]) (simp add: i(2) abs_port_def e1)
    ultimately show ?thesis using s' by fastforce
  qed
qed

lemma packet_command:
  assumes "dpc_ready sent r s" "dma_engine tick" "bytes_at (rx_buf (cl s)) cbuf (packet_encode pq)"
    and "cbuf + length (packet_encode pq) \<le> buf_len (cl s)" "reply_len (rp s) + 0x420 \<le> max_packet_len"
    and "packet_table tick h" "packet_fits pq"
  shows "\<exists>res sent' r' s'. packet_exec tick pq (abs_port s) = Inr res \<and>
    dpc_iteration h s cbuf = Inr (Next s' (cbuf + length (packet_encode pq))) \<and> packet_done s s' res \<and>
    dpc_ready sent' r' s' \<and> length (snd res) \<le> 0x414"
proof (cases pq)
  case (Send_packet fl d)
  let ?args = "uleb_bytes fl @ uleb_bytes (word_of_nat (length d div 4)) @ d"
  have b: "bytes_at (rx_buf (cl s)) cbuf (bytes_of ''idpc'' @ [0x3A])" "bytes_at (rx_buf (cl s)) (cbuf + 5) ?args"
    using assms(3) unfolding Send_packet packet_encode.simps bytes_at_append [of _ _ "bytes_of ''idpc:''"] packet_names(1,2)
      packet_names(3,4) [symmetric] by blast+
  have "length (packet_encode pq) = 5 + length ?args" by (simp add: Send_packet bytes_of_def)
  with assms(4) have l: "cbuf + 5 + length ?args \<le> buf_len (cl s)" "cbuf + length (packet_encode pq) = cbuf + 5 + length ?args" by simp_all
  have "dpc_one_command h s cbuf = dpc_dispatch h s cbuf (cbuf + length (bytes_of ''idpc'') + 1) (bytes_of ''idpc'' @ [0x3A])"
    by (rule dpc_header [OF b(1)]) (use l(1) in \<open>simp_all add: bytes_of_def\<close>)
  moreover have "length (bytes_of ''idpc'') + 1 = 5" by (simp add: bytes_of_def)
  then have "cbuf + length (bytes_of ''idpc'') + 1 = cbuf + 5" by linarith
  ultimately have "dpc_one_command h s cbuf = dpc_dispatch h s cbuf (cbuf + 5) (bytes_of ''idpc'' @ [0x3A])"
    by (simp only:)
  then have one: "dpc_one_command h s cbuf = cmd_idpc h s cbuf (cbuf + 5)"
    using assms(6) by (simp add: dpc_dispatch_def bytes_of_def packet_table_def)
  have "4 dvd length d" "length d \<le> 0x410" using assms(7) by (simp_all add: Send_packet)
  from run_send [OF assms(1,2) b(2) l(1) assms(5,6) this, of cbuf] show ?thesis
    unfolding dpc_iteration_def one l(2) unfolding Send_packet .
next
  case (Fetch_packet fl)
  have b: "bytes_at (rx_buf (cl s)) cbuf (bytes_of ''edpc'' @ [0x3A])" "bytes_at (rx_buf (cl s)) (cbuf + 5) (uleb_bytes fl)"
    using assms(3) unfolding Fetch_packet packet_encode.simps bytes_at_append [of _ _ "bytes_of ''edpc:''"] packet_names(1,2)
      packet_names(3,4) [symmetric] by blast+
  have "length (packet_encode pq) = 5 + length (uleb_bytes fl)" by (simp add: Fetch_packet bytes_of_def)
  with assms(4) have l: "cbuf + 5 + length (uleb_bytes fl) \<le> buf_len (cl s)"
    "cbuf + length (packet_encode pq) = cbuf + 5 + length (uleb_bytes fl)" by simp_all
  have "dpc_one_command h s cbuf = dpc_dispatch h s cbuf (cbuf + length (bytes_of ''edpc'') + 1) (bytes_of ''edpc'' @ [0x3A])"
    by (rule dpc_header [OF b(1)]) (use l(1) in \<open>simp_all add: bytes_of_def\<close>)
  moreover have "length (bytes_of ''edpc'') + 1 = 5" by (simp add: bytes_of_def)
  then have "cbuf + length (bytes_of ''edpc'') + 1 = cbuf + 5" by linarith
  ultimately have "dpc_one_command h s cbuf = dpc_dispatch h s cbuf (cbuf + 5) (bytes_of ''edpc'' @ [0x3A])"
    by (simp only:)
  then have one: "dpc_one_command h s cbuf = cmd_edpc h s cbuf (cbuf + 5)"
    using assms(6) by (simp add: dpc_dispatch_def bytes_of_def packet_table_def)
  from run_fetch [OF assms(1,2) b(2) l(1) assms(5,6), of cbuf] show ?thesis
    unfolding dpc_iteration_def one l(2) unfolding Fetch_packet .
qed

end
