(* ===== verification/Dpc_Props.thy ===== *)
theory Dpc_Props
  imports Dpc_Channel
begin

unbundle bit_operations_syntax

text \<open>
  What the packet channel of the DPC server guarantees: queues in both directions, progress, and a
  port that opens with empty queues.
\<close>

section \<open>A sample port\<close>

text \<open>Empty rings at address 0x1000; \<open>ps\<close> are packets the reference engine will deliver.\<close>

definition sample_dma :: "byte list list \<Rightarrow> byte list list dma" where
  "sample_dma ps = \<lparr>win_phys = 0x1000, window = replicate 0x2280 0,
     idescs = replicate 4 \<lparr>d_next = 0, d_buff = 0, d_cntl = 0, d_sts = 0x80000000\<rparr>,
     edescs = map (\<lambda>k. \<lparr>d_next = 0, d_buff = word_of_nat (0x1000 + eslot k), d_cntl = packet_cntl 0x410, d_sts = 0\<rparr>) [0..<4],
     i_cntl = 1, i_cur = 0, i_tail = 0, e_cntl = 1, e_cur = 0, e_tail = 0, i_status = 0, e_status = 0,
     consumed = [], produced = [], env = ps\<rparr>"

definition sample_hsdp :: hsdp_dma where
  "sample_hsdp = \<lparr>ipkts = \<lparr>axi_base = 0x1200, offset = 0x200, buffer_size = 0x1040, packet_size = 0x410, last_idx = - 1\<rparr>,
     epkts = \<lparr>axi_base = 0x2240, offset = 0x1240, buffer_size = 0x1040, packet_size = 0x410, last_idx = - 1\<rparr>,
     idesc = \<lparr>axi_base = 0x1000, offset = 0, buffer_size = 0x100, packet_size = 0x40, last_idx = - 1\<rparr>,
     edesc = \<lparr>axi_base = 0x1100, offset = 0x100, buffer_size = 0x100, packet_size = 0x40, last_idx = 3\<rparr>\<rparr>"

definition sample_lib :: hsdp_lib where
  "sample_lib = hsdp_lib0\<lparr>buffer_phys_addr := 0x1000, data_size := 0x3000, dma_buffer := Some 0, data_buffer := Some 1,
     mmap_buffers := [\<lparr>physical = 0xA4000000, lb_size = 0x1000\<rparr>, \<lparr>physical = 0x1000, lb_size = 0x3000\<rparr>]\<rparr>"

definition sample_port :: "byte list list \<Rightarrow> byte list list xvc_dpc" where
  "sample_port ps = \<lparr>hsdp = sample_hsdp, dma_region = \<lparr>r_addr = 0xA4000000, r_size = 0\<rparr>,
     buf_region = \<lparr>r_addr = 0x1000, r_size = 0x3000\<rparr>, lib = sample_lib, mem = sample_dma ps\<rparr>"

lemma sample_laid_out: "laid_out 0x1000 sample_hsdp"
  by (simp add: laid_out_def sample_hsdp_def)

lemma sample_rings: "rings [] 0 (sample_dma ps)"
proof (rule ref.configured_rings [where h = sample_hsdp])
  have "\<not> bit (1 :: 32 word) 2" by (simp add: bit_1_iff)
  then show "idle_in (sample_dma ps)" by (simp add: idle_in_def sample_dma_def sts_done_def)
  fix j :: nat assume j: "j < 4"
  then have "eslot j = 0x1240 + 0x410 * j" by (simp add: eslot_def)
  moreover have "edescs (sample_dma ps) ! j =
      \<lparr>d_next = 0, d_buff = word_of_nat (0x1000 + eslot j), d_cntl = packet_cntl 0x410, d_sts = 0\<rparr>"
    unfolding sample_dma_def dma.select_convs using j by (subst nth_map_upt) simp_all
  ultimately show "d_sts (edescs (sample_dma ps) ! j) = 0 \<and>
      d_buff (edescs (sample_dma ps) ! j) = axi_addr (epkts sample_hsdp) j \<and>
      d_cntl (edescs (sample_dma ps) ! j) = packet_cntl (packet_size (epkts sample_hsdp))"
    by (simp add: axi_addr_def sample_hsdp_def algebra_simps)
qed (simp_all add: sample_dma_def window_ok_def sample_laid_out)

lemma sample_port_open: "port_open [] 0 (sample_port ps)"
proof -
  have "host_ok 0x1000 [] 0 sample_hsdp"
    using sample_laid_out by (simp add: host_ok_def hsdp_next_def sample_hsdp_def)
  then show ?thesis
    using sample_rings [of ps]
    by (simp add: port_open_def sample_port_def sample_lib_def) (simp add: sample_dma_def)
qed

section \<open>The channel\<close>


definition sample_calls :: "action list" where
  "sample_calls = [Idpc 0 1 [1, 2, 3, 4], Edpc 0, Idpc 0 0 [], Edpc 0]"



text \<open>C13. A connection starts with empty queues, whatever packets the connection before left in the rings,
  and whatever the memory holds when it is mapped the first time; the assertion on the number of
  mappings never fails. The other outcomes are that the program exits because a mapping is
  refused, that the allocation of the handle fails, and that the engine never reports its reset or its start.\<close>

theorem dpc_open_port_empties:
  assumes "dma_engine tick" "port_closed x" "memory_shown shown x"
  shows "(\<exists>f. dpc_open_port tick os shown x = Inl f \<and> open_fault tick os x f) \<or>
    (\<exists>x'. dpc_open_port tick os shown x = Inr (0, x', None) \<and> port_open [] 0 x' \<and> port_closed (dpc_close_port x'))"
  using dma_engine.open_port_spec [OF assms, of os] port_open_closed by blast

definition sample_os :: dpc_os where
  "sample_os = \<lparr>devmem_opens = True, maps = \<lambda>a n. True, allocates = True\<rparr>"

definition sample_shown :: "byte list list shown" where
  "sample_shown a b = (sample_dma [])\<lparr>win_phys := unat (physical b)\<rparr>"

lemma sample_memory: "physical (buf_config x) = 0x1000 \<Longrightarrow> memory_shown sample_shown x"
proof -
  assume "physical (buf_config x) = 0x1000"
  moreover have "length (map f [0..<4]) = 4" for f :: "nat \<Rightarrow> desc" by simp
  ultimately show "memory_shown sample_shown x"
    by (simp add: memory_shown_def shows_rings_def sample_shown_def sample_dma_def window_ok_def)
qed

lemma sample_fresh: "port_closed ((sample_port [])\<lparr>lib := hsdp_lib0\<rparr>)"
    "memory_shown sample_shown ((sample_port [])\<lparr>lib := hsdp_lib0\<rparr>)"
  by (simp add: port_closed_def hsdp_lib0_def) (rule sample_memory, simp add: buf_config_def sample_port_def)

theorem dpc_open_port_empties_witness:
  "(\<exists>f. dpc_open_port ref_tick sample_os sample_shown ((sample_port [])\<lparr>lib := hsdp_lib0\<rparr>) = Inl f \<and> open_fault ref_tick sample_os ((sample_port [])\<lparr>lib := hsdp_lib0\<rparr>) f) \<or>
   (\<exists>x'. dpc_open_port ref_tick sample_os sample_shown ((sample_port [])\<lparr>lib := hsdp_lib0\<rparr>) = Inr (0, x', None) \<and> port_open [] 0 x')"
  using dpc_open_port_empties [OF ref.dma_engine_axioms sample_fresh, of sample_os] by blast

section \<open>An engine that answers\<close>

text \<open>The two loops of \<open>hsdp_setup_dma\<close> that wait for the engine return when it ever answers.\<close>

lemma await_reset_returns:
  assumes "i_cntl ((tick ^^ Suc n) s) AND 4 = 0"
  shows "await_reset tick s \<noteq> None"
  using assms
proof (induction n arbitrary: s)
  case (Suc n)
  have "i_cntl ((tick ^^ Suc n) (tick s)) AND 4 = 0" using Suc.prems by (simp only: funpow_Suc_right o_apply)
  from Suc.IH [OF this] show ?case by (subst await_reset.simps) (simp add: Let_def)
qed (subst await_reset.simps, simp add: Let_def)

lemma await_egress_returns:
  assumes "e_status ((tick ^^ Suc n) s) AND 1 = 0"
  shows "await_egress tick s \<noteq> None"
  using assms
proof (induction n arbitrary: s)
  case (Suc n)
  have "e_status ((tick ^^ Suc n) (tick s)) AND 1 = 0" using Suc.prems by (simp only: funpow_Suc_right o_apply)
  from Suc.IH [OF this] show ?case by (subst await_egress.simps) (simp add: Let_def)
qed (subst await_egress.simps, simp add: Let_def)

definition answers :: "'h tick \<Rightarrow> bool" where
  "answers tick \<longleftrightarrow> (\<forall>s. (\<exists>n. i_cntl ((tick ^^ Suc n) s) AND 4 = 0) \<and> (\<exists>n. e_status ((tick ^^ Suc n) s) AND 1 = 0))"

lemma setup_loops_fault:
  "setup_ingress tick h n i m s \<noteq> Inl Hang" "setup_egress tick h n i m s \<noteq> Inl Hang"
  by (induction m arbitrary: i s)
     (auto simp: and_then_eq_Inl write_idesc_def write_edesc_def Let_def)

lemma setup_returns:
  assumes "answers tick"
  shows "hsdp_setup_dma tick h s \<noteq> Inl Hang"
proof -
  have "await_reset tick t \<noteq> None" "await_egress tick t \<noteq> None" for t
    using assms await_reset_returns [of _ tick t] await_egress_returns [of _ tick t] by (auto simp: answers_def)
  then have "returned (await_reset tick t) \<noteq> Inl Hang" "returned (await_egress tick t) \<noteq> Inl Hang" for t
    by (auto simp: returned_def split: option.split)
  then show ?thesis
    by (auto simp: hsdp_setup_dma_def Let_def and_then_eq_Inl setup_loops_fault ensure_eq_Inl)
qed

text \<open>\<open>open_port\<close> returns 0 when the mappings and the handle can be had and the engine answers at some
  time: both loops that wait for the engine end, and both queues are empty.\<close>

lemma open_port_returns:
  assumes "dma_engine tick" "answers tick" "port_closed x" "memory_shown shown x" "grants os x" "allocates os"
  shows "\<exists>x'. dpc_open_port tick os shown x = Inr (0, x', None) \<and> port_open [] 0 x'"
proof -
  have "\<not> open_fault tick os x f" for f using assms(5,6) setup_returns [OF assms(2)] by (simp add: open_fault_def)
  with dma_engine.open_port_spec [OF assms(1,3,4), of os] show ?thesis by blast
qed

text \<open>The reference engine, reporting at once that it has started.\<close>

definition prompt_tick :: "byte list list dma \<Rightarrow> byte list list dma" where
  "prompt_tick s = (ref_tick s)\<lparr>e_status := 0\<rparr>"

interpretation prompt: dma_engine prompt_tick
proof
  fix s :: "byte list list dma"
  let ?t = "ref_tick s"
  have "hw_step ?t (?t\<lparr>i_cntl := i_cntl ?t, e_cntl := e_cntl ?t, i_cur := i_cur ?t, e_cur := e_cur ?t,
      i_status := i_status ?t, e_status := 0, env := env ?t\<rparr>)" by (rule registers) simp_all
  then have "hw_step ?t (prompt_tick s)" by (simp add: prompt_tick_def)
  then show "hw_steps s (prompt_tick s)" by (rule rtranclp.rtrancl_into_rtrancl [OF ref.tick])
qed

lemma and_4: "\<not> bit (w :: 32 word) 2 \<Longrightarrow> w AND 4 = 0"
  using and_exp_eq_0_iff_not_bit [of w 2] by simp

lemma ref_tick_cntl: "i_cntl (ref_tick s) = (if bit (i_cntl s) 2 then 0 else i_cntl s)"
proof -
  have "i_cntl (ref_deliver t) = i_cntl t" "i_cntl (ref_take t) = i_cntl t" for t
    by (simp_all add: ref_deliver_def deliver_def ref_take_def Let_def split: list.split sum.split)
  then show ?thesis by (simp add: ref_tick_def ref_reset_def)
qed

lemma prompt_answers: "answers prompt_tick"
proof -
  have "i_cntl ((prompt_tick ^^ Suc 0) s) AND 4 = 0" "e_status ((prompt_tick ^^ Suc 0) s) AND 1 = 0" for s
    by (simp_all add: prompt_tick_def ref_tick_cntl and_4)
  then show ?thesis unfolding answers_def by blast
qed

abbreviation sample_closed :: "byte list list xvc_dpc" where
  "sample_closed \<equiv> (sample_port [])\<lparr>lib := hsdp_lib0\<rparr>"

lemma sample_grants: "grants sample_os x" "allocates sample_os"
  by (simp_all add: grants_def sample_os_def)

end
