(* ===== verification/Dpc_Stream.thy ===== *)
theory Dpc_Stream
  imports Dpc_Commands Dpc_Props
begin

text \<open>
  Whole connections to the DPC server: the client sends batches of packet commands, one batch per segment,
  and closes. The engine of \<open>dpc/src/xvcserver.c\<close> sends one reply per batch, the one of the abstract
  server.
\<close>

definition packet_encodes :: "packet_request list \<Rightarrow> byte list" where
  "packet_encodes qs = concat (map packet_encode qs)"

lemma packet_encodes_simps [simp]:
  "packet_encodes [] = []" "packet_encodes (q # qs) = packet_encode q @ packet_encodes qs"
  by (simp_all add: packet_encodes_def)

primrec packet_batches ::
    "'h tick \<Rightarrow> packet_request list list \<Rightarrow> byte list \<times> 'h xvc_dpc \<Rightarrow> ((byte list \<times> 'h xvc_dpc) \<times> byte list list) res" where
  "packet_batches tick [] st = Inr (st, [])"
| "packet_batches tick (b # bs) st =
     and_then (packet_exec_all tick b st) (\<lambda>(st1, out). and_then (packet_batches tick bs st1) (\<lambda>(st2, outs).
       Inr (st2, out # outs)))"

text \<open>A batch fits the receive buffer, and its replies the reply buffer.\<close>

definition batch_ok :: "packet_request list \<Rightarrow> bool" where
  "batch_ok b \<longleftrightarrow> b \<noteq> [] \<and> length b \<le> 9 \<and> length (packet_encodes b) \<le> max_packet_len \<and> (\<forall>q \<in> set b. packet_fits q)"

section \<open>The command loop\<close>

lemma loop_at_end: "dpc_command_loop h s (buf_len (cl s)) = Inr (Broke s (buf_len (cl s)) True)"
  by (simp add: dpc_command_loop.simps [of h] dpc_iteration_def dpc_one_command_def Let_def find_colon.simps finish_def)

lemma packet_done_trans:
  assumes "packet_done s s1 res1" "packet_done s1 s2 (st2, out2)"
  shows "packet_done s s2 (st2, snd res1 @ out2)"
  using assms by (auto simp: packet_done_def intro: appended_trans client_frame_trans)

lemma loop_packets:
  assumes "dma_engine tick" "packet_table tick h" "dpc_ready sent r s" "bytes_at (rx_buf (cl s)) cbuf (packet_encodes qs)"
    and "cbuf + length (packet_encodes qs) = buf_len (cl s)" "reply_len (rp s) + 0x414 * length qs + 12 \<le> max_packet_len"
    and "\<forall>q \<in> set qs. packet_fits q"
  shows "\<exists>res sent' r' s'. packet_exec_all tick qs (abs_port s) = Inr res \<and>
    dpc_command_loop h s cbuf = Inr (Broke s' (buf_len (cl s)) True) \<and> packet_done s s' res \<and> dpc_ready sent' r' s' \<and>
    length (snd res) \<le> 0x414 * length qs"
  using assms(3-)
proof (induction qs arbitrary: sent r s cbuf)
  case Nil
  then have "packet_done s s (abs_port s, [])" by (simp add: packet_done_def dpc_ready_def appended_refl)
  moreover have "cbuf = buf_len (cl s)" using Nil.prems(3) by simp
  ultimately show ?case using Nil.prems(1) loop_at_end [of h s] by auto
next
  case (Cons q qs)
  note at = Cons.prems(2) [unfolded packet_encodes_simps bytes_at_append]
  have l: "cbuf + length (packet_encode q) \<le> buf_len (cl s)" "reply_len (rp s) + 0x420 \<le> max_packet_len" "packet_fits q"
    using Cons.prems(3-5) by simp_all
  from packet_command [OF Cons.prems(1) assms(1) conjunct1 [OF at] l(1,2) assms(2) l(3)] obtain res sent1 r1 s1 where
    1: "packet_exec tick q (abs_port s) = Inr res" "dpc_iteration h s cbuf = Inr (Next s1 (cbuf + length (packet_encode q)))"
      "packet_done s s1 res" "dpc_ready sent1 r1 s1" "length (snd res) \<le> 0x414" by blast
  have f: "rx_buf (cl s1) = rx_buf (cl s)" "buf_len (cl s1) = buf_len (cl s)" "abs_port s1 = fst res"
    "reply_len (rp s1) = reply_len (rp s) + length (snd res)"
    using 1(3) by (simp_all add: packet_done_def client_frame_def appended_len)
  from Cons.IH [OF 1(4), of "cbuf + length (packet_encode q)"] at Cons.prems(3-5) f 1(5) obtain res2 sent2 r2 s2 where
    2: "packet_exec_all tick qs (fst res) = Inr res2" "packet_done s1 s2 res2" "dpc_ready sent2 r2 s2" "length (snd res2) \<le> 0x414 * length qs"
      "dpc_command_loop h s1 (cbuf + length (packet_encode q)) = Inr (Broke s2 (buf_len (cl s)) True)" by auto
  have "dpc_command_loop h s cbuf = Inr (Broke s2 (buf_len (cl s)) True)"
    using 2(5) by (simp add: dpc_command_loop.simps [of h s cbuf] 1(2))
  moreover have "packet_exec_all tick (q # qs) (abs_port s) = Inr (fst res2, snd res @ snd res2)"
    using 1(1) 2(1) by (simp add: case_prod_beta)
  moreover have "packet_done s s2 (fst res2, snd res @ snd res2)"
    using packet_done_trans [OF 1(3), of s2 "fst res2" "snd res2"] 2(2) by simp
  moreover have "length (snd (fst res2, snd res @ snd res2)) \<le> 0x414 * length (q # qs)" using 1(5) 2(4) by simp
  ultimately show ?case using 2(3) by blast
qed

section \<open>A batch\<close>

text \<open>The state between batches: everything received was used up.\<close>

definition dpc_idle :: "'h xvc_dpc srv \<Rightarrow> bool" where
  "dpc_idle s \<longleftrightarrow> (\<exists>sent r. dpc_ready sent r s) \<and> buf_len (cl s) = 0"

lemma dpc_ready_len0: "dpc_ready sent r s \<Longrightarrow> dpc_ready sent r (s\<lparr>rp := (rp s)\<lparr>reply_len := 0\<rparr>\<rparr>)"
  by (simp add: dpc_ready_def reply_ready_def reply_wf_def)

lemma send_reply:
  assumes "reply_ready (rp s)" "reply_len (rp s) \<le> max_packet_len" "0 < sends_ok k"
  shows "send_packet s k = Inr (True, k\<lparr>tx := tx k @ [reply_bytes (rp s)], sends_ok := sends_ok k - 1\<rparr>)"
  using assms
  by (simp add: send_packet_def read_range_ok reply_ready_def reply_wf_def reply_bytes_def sock_send_def)

lemma consume_all:
  assumes "buf_len (cl s) \<le> length (rx_buf (cl s))"
  shows "consume_packet (buf_len (cl s)) s = Inr (s\<lparr>cl := (cl s)\<lparr>buf_len := 0\<rparr>\<rparr>)"
  by (simp add: consume_packet_def read_range_def write_at_def)

lemma turn_batch:
  assumes "dma_engine tick" "packet_table tick h" "dpc_ready sent r s" "bytes_at (rx_buf (cl s)) 0 (packet_encodes b)"
    and "length (packet_encodes b) = buf_len (cl s)" "batch_ok b" "0 < sends_ok k" "0 < buf_len (cl s)"
  shows "\<exists>st out s'. packet_exec_all tick b (abs_port s) = Inr (st, out) \<and> dpc_idle s' \<and> abs_port s' = st \<and>
    dpc_turn h s k = receive s' (k\<lparr>tx := tx k @ [out], sends_ok := sends_ok k - 1\<rparr>)"
proof -
  let ?s0 = "s\<lparr>rp := (rp s)\<lparr>reply_len := 0\<rparr>\<rparr>"
  have "0x414 * length b + 12 \<le> max_packet_len"
    using assms(6) by (simp add: batch_ok_def max_packet_len_def)
  then obtain res sent' r' s1 where
    1: "packet_exec_all tick b (abs_port ?s0) = Inr res" "dpc_command_loop h ?s0 0 = Inr (Broke s1 (buf_len (cl ?s0)) True)"
      "packet_done ?s0 s1 res" "dpc_ready sent' r' s1" "length (snd res) \<le> 0x414 * length b"
    using loop_packets [OF assms(1,2) dpc_ready_len0 [OF assms(3)], of 0 b] assms(4-6) by (auto simp: batch_ok_def)
  have "reply_bytes (rp ?s0) = []" by (simp add: reply_bytes_def)
  with 1(3) have f: "buf_len (cl s1) = buf_len (cl s)" "abs_port s1 = fst res" "reply_bytes (rp s1) = snd res"
    "reply_len (rp s1) = length (snd res)"
    by (simp_all add: packet_done_def client_frame_def appended_def)
  have "reply_len (rp s1) \<le> max_packet_len" using f(4) 1(5) assms(6) by (simp add: batch_ok_def max_packet_len_def)
  then have send: "send_packet s1 k = Inr (True, k\<lparr>tx := tx k @ [snd res], sends_ok := sends_ok k - 1\<rparr>)"
    using send_reply [of s1 k] 1(4) assms(7) by (simp add: dpc_ready_def f(3))
  define s2 where "s2 = s1\<lparr>cl := (cl s1)\<lparr>buf_len := 0\<rparr>\<rparr>"
  have con: "consume_packet (buf_len (cl s)) s1 = Inr s2"
    using consume_all [of s1] 1(4) by (simp add: dpc_ready_def f(1) s2_def)
  have fl: "dpc_flush h s1 = (0, s1)" using assms(2) by (simp add: dpc_flush_def packet_table_def)
  have "dpc_turn h s k = receive s2 (k\<lparr>tx := tx k @ [snd res], sends_ok := sends_ok k - 1\<rparr>)"
    using 1(2) assms(8) by (simp add: dpc_turn_def dpc_after_commands_def fl send con)
  moreover have "dpc_ready sent' r' s2" using 1(4) by (simp add: dpc_ready_def s2_def)
  then have "dpc_idle s2" by (auto simp: dpc_idle_def s2_def)
  moreover have "abs_port s2 = fst res" using f(2) by (simp add: abs_port_def s2_def)
  moreover have "packet_exec_all tick b (abs_port s) = Inr (fst res, snd res)" using 1(1) by (simp add: abs_port_def)
  ultimately show ?thesis by blast
qed

text \<open>From one \<open>recv\<close> to the end of the connection.\<close>

definition dpc_rest :: "'d dpc_table \<Rightarrow> 'd turn res \<Rightarrow> ('d srv \<times> sock \<times> ended) res" where
  "dpc_rest h t = and_then t (\<lambda>t. case t of Read_more s' k' \<Rightarrow> dpc_read_more h s' k' | Finished s' k' e \<Rightarrow> Inr (s', k', e))"

lemma dpc_read_more_turn: "dpc_read_more h s k = dpc_rest h (dpc_turn h s k)"
  by (simp add: dpc_read_more.simps [of h s k] dpc_rest_def)

lemma batch_bytes: "batch_ok b \<Longrightarrow> packet_encodes b \<noteq> []"
proof -
  have "packet_encode q \<noteq> []" for q by (cases q) (simp_all add: bytes_of_def)
  then show "batch_ok b \<Longrightarrow> packet_encodes b \<noteq> []" by (cases b) (simp_all add: batch_ok_def)
qed

lemma rest_batches:
  assumes "dma_engine tick" "packet_table tick h" "dpc_idle s" "rx k = map packet_encodes bs" "\<not> rx_error k"
    and "length bs \<le> sends_ok k" "\<forall>b \<in> set bs. batch_ok b"
  shows "\<exists>st outs s' k'. packet_batches tick bs (abs_port s) = Inr (st, outs) \<and>
    dpc_rest h (receive s k) = Inr (s', k', Returned) \<and> abs_port s' = st \<and> tx k' = tx k @ outs \<and>
    (\<exists>sent r. port_open sent r (dev s'))"
  using assms(3-)
proof (induction bs arbitrary: s k)
  case Nil
  then have "receive s k = Inr (Finished s k Returned)"
    by (auto simp: receive_def sock_recv_def dpc_idle_def dpc_ready_def max_packet_len_def)
  then show ?case using Nil.prems(1) by (auto simp: dpc_rest_def dpc_idle_def dpc_ready_def)
next
  case (Cons b bs)
  let ?seg = "packet_encodes b"
  have b: "batch_ok b" "?seg \<noteq> []" "length ?seg \<le> max_packet_len" using Cons.prems(5) batch_bytes [of b] by (simp_all add: batch_ok_def)
  obtain sent r where rd: "dpc_ready sent r s" and z: "buf_len (cl s) = 0" using Cons.prems(1) by (auto simp: dpc_idle_def)
  have m: "buf_max (cl s) = max_packet_len" "length (rx_buf (cl s)) = max_packet_len" using rd by (simp_all add: dpc_ready_def)
  define k1 where "k1 = k\<lparr>rx := map packet_encodes bs\<rparr>"
  have rcv: "sock_recv (buf_max (cl s) - buf_len (cl s)) k = (Got ?seg, k1)"
    using b m Cons.prems(2) z by (simp add: sock_recv_def k1_def max_packet_len_def)
  define s1 where "s1 = s\<lparr>cl := (cl s)\<lparr>rx_buf := ?seg @ drop (length ?seg) (rx_buf (cl s)), buf_len := length ?seg\<rparr>\<rparr>"
  have "write_at (rx_buf (cl s)) 0 ?seg = Inr (?seg @ drop (length ?seg) (rx_buf (cl s)))" using b(3) m by (simp add: write_at_def)
  then have rm: "receive s k = Inr (Read_more s1 k1)" unfolding receive_def rcv s1_def using z by simp
  have rd1: "dpc_ready sent r s1" using rd b(3) m by (simp add: dpc_ready_def s1_def)
  have at1: "bytes_at (rx_buf (cl s1)) 0 ?seg" by (simp add: bytes_at_def s1_def)
  have "length ?seg = buf_len (cl s1)" "0 < sends_ok k1" "0 < buf_len (cl s1)"
    using Cons.prems(4) b(2) by (simp_all add: s1_def k1_def)
  from turn_batch [OF assms(1,2) rd1 at1 this(1) b(1) this(2,3)] obtain st out s2 where
    t: "packet_exec_all tick b (abs_port s1) = Inr (st, out)" "dpc_idle s2" "abs_port s2 = st"
      "dpc_turn h s1 k1 = receive s2 (k1\<lparr>tx := tx k1 @ [out], sends_ok := sends_ok k1 - 1\<rparr>)" by blast
  let ?k2 = "k1\<lparr>tx := tx k1 @ [out], sends_ok := sends_ok k1 - 1\<rparr>"
  have k2: "rx ?k2 = map packet_encodes bs" "\<not> rx_error ?k2" "length bs \<le> sends_ok ?k2" "\<forall>b \<in> set bs. batch_ok b"
    using Cons.prems(3-5) by (simp_all add: k1_def)
  from Cons.IH [OF t(2) k2] obtain st' outs s' k' where
    i: "packet_batches tick bs st = Inr (st', outs)" "dpc_rest h (receive s2 ?k2) = Inr (s', k', Returned)" "abs_port s' = st'"
      "tx k' = tx ?k2 @ outs" "\<exists>sent r. port_open sent r (dev s')" unfolding t(3) by blast
  have "dpc_rest h (receive s k) = dpc_read_more h s1 k1" by (simp add: rm dpc_rest_def)
  also have "\<dots> = Inr (s', k', Returned)" unfolding dpc_read_more_turn t(4) by (rule i(2))
  finally have "dpc_rest h (receive s k) = Inr (s', k', Returned)" .
  moreover have "abs_port s1 = abs_port s" by (simp add: abs_port_def s1_def)
  then have "packet_batches tick (b # bs) (abs_port s) = Inr (st', out # outs)" using t(1) i(1) by simp
  ultimately show ?case using i(3-5) by (simp add: k1_def)
qed

section \<open>Connections\<close>

definition fresh_reply :: "reply \<Rightarrow> bool" where
  "fresh_reply r \<longleftrightarrow> reply_wf r \<and> reply_len r \<le> max_packet_len"

lemma reply_buffer_ready:
  assumes "reply_wf r"
  shows "\<exists>r'. reply_buf_size heap (word_of_nat max_packet_len) r = Inr r' \<and> reply_ready r'"
  using reply_buf_size_ready [OF assms, of heap] by (auto simp: max_packet_len_def)

lemma dpc_first_turn:
  assumes "buf_len (cl s) = 0"
  shows "dpc_turn h s k = receive (s\<lparr>rp := (rp s)\<lparr>reply_len := 0\<rparr>\<rparr>) k"
  using loop_at_end [of h "s\<lparr>rp := (rp s)\<lparr>reply_len := 0\<rparr>\<rparr>"] assms by (simp add: dpc_turn_def dpc_after_commands_def)

lemma dpc_handlers_table: "packet_table tick (dpc_handlers tick os shown)"
  by (simp add: packet_table_def dpc_handlers_def)

text \<open>What a connection needs: memory for its buffer, a peer, and a port that opens.\<close>

definition dpc_accepted :: "'d connection \<Rightarrow> bool" where
  "dpc_accepted k \<longleftrightarrow> peer_ok k \<and> length (c_block k) = max_packet_len \<and> c_addr k + 2 * max_packet_len < 2 ^ 64 \<and>
     \<not> rx_error (c_sock k) \<and> tx (c_sock k) = []"

text \<open>A connection of the packet server refines the abstract one: when the port opens and the client
  sends batches of packet commands, each in one segment, and closes, the server ends normally, it has
  sent one reply per batch, the replies are those of running the commands on the packet channel
  in order, and the port is closed as the last command left it.\<close>

lemma dpc_connection:
  assumes "dma_engine tick" "port_closed d" "memory_shown shown d" "dpc_accepted k" "reply_wf r"
    and "dpc_open_port tick os shown d = Inr (0, x, None)" "rx (c_sock k) = map packet_encodes bs"
    and "length bs \<le> sends_ok (c_sock k)" "\<forall>b \<in> set bs. batch_ok b"
  shows "\<exists>e x' outs k' r'. packet_batches tick bs ([], x) = Inr ((e, x'), outs) \<and>
    dpc_serve (dpc_handlers tick os shown) heap k d r fds = Inr (Served k' Returned, dpc_close_port x', r', fds) \<and>
    tx k' = outs \<and> port_closed (dpc_close_port x')"
proof -
  let ?h = "dpc_handlers tick os shown"
  have op: "port_open [] 0 x" using dma_engine.open_port_spec [OF assms(1-3), of os] assms(6) by auto
  obtain r1 where r1: "reply_buf_size heap (word_of_nat max_packet_len) r = Inr r1" "reply_ready r1"
    using reply_buffer_ready [OF assms(5)] by blast
  define s where "s = \<lparr>cl = client0 (c_addr k) (c_block k), rp = r1\<lparr>reply_len := 0\<rparr>, dev = x\<rparr>"
  have "dpc_ready [] 0 s"
    using op r1(2) assms(4) by (simp add: dpc_ready_def s_def client0_def dpc_accepted_def reply_ready_def reply_wf_def)
  then have idle: "dpc_idle s" by (auto simp: dpc_idle_def s_def client0_def)
  have sock: "\<not> rx_error (c_sock k)" "tx (c_sock k) = []" using assms(4) by (simp_all add: dpc_accepted_def)
  from rest_batches [OF assms(1) dpc_handlers_table idle assms(7) sock(1) assms(8,9), of os shown] obtain st outs s' k' where
    b: "packet_batches tick bs (abs_port s) = Inr (st, outs)" "dpc_rest ?h (receive s (c_sock k)) = Inr (s', k', Returned)"
      "abs_port s' = st" "tx k' = outs" "\<exists>sent r. port_open sent r (dev s')"
    unfolding sock(2) append_Nil by blast
  have "dpc_read_packet ?h heap \<lparr>cl = client0 (c_addr k) (c_block k), rp = r, dev = x\<rparr> (c_sock k) = Inr (s', k', Returned)"
    using r1(1) b(2) by (simp add: dpc_read_packet_def dpc_read_more_turn dpc_first_turn client0_def s_def)
  then have "dpc_serve ?h heap k d r fds = Inr (Served k' Returned, dpc_close_port (dev s'), rp s', fds)"
    using assms(4,6) by (simp add: dpc_serve_def Let_def dpc_handlers_def dpc_accepted_def report_def)
  moreover have "abs_port s = ([], x)" by (simp add: abs_port_def s_def client0_def)
  moreover have "st = (pending_error (cl s'), dev s')" using b(3) by (simp add: abs_port_def)
  moreover have "port_closed (dpc_close_port (dev s'))" using b(5) port_open_closed by blast
  ultimately show ?thesis using b(1,4) by auto
qed

definition packet_client :: "byte list list xvc_dpc connection" where
  "packet_client = \<lparr>peer_ok = True, c_block = replicate max_packet_len 0, c_addr = 0x10000,
     c_sock = \<lparr>rx = [packet_encodes [Send_packet 0 [1, 2, 3, 4], Fetch_packet 0], packet_encodes [Fetch_packet 0]],
       rx_error = False, tx = [], sends_ok = 2\<rparr>\<rparr>"

lemma dpc_connection_example:
  "\<exists>x x' outs k' r'. dpc_open_port prompt_tick sample_os sample_shown sample_closed = Inr (0, x, None) \<and>
    packet_batches prompt_tick [[Send_packet 0 [1, 2, 3, 4], Fetch_packet 0], [Fetch_packet 0]] ([], x) = Inr (x', outs) \<and>
    dpc_serve (dpc_handlers prompt_tick sample_os sample_shown) (\<lambda>_. 0) packet_client sample_closed reply0 0 =
      Inr (Served k' Returned, dpc_close_port (snd x'), r', 0) \<and> tx k' = outs"
proof -
  obtain x where x: "dpc_open_port prompt_tick sample_os sample_shown sample_closed = Inr (0, x, None)"
    using open_port_returns [OF prompt.dma_engine_axioms prompt_answers sample_fresh sample_grants] by blast
  let ?bs = "[[Send_packet 0 [1, 2, 3, 4], Fetch_packet 0], [Fetch_packet 0]]"
  have "dpc_accepted packet_client" by (simp add: dpc_accepted_def packet_client_def max_packet_len_def)
  moreover have "reply_wf reply0" by (simp add: reply_wf_def reply0_def)
  moreover have "rx (c_sock packet_client) = map packet_encodes ?bs" "length ?bs \<le> sends_ok (c_sock packet_client)"
    by (simp_all add: packet_client_def)
  moreover have "\<forall>b \<in> set ?bs. batch_ok b"
  proof -
    have "(4 :: nat) dvd Suc (Suc (Suc (Suc 0)))" by presburger
    then show ?thesis by (simp add: batch_ok_def max_packet_len_def bytes_of_def uleb_bytes.simps)
  qed
  ultimately show ?thesis
    using dpc_connection [OF prompt.dma_engine_axioms sample_fresh _ _ x, of packet_client reply0 ?bs "\<lambda>_. 0" 0] x by fastforce
qed

end
