(* ===== verification/Dpc_Protocol.thy ===== *)
theory Dpc_Protocol
  imports Dpc_Stream Mem_Stream
begin

unbundle bit_operations_syntax

text \<open>
  The whole protocol of \<open>dpc/src/xvcserver.c\<close>: its six commands with their bytes, an abstract server, and the
  lemmas that one iteration of the command loop runs a command that has arrived completely as the abstract
  server does, and leaves one that has not.
\<close>

section \<open>The abstract server\<close>

datatype dpc_request =
    Info
  | Caps
  | Setup "byte list"              \<comment> \<open>\<open>configure:\<close>\<close>
  | Last_error
  | Packet packet_request

primrec packet_name :: "packet_request \<Rightarrow> byte list" where
  "packet_name (Send_packet fl d) = bytes_of ''idpc:''"
| "packet_name (Fetch_packet fl) = bytes_of ''edpc:''"

primrec packet_args :: "packet_request \<Rightarrow> byte list" where
  "packet_args (Send_packet fl d) = uleb_bytes fl @ uleb_bytes (word_of_nat (length d div 4)) @ d"
| "packet_args (Fetch_packet fl) = uleb_bytes fl"

primrec dpc_name :: "dpc_request \<Rightarrow> byte list" where
  "dpc_name Info = bytes_of ''getinfo:''"
| "dpc_name Caps = bytes_of ''capabilities:''"
| "dpc_name (Setup cs) = bytes_of ''configure:''"
| "dpc_name Last_error = bytes_of ''error:''"
| "dpc_name (Packet q) = packet_name q"

primrec dpc_args :: "dpc_request \<Rightarrow> byte list" where
  "dpc_args Info = []"
| "dpc_args Caps = []"
| "dpc_args (Setup cs) = uleb_bytes (word_of_nat (length cs)) @ cs"
| "dpc_args Last_error = []"
| "dpc_args (Packet q) = packet_args q"

definition dpc_encode :: "dpc_request \<Rightarrow> byte list" where
  "dpc_encode q = dpc_name q @ dpc_args q"

definition dpc_caps :: "byte list" where "dpc_caps = bytes_of ''status,dpc''"

type_synonym 'h dstate = "conf \<times> 'h xvc_dpc"

primrec dpc_exec :: "'h tick \<Rightarrow> dpc_request \<Rightarrow> 'h dstate \<Rightarrow> ('h dstate \<times> byte list) res" where
  "dpc_exec tick Info st = Inr (st, getinfo_text max_packet_len)"
| "dpc_exec tick Caps st = Inr (st, uleb_bytes (word_of_nat (length dpc_caps)) @ dpc_caps)"
| "dpc_exec tick (Setup cs) st =
     (let c = conf_fold False (split_items (cstring cs)) (fst st) in Inr ((c, snd st), status_byte c))"
| "dpc_exec tick Last_error st =
     (let e = pending_error (fst st)
      in Inr (((fst st)\<lparr>pending_error := []\<rparr>, snd st), uleb_bytes (word_of_nat (length e)) @ e))"
| "dpc_exec tick (Packet q) st =
     and_then (packet_exec tick q (pending_error (fst st), snd st)) (\<lambda>((e, x), out).
       Inr (((fst st)\<lparr>pending_error := e\<rparr>, x), out))"

primrec dpc_exec_all :: "'h tick \<Rightarrow> dpc_request list \<Rightarrow> 'h dstate \<Rightarrow> ('h dstate \<times> byte list) res" where
  "dpc_exec_all tick [] st = Inr (st, [])"
| "dpc_exec_all tick (q # qs) st =
     and_then (dpc_exec tick q st) (\<lambda>(st1, out). and_then (dpc_exec_all tick qs st1) (\<lambda>(st2, outs).
       Inr (st2, out @ outs)))"

definition is_setup :: "dpc_request \<Rightarrow> bool" where
  "is_setup q \<longleftrightarrow> (case q of Setup cs \<Rightarrow> True | _ \<Rightarrow> False)"

definition dpc_fits :: "dpc_request \<Rightarrow> bool" where
  "dpc_fits q \<longleftrightarrow> length (dpc_encode q) \<le> max_packet_len \<and> (is_setup q \<longrightarrow> length (dpc_encode q) < max_packet_len) \<and>
     (case q of Packet pq \<Rightarrow> packet_fits pq | _ \<Rightarrow> True)"

lemma dpc_encode_packet: "dpc_encode (Packet q) = packet_encode q"
  by (cases q) (simp_all add: dpc_encode_def)

lemma packet_name_cases: "packet_name q = bytes_of ''idpc'' @ [0x3A] \<or> packet_name q = bytes_of ''edpc'' @ [0x3A]"
  by (cases q) (simp_all add: bytes_of_def)

lemma dpc_name_colon:
  "dpc_name q = butlast (dpc_name q) @ [0x3A]" "0x3A \<notin> set (butlast (dpc_name q))"
  "length (dpc_name q) \<le> 13" "dpc_name q \<noteq> []"
proof -
  have "dpc_name q = butlast (dpc_name q) @ [0x3A] \<and> 0x3A \<notin> set (butlast (dpc_name q)) \<and>
      length (dpc_name q) \<le> 13 \<and> dpc_name q \<noteq> []"
  proof (cases q)
    case (Packet pq)
    then show ?thesis using packet_name_cases [of pq] by (auto simp: bytes_of_def)
  qed (simp_all add: bytes_of_def)
  then show "dpc_name q = butlast (dpc_name q) @ [0x3A]" "0x3A \<notin> set (butlast (dpc_name q))"
    "length (dpc_name q) \<le> 13" "dpc_name q \<noteq> []" by simp_all
qed

section \<open>Commands\<close>

text \<open>The state of the engine, and what a command has done to it.\<close>

definition wire_table :: "'h tick \<Rightarrow> 'h xvc_dpc dpc_table \<Rightarrow> bool" where
  "wire_table tick h \<longleftrightarrow> packet_table tick h \<and> k_lock h = None"

definition wire_ready :: "'h xvc_dpc srv \<Rightarrow> bool" where
  "wire_ready s \<longleftrightarrow> (\<exists>sent r. dpc_ready sent r s) \<and> error_ok (pending_error (cl s))"

definition wire_abs :: "'h xvc_dpc srv \<Rightarrow> 'h dstate" where
  "wire_abs s = (conf.truncate (cl s), dev s)"

definition wire_done :: "'h xvc_dpc srv \<Rightarrow> 'h xvc_dpc srv \<Rightarrow> nat \<Rightarrow> 'h dstate \<times> byte list \<Rightarrow> bool" where
  "wire_done s s' q res \<longleftrightarrow>
     wire_ready s' \<and> wire_abs s' = fst res \<and> appended (rp s) (snd res) (rp s') \<and> client_frame (cl s) (cl s') \<and>
     drop q (rx_buf (cl s')) = drop q (rx_buf (cl s))"

lemma wire_ready_sizes:
  assumes "wire_ready s"
  shows "reply_ready (rp s)" "buf_len (cl s) \<le> max_packet_len" "buf_max (cl s) = max_packet_len"
    "length (rx_buf (cl s)) = max_packet_len" "buf_addr (cl s) + 2 * max_packet_len < 2 ^ 64"
    "max_packet_len \<le> length (reply_buf (rp s))"
  using assms by (auto simp: wire_ready_def dpc_ready_def reply_ready_def reply_wf_def)

lemma wire_ptr_add: "wire_ready s \<Longrightarrow> p + m \<le> 2 * max_packet_len \<Longrightarrow> ptr_add s p m = Inr (p + m)"
  using wire_ready_sizes(5) [of s] by (simp add: ptr_add_def)

text \<open>A command that leaves the port alone.\<close>

lemma wire_doneI:
  assumes "wire_ready s" "dev s' = dev s" "appended (rp s) bs (rp s')" "client_frame (cl s) (cl s')"
    and "drop q (rx_buf (cl s')) = drop q (rx_buf (cl s))" "error_ok (pending_error (cl s'))" "conf.truncate (cl s') = c"
  shows "wire_done s s' q ((c, dev s), bs)"
proof -
  have "wire_ready s'"
    using assms(1-4,6) by (auto simp: wire_ready_def dpc_ready_def client_frame_def appended_def)
  then show ?thesis using assms by (simp add: wire_done_def wire_abs_def)
qed

definition runs_as :: "'h tick \<Rightarrow> 'h xvc_dpc srv \<Rightarrow> nat \<Rightarrow> dpc_request \<Rightarrow> 'h xvc_dpc step res \<Rightarrow> nat \<Rightarrow> bool" where
  "runs_as tick s cbuf q st e \<longleftrightarrow>
     (\<exists>res s'. dpc_exec tick q (wire_abs s) = Inr res \<and> and_then st (finish cbuf) = Inr (Next s' e) \<and> wire_done s s' e res \<and>
        length (snd res) \<le> 0x414)"

lemma runs_info:
  assumes "wire_ready s" "reply_len (rp s) + 0x420 \<le> max_packet_len"
  shows "runs_as tick s cbuf Info (cmd_getinfo s p) p"
proof -
  let ?t = "getinfo_text max_packet_len"
  have t: "length ?t = 21"
    by (simp add: getinfo_text_def max_packet_len_def xvc_version_def fmt_u_def digits_in.simps bytes_of_def)
  note w = wire_ready_sizes [OF assms(1)]
  obtain r where c: "cmd_getinfo s p = Inr (Reply (s\<lparr>rp := r\<rparr>) p)" and ap: "appended (rp s) ?t r"
    using getinfo_done [OF w(1,3), of p] w(6) assms(2) t by auto
  have "wire_done s (s\<lparr>rp := r\<rparr>) p ((conf.truncate (cl s), dev s), ?t)"
    using assms(1) ap by (intro wire_doneI) (simp_all add: wire_ready_def)
  then show ?thesis using t by (simp add: runs_as_def c finish_def wire_abs_def)
qed

lemma dpc_capabilities_eq: "packet_table tick h \<Longrightarrow> dpc_capabilities h = dpc_caps"
  by (simp add: dpc_capabilities_def dpc_caps_def packet_table_def bytes_of_def)

lemma runs_caps:
  assumes "wire_ready s" "wire_table tick h" "reply_len (rp s) + 0x420 \<le> max_packet_len"
  shows "runs_as tick s cbuf Caps (dpc_cmd_capabilities h s p) p"
proof -
  let ?l = "uleb_bytes (word_of_nat (length dpc_caps))"
  note rdy = wire_ready_sizes(1) [OF assms(1)]
  have n: "length dpc_caps = 10" by (simp add: dpc_caps_def bytes_of_def)
  have l: "length ?l \<le> 2" unfolding n by (rule length_uleb_small) simp
  have ul: "(ucast (10 :: 32 word) :: 64 word) = word_of_nat (length dpc_caps)" by (simp add: n)
  obtain r1 where r1: "reply_uleb128 (word_of_nat (length dpc_caps)) (rp s) = Inr r1" and a1: "appended (rp s) ?l r1"
    using reply_uleb128_appended [OF rdy, of "word_of_nat (length dpc_caps)"] assms(3) l by auto
  obtain r2 where r2: "reply_append dpc_caps r1 = Inr r2" and a2: "appended r1 dpc_caps r2"
    using reply_append_appended [OF appended_ready [OF a1], of dpc_caps] assms(3) appended_len [OF a1] l n by auto
  have "dpc_capabilities h = dpc_caps" using assms(2) dpc_capabilities_eq by (auto simp: wire_table_def)
  then have c: "dpc_cmd_capabilities h s p = Inr (Reply (s\<lparr>rp := r2\<rparr>) p)"
    using r1 r2 ul by (simp add: dpc_cmd_capabilities_def dpc_reply_uleb128_eq n)
  have "wire_done s (s\<lparr>rp := r2\<rparr>) p ((conf.truncate (cl s), dev s), ?l @ dpc_caps)"
    using assms(1) appended_trans [OF a1 a2] by (intro wire_doneI) (simp_all add: wire_ready_def)
  then show ?thesis using l n by (simp add: runs_as_def c finish_def wire_abs_def)
qed

lemma ucast_of_small: "n < 2 ^ 32 \<Longrightarrow> (ucast (word_of_nat n :: 32 word) :: 64 word) = word_of_nat n"
  by (rule word_unat_eq_iff [THEN iffD2])
     (simp add: unsigned_ucast_eq unat_word_of_nat_32 unat_word_of_nat_64 take_bit_nat_eq_self)

lemma dpc_cmd_error_eq:
  assumes "length (pending_error (cl s)) < 2 ^ 32"
  shows "dpc_cmd_error s p = cmd_error s p"
proof -
  have "(if lim < length (pending_error (cl s)) then lim else length (pending_error (cl s))) < 2 ^ 32" for lim :: nat
    using assms by simp
  then show ?thesis unfolding dpc_cmd_error_def cmd_error_def dpc_reply_uleb128_eq Let_def by (simp only: ucast_of_small)
qed

lemma runs_error:
  assumes "wire_ready s" "reply_len (rp s) + 0x420 \<le> max_packet_len"
  shows "runs_as tick s cbuf Last_error (dpc_cmd_error s p) p"
proof -
  let ?e = "pending_error (cl s)"
  let ?out = "uleb_bytes (word_of_nat (length ?e)) @ ?e"
  note w = wire_ready_sizes [OF assms(1)]
  have e: "error_ok ?e" using assms(1) by (simp add: wire_ready_def)
  then have le: "length ?e < 1024" by (auto simp: error_ok_def)
  then have l: "length ?out \<le> 0x414" using length_uleb_small [of "length ?e"] by simp
  then have "reply_len (rp s) + length ?out \<le> max_packet_len" using assms(2) by linarith
  from error_done [OF w(1,3) e this, of p] le obtain r where
    c: "dpc_cmd_error s p = Inr (Reply (s\<lparr>rp := r, cl := (cl s)\<lparr>pending_error := []\<rparr>\<rparr>) p)" and ap: "appended (rp s) ?out r"
    by (auto simp: dpc_cmd_error_eq)
  let ?s = "s\<lparr>rp := r, cl := (cl s)\<lparr>pending_error := []\<rparr>\<rparr>"
  have "wire_done s ?s p (((conf.truncate (cl s))\<lparr>pending_error := []\<rparr>, dev s), ?out)"
    using assms(1) ap by (intro wire_doneI) (simp_all add: client_frame_def error_ok_def)
  then show ?thesis using l by (simp add: runs_as_def c finish_def wire_abs_def Let_def)
qed

text \<open>A command that ends with the status.\<close>

lemma runs_status:
  assumes "wire_ready s" "st = Inr (Reply_with_status s1 e)" "rp s1 = rp s" "dev s1 = dev s" "client_frame (cl s) (cl s1)"
    and "drop e (rx_buf (cl s1)) = drop e (rx_buf (cl s))" "error_ok (pending_error (cl s1))"
    and "dpc_exec tick q (wire_abs s) = Inr ((conf.truncate (cl s1), dev s), status_byte (conf.truncate (cl s1)))"
    and "reply_len (rp s) < max_packet_len"
  shows "runs_as tick s cbuf q st e"
proof -
  note rdy = wire_ready_sizes(1) [OF assms(1)]
  from with_status_appended [of s1] rdy assms(3,9) obtain r where
    w: "with_status s1 = Inr (s1\<lparr>rp := r\<rparr>)" and ap: "appended (rp s) [if pending_error (cl s1) \<noteq> [] then 1 else 0] r" by auto
  have "wire_done s (s1\<lparr>rp := r\<rparr>) e ((conf.truncate (cl s1), dev s), status_byte (conf.truncate (cl s1)))"
    using assms(1,4-7) ap by (intro wire_doneI) (simp_all add: status_byte_def)
  then show ?thesis using w by (simp add: runs_as_def assms(2,8) finish_def)
qed

lemma conf_fold_error_ok: "error_ok (pending_error c) \<Longrightarrow> error_ok (pending_error (conf_fold b its c))"
proof (induction its arbitrary: c)
  case (Cons it its)
  have "error_ok (pending_error (fst (config_apply b e nm c)))" for e nm
    using Cons.prems by (simp add: config_apply_def)
  with Cons show ?case by (simp add: case_prod_beta)
qed simp

lemma runs_setup:
  assumes "wire_ready s" "wire_table tick h" "reply_len (rp s) + 0x420 \<le> max_packet_len"
    and "bytes_at (rx_buf (cl s)) p (dpc_args (Setup cs))" "p + length (dpc_args (Setup cs)) \<le> buf_len (cl s)"
    and "p + length (dpc_args (Setup cs)) < max_packet_len"
  shows "runs_as tick s cbuf (Setup cs) (dpc_cmd_configure h s cbuf p) (p + length (dpc_args (Setup cs)))"
proof -
  let ?v = "word_of_nat (length cs) :: 64 word"
  let ?p1 = "p + length (uleb_bytes ?v)"
  let ?q = "?p1 + length cs"
  let ?b = "rx_buf (cl s)"
  note w = wire_ready_sizes [OF assms(1)]
  have cnt: "unat (ucast ?v :: 32 word) = length cs" using assms(6) by (intro word_length_cs) simp
  have v: "get_uleb128 ?b (buf_len (cl s)) p = Inr (?v, ?p1)"
    using assms(4,5) w(2,4) by (intro get_uleb128_at) (auto simp: bytes_at_append)
  have q: "ptr_add s ?p1 (unat (ucast ?v :: 32 word)) = Inr ?q"
    using assms(6) unfolding cnt by (intro wire_ptr_add [OF assms(1)]) simp
  have ql: "?q < length ?b" using assms(6) w(4) by simp
  have at: "bytes_at ?b ?p1 cs" using assms(4) by (simp add: bytes_at_append)
  define c where "c = conf_fold False (split_items (cstring cs)) (cl s)"
  from configure_done [OF at ql] obtain b1 b2 b3 where
    b: "write_at ?b ?q [0] = Inr b1" "config_loop False b1 ?p1 (cl s) = Inr (b2, c)" "write_at b2 ?q [?b ! ?q] = Inr b3"
      "length b3 = length ?b" "drop ?q b3 = drop ?q ?b" "client_frame (cl s) c" "rx_buf c = ?b"
    unfolding c_def by blast
  have can: "(k_lock h \<noteq> None \<and> k_unlock h \<noteq> None) = False" using assms(2) by (simp add: wire_table_def)
  have "\<not> buf_len (cl s) < ?q" using assms(5) by simp
  then have cmd: "dpc_cmd_configure h s cbuf p = Inr (Reply_with_status (s\<lparr>cl := c\<lparr>rx_buf := b3\<rparr>\<rparr>) ?q)"
    unfolding dpc_cmd_configure_def can using ql by (simp add: v q b)
  have "error_ok (pending_error c)" using assms(1) by (simp add: c_def conf_fold_error_ok wire_ready_def)
  then have "runs_as tick s cbuf (Setup cs) (dpc_cmd_configure h s cbuf p) ?q"
    using b(4-6) assms(3)
    by (intro runs_status [OF assms(1) cmd]) (simp_all add: client_frame_def wire_abs_def c_def conf_fold_truncate Let_def)
  then show ?thesis by (simp add: add.assoc)
qed

section \<open>One command\<close>

definition dpc_run :: "'d dpc_table \<Rightarrow> 'd srv \<Rightarrow> nat \<Rightarrow> dpc_request \<Rightarrow> nat \<Rightarrow> 'd step res" where
  "dpc_run h s cbuf q p =
     (case q of
        Info \<Rightarrow> cmd_getinfo s p
      | Caps \<Rightarrow> dpc_cmd_capabilities h s p
      | Setup cs \<Rightarrow> dpc_cmd_configure h s cbuf p
      | Last_error \<Rightarrow> dpc_cmd_error s p
      | Packet (Send_packet fl d) \<Rightarrow> cmd_idpc h s cbuf p
      | Packet (Fetch_packet fl) \<Rightarrow> cmd_edpc h s cbuf p)"

lemma dpc_dispatch_run: "wire_table tick h \<Longrightarrow> dpc_dispatch h s cbuf p (dpc_name q) = dpc_run h s cbuf q p"
  by (auto simp: dpc_dispatch_def dpc_run_def bytes_of_def wire_table_def packet_table_def split: dpc_request.split packet_request.split)

lemma dpc_one_command_run:
  assumes "wire_table tick h" "bytes_at (rx_buf (cl s)) cbuf (dpc_name q)" "cbuf + length (dpc_name q) \<le> buf_len (cl s)"
  shows "dpc_one_command h s cbuf = dpc_run h s cbuf q (cbuf + length (dpc_name q))"
proof -
  let ?n = "butlast (dpc_name q)"
  have n: "length ?n + 1 = length (dpc_name q)" using dpc_name_colon(4) [of q] by (cases "dpc_name q") auto
  have "dpc_one_command h s cbuf = dpc_dispatch h s cbuf (cbuf + length ?n + 1) (?n @ [0x3A])"
  proof (rule dpc_header)
    show "bytes_at (rx_buf (cl s)) cbuf (?n @ [0x3A])" using assms(2) dpc_name_colon(1) [of q] by simp
    show "length ?n < 30" using dpc_name_colon(3) [of q] by simp
    show "cbuf + length ?n < buf_len (cl s)" using assms(3) n by linarith
  qed (rule dpc_name_colon)
  also have "?n @ [0x3A] = dpc_name q" by (rule dpc_name_colon(1) [symmetric])
  also have "cbuf + length ?n + 1 = cbuf + length (dpc_name q)" using n by simp
  finally show ?thesis by (simp only: dpc_dispatch_run [OF assms(1)])
qed

text \<open>The packet commands leave the configuration alone.\<close>

definition only_error :: "client \<Rightarrow> client \<Rightarrow> bool" where
  "only_error c c' \<longleftrightarrow> c' = c\<lparr>pending_error := pending_error c'\<rparr>"

lemma report_only_error: "only_error (cl s) (cl (report e s))"
  by (simp add: only_error_def report_def set_error_def split: option.split)

lemma report_error_ok: "error_ok (pending_error (cl s)) \<Longrightarrow> error_ok (pending_error (cl (report e s)))"
  by (simp add: report_def split: option.split)

lemma packet_calls_only_error:
  assumes "error_ok (pending_error (cl s))"
  shows "call_edpc h fl s = Inr (n, b, s1) \<Longrightarrow> only_error (cl s) (cl s1) \<and> error_ok (pending_error (cl s1))"
    and "call_idpc h fl m p s = Inr s1 \<Longrightarrow> only_error (cl s) (cl s1) \<and> error_ok (pending_error (cl s1))"
  using assms report_only_error [of "s\<lparr>dev := d\<rparr>" e for d e] report_error_ok [of "s\<lparr>dev := d\<rparr>" e for d e]
  by (auto simp: call_edpc_def call_idpc_def and_then_eq_Inr only_error_def split: option.split_asm if_split_asm)

lemma packet_step_only_error:
  assumes "error_ok (pending_error (cl s))"
  shows "cmd_edpc h s cbuf p = Inr st \<Longrightarrow> only_error (cl s) (cl (step_srv st)) \<and> error_ok (pending_error (cl (step_srv st)))"
    and "cmd_idpc h s cbuf p = Inr st \<Longrightarrow> only_error (cl s) (cl (step_srv st)) \<and> error_ok (pending_error (cl (step_srv st)))"
proof -
  have refl: "only_error c c" for c by (simp add: only_error_def)
  show "only_error (cl s) (cl (step_srv st)) \<and> error_ok (pending_error (cl (step_srv st)))" if "cmd_edpc h s cbuf p = Inr st"
    using that assms refl
    by (auto simp: cmd_edpc_def and_then_eq_Inr Let_def split: if_split_asm
        dest!: need_more_frame copy_packet_frame reply_data_frame packet_calls_only_error(1) [OF assms])
  show "only_error (cl s) (cl (step_srv st)) \<and> error_ok (pending_error (cl (step_srv st)))" if "cmd_idpc h s cbuf p = Inr st"
    using that assms refl
    by (auto simp: cmd_idpc_def and_then_eq_Inr split: if_split_asm
        dest!: need_more_frame packet_calls_only_error(2) [OF assms])
qed

lemma finish_conf: "finish cbuf st = Inr (Next s' e) \<Longrightarrow> cl s' = cl (step_srv st)"
  by (auto simp: finish_def with_status_def and_then_eq_Inr split: step.split_asm if_split_asm)

lemma truncate_only_error: "only_error c c' \<Longrightarrow> conf.truncate c' = (conf.truncate c)\<lparr>pending_error := pending_error c'\<rparr>"
  unfolding only_error_def by (erule ssubst) simp

text \<open>A command that has arrived completely.\<close>

lemma wire_command:
  assumes "dma_engine tick" "wire_table tick h" "wire_ready s" "bytes_at (rx_buf (cl s)) cbuf (dpc_encode q)"
    and "cbuf + length (dpc_encode q) \<le> buf_len (cl s)" "reply_len (rp s) + 0x420 \<le> max_packet_len" "dpc_fits q"
    and "is_setup q \<longrightarrow> cbuf + length (dpc_encode q) < max_packet_len"
  shows "\<exists>res s'. dpc_exec tick q (wire_abs s) = Inr res \<and> dpc_iteration h s cbuf = Inr (Next s' (cbuf + length (dpc_encode q))) \<and>
    wire_done s s' (cbuf + length (dpc_encode q)) res \<and> length (snd res) \<le> 0x414"
proof -
  define p where "p = cbuf + length (dpc_name q)"
  let ?e = "cbuf + length (dpc_encode q)"
  have e: "p + length (dpc_args q) = ?e" by (simp add: p_def dpc_encode_def)
  have at: "bytes_at (rx_buf (cl s)) cbuf (dpc_name q)" "bytes_at (rx_buf (cl s)) p (dpc_args q)"
    using assms(4) by (simp_all add: dpc_encode_def bytes_at_append p_def)
  have one: "dpc_one_command h s cbuf = dpc_run h s cbuf q p"
    unfolding p_def using at(1) assms(5) by (intro dpc_one_command_run [OF assms(2)]) (simp_all add: dpc_encode_def)
  have it: "dpc_iteration h s cbuf = and_then (dpc_run h s cbuf q p) (finish cbuf)" by (simp add: dpc_iteration_def one)
  have by_run: ?thesis if "runs_as tick s cbuf q (dpc_run h s cbuf q p) (p + length (dpc_args q))"
    using that unfolding runs_as_def it e by blast
  show ?thesis
  proof (cases q)
    case Info
    then show ?thesis using runs_info [OF assms(3,6)] by (intro by_run) (simp add: dpc_run_def)
  next
    case Caps
    then show ?thesis using runs_caps [OF assms(3,2,6)] by (intro by_run) (simp add: dpc_run_def)
  next
    case Last_error
    then show ?thesis using runs_error [OF assms(3,6)] by (intro by_run) (simp add: dpc_run_def)
  next
    case (Setup cs)
    have "p + length (dpc_args q) < max_packet_len" using assms(8) e Setup by (simp add: is_setup_def)
    then show ?thesis
      using runs_setup [OF assms(3,2,6), of p cs cbuf] at(2) assms(5) e Setup by (intro by_run) (simp add: dpc_run_def)
  next
    case (Packet pq)
    note enc = dpc_encode_packet [of pq, folded Packet]
    obtain sent r where rdy: "dpc_ready sent r s" and ok: "error_ok (pending_error (cl s))" using assms(3) by (auto simp: wire_ready_def)
    have fits: "packet_fits pq" and tab: "packet_table tick h" using assms(2,7) Packet by (simp_all add: dpc_fits_def wire_table_def)
    from packet_command [OF rdy assms(1) assms(4,5) [unfolded enc] assms(6) tab fits] obtain res sent' r' s' where
      1: "packet_exec tick pq (abs_port s) = Inr res" "dpc_iteration h s cbuf = Inr (Next s' ?e)" "packet_done s s' res"
        "dpc_ready sent' r' s'" "length (snd res) \<le> 0x414" unfolding enc by blast
    obtain st where st: "dpc_run h s cbuf q p = Inr st" "finish cbuf st = Inr (Next s' ?e)"
      using 1(2) unfolding it by (auto simp: and_then_eq_Inr)
    have oe: "only_error (cl s) (cl s')" "error_ok (pending_error (cl s'))"
      using st Packet finish_conf [OF st(2)] packet_step_only_error [OF ok]
      by (auto simp: dpc_run_def split: packet_request.split_asm)
    have ab: "fst res = (pending_error (cl s'), dev s')" using 1(3) by (simp add: packet_done_def abs_port_def)
    have "dpc_exec tick q (wire_abs s) = Inr (wire_abs s', snd res)"
      using 1(1) ab Packet truncate_only_error [OF oe(1)] by (cases res) (simp add: wire_abs_def abs_port_def)
    moreover have "wire_done s s' ?e (wire_abs s', snd res)"
      using 1(3,4) oe(2) by (auto simp: wire_done_def wire_ready_def packet_done_def)
    ultimately show ?thesis using 1(2,5) by fastforce
  qed
qed

section \<open>A command that has not arrived completely\<close>

lemma dpc_run_incomplete:
  assumes "wire_ready s" "cbuf \<le> p" "begins (rx_buf (cl s)) p (buf_len (cl s)) (dpc_args q)"
    and "p + length (dpc_args q) \<le> cbuf + max_packet_len" "dpc_fits q"
    and "is_setup q \<longrightarrow> p + length (dpc_args q) < cbuf + max_packet_len"
  shows "dpc_run h s cbuf q p = Inr (Break s True)"
proof -
  let ?b = "rx_buf (cl s)" and ?e = "buf_len (cl s)"
  note w = wire_ready_sizes [OF assms(1)]
  have e: "?e \<le> max_packet_len" "p \<le> ?e" using w(2) assms(3) by (auto simp: begins_def)
  have far: "p + length (dpc_args q) \<le> 2 * max_packet_len" using assms(2,4) e by simp
  show ?thesis
  proof (cases q)
    case (Setup cs)
    let ?m = "word_of_nat (length cs) :: 64 word"
    have lcs: "length cs \<le> 2 * max_packet_len" using far Setup by simp
    then have m: "unat ?m = length cs" by (intro unat_word_of_nat_64) (simp add: max_packet_len_def)
    from assms(3) Setup uleb_begins [of ?b p ?e ?m cs] obtain m' p' where
      g: "get_uleb128 ?b ?e p = Inr (m', p')" and le: "unat m' \<le> length cs"
      and pl: "p' \<le> p + length (uleb_bytes ?m)" and c: "m' = ?m \<and> begins ?b p' ?e cs \<or> ?e < p'"
      unfolding m by auto
    have u: "unat (ucast m' :: 32 word) = unat m'"
    proof -
      have "unat m' < 2 ^ 32" using le lcs by (simp add: max_packet_len_def)
      then show ?thesis by (simp add: unsigned_ucast_eq take_bit_nat_eq_self)
    qed
    have le2: "p' + unat m' \<le> p + length (dpc_args q)" using pl le Setup by simp
    then have pa: "ptr_add s p' (unat (ucast m' :: 32 word)) = Inr (p' + unat m')"
      unfolding u using far by (intro wire_ptr_add [OF assms(1)]) linarith
    have "?e < p' + unat m'" using c by (auto simp: begins_def m)
    moreover have "p' + unat m' - cbuf < buf_max (cl s)"
      using le2 assms(2,6) Setup w(3) by (simp add: is_setup_def)
    ultimately show ?thesis using g pa Setup by (simp add: dpc_run_def dpc_cmd_configure_def ensure_def)
  next
    case (Packet pq)
    show ?thesis
    proof (cases pq)
      case (Fetch_packet fl)
      with Packet assms(3) uleb_begins [of ?b p ?e fl "[]"] obtain v p' where
        "get_uleb128 ?b ?e p = Inr (v, p')" "?e < p'" "p' \<le> p + length (uleb_bytes fl)"
        by (auto simp: begins_def)
      with assms(4) Packet Fetch_packet w(3) show ?thesis by (simp add: dpc_run_def cmd_edpc_def need_more_ok)
    next
      case (Send_packet fl d)
      let ?n = "word_of_nat (length d div 4) :: 64 word"
      have d: "4 dvd length d" "length d \<le> 0x410" using assms(5) Packet Send_packet by (simp_all add: dpc_fits_def)
      note wc = word_count [OF d]
      have args: "dpc_args q = uleb_bytes fl @ uleb_bytes ?n @ d" by (simp add: Packet Send_packet)
      obtain v p1 where 1: "get_uleb128 ?b ?e p = Inr (v, p1)" "p1 \<le> p + length (uleb_bytes fl)"
        and c1: "begins ?b p1 ?e (uleb_bytes ?n @ d) \<or> ?e < p1"
        using uleb_begins [of ?b p ?e fl "uleb_bytes ?n @ d"] assms(3) args by auto
      obtain n' p2 where 2: "get_uleb128 ?b ?e p1 = Inr (n', p2)" "unat n' \<le> unat ?n" "p2 \<le> p1 + length (uleb_bytes ?n)"
        and c2: "n' = ?n \<and> begins ?b p2 ?e d \<or> ?e < p2"
        using uleb_begins [of ?b p1 ?e ?n d] c1 by blast
      have n4: "unat (n' * 4) = unat n' * 4" using 2(2) wc(1) d(2) by (simp add: unat_word_ariths)
      have le2: "p2 + unat (n' * 4) \<le> p + length (dpc_args q)"
        using 1(2) 2(2,3) wc(1,2) unfolding n4 args by simp
      then have pa: "ptr_add s p2 (unat (n' * 4)) = Inr (p2 + unat (n' * 4))"
        using far by (intro wire_ptr_add [OF assms(1)]) linarith
      have "?e < p2 + unat (n' * 4)" using c2 wc(3) by (auto simp: begins_def)
      with 1(1) 2(1) pa le2 assms(4) w(3) show ?thesis
        by (simp add: dpc_run_def Packet Send_packet cmd_idpc_def need_more_ok)
    qed
  qed (use assms(3) in \<open>auto simp: begins_def\<close>)
qed

lemma wire_incomplete:
  assumes "wire_table tick h" "wire_ready s" "begins (rx_buf (cl s)) cbuf (buf_len (cl s)) (dpc_encode q)" "dpc_fits q"
  shows "dpc_one_command h s cbuf = Inr (Break s True)"
proof (cases "cbuf + length (dpc_name q) \<le> buf_len (cl s)")
  case True
  note b = begins_append [OF assms(3) [unfolded dpc_encode_def] True]
  have "dpc_one_command h s cbuf = dpc_run h s cbuf q (cbuf + length (dpc_name q))"
    using b(1) True by (rule dpc_one_command_run [OF assms(1)])
  also have "\<dots> = Inr (Break s True)"
    using assms(4) by (intro dpc_run_incomplete [OF assms(2) _ b(2)]) (auto simp: dpc_encode_def dpc_fits_def)
  finally show ?thesis .
next
  case False
  let ?b = "rx_buf (cl s)" and ?e = "buf_len (cl s)"
  have b: "begins ?b cbuf ?e (dpc_name q)"
    using assms(3) False by (rule_tac begins_prefix [of _ _ _ _ "dpc_args q"]) (simp_all add: dpc_encode_def)
  have k: "?e - cbuf < length (dpc_name q)" "cbuf \<le> ?e" "?e \<le> length ?b" and
    t: "take (?e - cbuf) (drop cbuf ?b) = take (?e - cbuf) (dpc_name q)"
    using b by (simp_all add: begins_def)
  have tb: "take (?e - cbuf) (dpc_name q) = take (?e - cbuf) (butlast (dpc_name q))"
    using k(1) by (simp add: take_butlast)
  have "0x3A \<notin> set (take (?e - cbuf) (drop cbuf ?b))"
    unfolding t tb using dpc_name_colon(2) [of q] in_set_takeD by fast
  moreover have m: "min (cbuf + 30) ?e = ?e" using k(1,2) dpc_name_colon(3) [of q] by simp
  ultimately have "find_colon ?b (min (cbuf + 30) ?e) cbuf = Inr ?e"
    using k(2,3) find_colon_none [of ?e cbuf ?b] by simp
  moreover have "\<not> 30 \<le> ?e - cbuf" using k(1) dpc_name_colon(3) [of q] by linarith
  ultimately show ?thesis using m by (simp add: dpc_one_command_def Let_def)
qed

end
