(* ===== verification/Dpc_Wire.thy ===== *)
theory Dpc_Wire
  imports Dpc_Protocol
begin

unbundle bit_operations_syntax

text \<open>
  Whole connections to the packet server, with all of its commands and in whatever segments the bytes arrive:
  the replies are those of the abstract server of \<open>Dpc_Protocol\<close>.
\<close>

section \<open>Streams\<close>

definition dpc_encodes :: "dpc_request list \<Rightarrow> byte list" where
  "dpc_encodes qs = concat (map dpc_encode qs)"

lemma dpc_encodes_simps [simp]:
  "dpc_encodes [] = []" "dpc_encodes (q # qs) = dpc_encode q @ dpc_encodes qs"
  "dpc_encodes (qs @ rs) = dpc_encodes qs @ dpc_encodes rs"
  by (simp_all add: dpc_encodes_def)

lemma dpc_encode_nonempty [simp]: "dpc_encode q \<noteq> []"
  using dpc_name_colon(4) [of q] by (simp add: dpc_encode_def)

lemma dpc_encodes_eq_Nil [simp]: "dpc_encodes qs = [] \<longleftrightarrow> qs = []"
  by (cases qs) simp_all

text \<open>The requests that the first \<open>n\<close> bytes complete, and the others.\<close>

primrec completed :: "nat \<Rightarrow> dpc_request list \<Rightarrow> dpc_request list \<times> dpc_request list" where
  "completed n [] = ([], [])"
| "completed n (q # qs) =
     (if length (dpc_encode q) \<le> n then (case completed (n - length (dpc_encode q)) qs of (now, rest) \<Rightarrow> (q # now, rest))
      else ([], q # qs))"

lemma completed_spec:
  "completed n qs = (now, rest) \<Longrightarrow>
   qs = now @ rest \<and> length (dpc_encodes now) \<le> n \<and> (rest = [] \<or> n < length (dpc_encodes now) + length (dpc_encode (hd rest)))"
proof (induction qs arbitrary: n now rest)
  case (Cons q qs)
  show ?case
  proof (cases "length (dpc_encode q) \<le> n")
    case True
    obtain now1 rest1 where c: "completed (n - length (dpc_encode q)) qs = (now1, rest1)" by force
    with True Cons.prems have "now = q # now1" "rest = rest1" by simp_all
    with Cons.IH [OF c] True show ?thesis by auto
  next
    case False
    with Cons.prems show ?thesis by auto
  qed
qed simp

lemma completed_more:
  assumes "completed n qs = (now, rest)"
  shows "completed (n + m) qs =
    (now @ fst (completed (n - length (dpc_encodes now) + m) rest), snd (completed (n - length (dpc_encodes now) + m) rest))"
  using assms
proof (induction qs arbitrary: n now rest)
  case (Cons q qs)
  let ?l = "length (dpc_encode q)"
  show ?case
  proof (cases "?l \<le> n")
    case True
    obtain now1 rest1 where c: "completed (n - ?l) qs = (now1, rest1)" by force
    with True Cons.prems have r: "now = q # now1" "rest = rest1" by simp_all
    have "completed (n + m) (q # qs) = (case completed (n - ?l + m) qs of (a, b) \<Rightarrow> (q # a, b))" using True by simp
    also have "\<dots> = (q # now1 @ fst (completed (n - ?l - length (dpc_encodes now1) + m) rest1),
        snd (completed (n - ?l - length (dpc_encodes now1) + m) rest1))" by (simp only: Cons.IH [OF c] prod.case)
    also have "n - ?l - length (dpc_encodes now1) = n - length (dpc_encodes now)" by (simp add: r)
    finally show ?thesis by (simp only: r append_Cons)
  next
    case False
    with Cons.prems have "now = []" "rest = q # qs" by simp_all
    then show ?thesis by (simp only: append_Nil dpc_encodes_simps list.size diff_zero prod.collapse)
  qed
qed simp

text \<open>The replies to the requests that one segment completes have to fit in a packet; and a \<open>configure:\<close> may not end
  with the last byte of the buffer.\<close>

primrec dpc_reply_size :: "dpc_request \<Rightarrow> nat" where
  "dpc_reply_size Info = 21"
| "dpc_reply_size Caps = 12"
| "dpc_reply_size (Setup cs) = 1"
| "dpc_reply_size Last_error = 0x414"
| "dpc_reply_size (Packet q) = (case q of Send_packet fl d \<Rightarrow> 1 | Fetch_packet fl \<Rightarrow> 0x414)"

primrec replies_fit :: "nat \<Rightarrow> dpc_request list \<Rightarrow> bool" where
  "replies_fit l [] \<longleftrightarrow> True"
| "replies_fit l (q # qs) \<longleftrightarrow> l + 0x420 \<le> max_packet_len \<and> replies_fit (l + dpc_reply_size q) qs"

definition segment_fits :: "dpc_request list \<Rightarrow> bool" where
  "segment_fits qs \<longleftrightarrow> replies_fit 0 qs \<and> ((\<exists>q \<in> set qs. is_setup q) \<longrightarrow> length (dpc_encodes qs) < max_packet_len)"

primrec paced :: "nat \<Rightarrow> byte list list \<Rightarrow> dpc_request list \<Rightarrow> bool" where
  "paced have [] qs \<longleftrightarrow> True"
| "paced have (seg # segs) qs \<longleftrightarrow>
     (case completed (have + length seg) qs of (now, rest) \<Rightarrow>
        segment_fits now \<and> paced (have + length seg - length (dpc_encodes now)) segs rest)"

lemma replies_fit_mono: "replies_fit l qs \<Longrightarrow> l' \<le> l \<Longrightarrow> replies_fit l' qs"
proof (induction qs arbitrary: l l')
  case (Cons q qs)
  then show ?case using Cons.IH [of "l + dpc_reply_size q" "l' + dpc_reply_size q"] by simp
qed simp

lemma replies_fit_append: "replies_fit l (qs @ rs) \<Longrightarrow> replies_fit l qs \<and> replies_fit l rs"
proof (induction qs arbitrary: l)
  case (Cons q qs)
  then show ?case using replies_fit_mono [of "l + dpc_reply_size q" rs l] by simp
qed simp

lemma segment_fits_append: "segment_fits (qs @ rs) \<Longrightarrow> segment_fits qs \<and> segment_fits rs"
  using replies_fit_append [of 0 qs rs] by (auto simp: segment_fits_def)

text \<open>A segment may arrive in pieces.\<close>

lemma paced_split:
  assumes "paced have ((a @ b) # segs) qs"
  shows "paced have (a # b # segs) qs"
proof -
  obtain r1 q1 where 1: "completed (have + length a) qs = (r1, q1)" by force
  let ?h = "have + length a - length (dpc_encodes r1)"
  obtain r2 q2 where 2: "completed (?h + length b) q1 = (r2, q2)" by force
  have "length (dpc_encodes r1) \<le> have + length a" using completed_spec [OF 1] by simp
  moreover have "length (dpc_encodes r2) \<le> ?h + length b" using completed_spec [OF 2] by simp
  ultimately have n: "have + length (a @ b) - length (dpc_encodes (r1 @ r2)) = ?h + length b - length (dpc_encodes r2)" by simp
  have "completed (have + length (a @ b)) qs = (r1 @ r2, q2)"
    using completed_more [OF 1, of "length b"] 2 by (simp add: add.assoc)
  with assms have "segment_fits (r1 @ r2)" "paced (?h + length b - length (dpc_encodes r2)) segs q2"
    using n by (simp_all only: paced.simps prod.case)
  then show ?thesis using 1 2 segment_fits_append [of r1 r2] by simp
qed

section \<open>The command loop\<close>

lemma send_reply_one:
  assumes "packet_exec tick (Send_packet fl d) st = Inr r"
  shows "length (snd r) = 1"
proof (cases "fst st = []")
  case True
  with assms obtain ev x where
    r: "r = (case ev of Refused m \<Rightarrow> ((take 1023 (cstring m), x), [1]) | _ \<Rightarrow> (([], x), [0]))"
    by (auto simp: and_then_eq_Inr)
  show ?thesis unfolding r by (cases ev) simp_all
next
  case False
  with assms show ?thesis by auto
qed

lemma dpc_reply_bound:
  assumes "dpc_exec tick q st = Inr res" "length (snd res) \<le> 0x414"
  shows "length (snd res) \<le> dpc_reply_size q"
proof (cases q)
  case Info
  have "length (getinfo_text max_packet_len) = 21"
    by (simp add: getinfo_text_def max_packet_len_def xvc_version_def fmt_u_def digits_in.simps bytes_of_def)
  with assms(1) Info show ?thesis by auto
next
  case Caps
  have n: "length dpc_caps = 10" by (simp add: dpc_caps_def bytes_of_def)
  have "length (uleb_bytes (word_of_nat 10)) \<le> 2" by (rule length_uleb_small) simp
  with assms(1) Caps n show ?thesis by auto
next
  case (Packet pq)
  show ?thesis
  proof (cases pq)
    case (Send_packet fl d)
    obtain r where "packet_exec tick (Send_packet fl d) (pending_error (fst st), snd st) = Inr r" "snd res = snd r"
      using assms(1) unfolding Packet Send_packet dpc_exec.simps and_then_eq_Inr by (auto simp del: packet_exec.simps)
    with send_reply_one show ?thesis by (fastforce simp: Packet Send_packet)
  qed (use assms(2) Packet in simp)
qed (use assms in \<open>auto simp: Let_def\<close>)

lemma wire_done_refl: "wire_ready s \<Longrightarrow> wire_done s s q (wire_abs s, [])"
  by (simp add: wire_done_def appended_refl wire_ready_sizes(1))

lemma wire_done_trans:
  assumes "wire_done s s1 q1 res1" "wire_done s1 s2 q2 (st2, out2)" "q1 \<le> q2"
  shows "wire_done s s2 q2 (st2, snd res1 @ out2)"
proof -
  have "drop q2 (rx_buf (cl s1)) = drop q2 (rx_buf (cl s))"
  proof -
    have "drop q1 (rx_buf (cl s1)) = drop q1 (rx_buf (cl s))" using assms(1) by (simp add: wire_done_def)
    from arg_cong [OF this, of "drop (q2 - q1)"] assms(3) show ?thesis by simp
  qed
  then show ?thesis
    using assms(1,2) by (auto simp: wire_done_def intro: appended_trans client_frame_trans)
qed

lemma wire_loop_break:
  "dpc_one_command h s cbuf = Inr (Break s True) \<Longrightarrow> dpc_command_loop h s cbuf = Inr (Broke s cbuf True)"
  by (simp add: dpc_command_loop.simps [of h s cbuf] dpc_iteration_def finish_def)

lemma dpc_one_command_at_end: "buf_len (cl s) \<le> cbuf \<Longrightarrow> dpc_one_command h s cbuf = Inr (Break s True)"
  by (simp add: dpc_one_command_def Let_def find_colon.simps [of "rx_buf (cl s)" "buf_len (cl s)" cbuf])

lemma dpc_loop_stream:
  assumes "dma_engine tick" "wire_table tick h"
    and "wire_ready s" "upto (rx_buf (cl s)) cbuf (buf_len (cl s)) (dpc_encodes qs)" "\<forall>q \<in> set qs. dpc_fits q"
    and "completed (buf_len (cl s) - cbuf) qs = (now, rest)" "replies_fit (reply_len (rp s)) now"
    and "(\<exists>q \<in> set now. is_setup q) \<longrightarrow> cbuf + length (dpc_encodes now) < max_packet_len"
    and "reply_len (rp s) \<le> max_packet_len"
  shows "\<exists>res s'. dpc_exec_all tick now (wire_abs s) = Inr res \<and>
    dpc_command_loop h s cbuf = Inr (Broke s' (cbuf + length (dpc_encodes now)) True) \<and>
    wire_done s s' (cbuf + length (dpc_encodes now)) res \<and> reply_len (rp s') \<le> max_packet_len"
  using assms(3-)
proof (induction qs arbitrary: s cbuf now)
  case Nil
  then have "buf_len (cl s) \<le> cbuf" "now = []" by (auto simp: upto_iff)
  then show ?case
    using wire_loop_break [OF dpc_one_command_at_end] wire_done_refl [OF Nil.prems(1)] Nil.prems(7) by fastforce
next
  case (Cons q qs)
  let ?b = "rx_buf (cl s)" and ?e = "buf_len (cl s)" and ?l = "length (dpc_encode q)"
  have u: "upto ?b cbuf ?e (dpc_encode q @ dpc_encodes qs)" using Cons.prems(2) by simp
  have fq: "dpc_fits q" using Cons.prems(3) by simp
  have le: "cbuf \<le> ?e" using u by (simp add: upto_iff)
  show ?case
  proof (cases "cbuf + ?l \<le> ?e")
    case False
    then have "now = []" using Cons.prems(4) le by (simp split: if_split_asm)
    moreover have "dpc_one_command h s cbuf = Inr (Break s True)"
      by (rule wire_incomplete [OF assms(2) Cons.prems(1) upto_Cons(2) [OF u False] fq])
    ultimately show ?thesis
      using wire_loop_break wire_done_refl [OF Cons.prems(1)] Cons.prems(7) by fastforce
  next
    case True
    then have "?l \<le> ?e - cbuf" by simp
    with Cons.prems(4) obtain now1 where now: "now = q # now1" and c1: "completed (?e - cbuf - ?l) qs = (now1, rest)"
      by (auto split: prod.split_asm if_split_asm)
    note at = upto_Cons(1) [OF u True]
    have room: "reply_len (rp s) + 0x420 \<le> max_packet_len" "replies_fit (reply_len (rp s) + dpc_reply_size q) now1"
      using Cons.prems(5) now by simp_all
    have "is_setup q \<longrightarrow> cbuf + ?l < max_packet_len" using Cons.prems(6) now by auto
    from wire_command [OF assms(1,2) Cons.prems(1) conjunct1 [OF at] True room(1) fq this] obtain res s1 where
      1: "dpc_exec tick q (wire_abs s) = Inr res" "dpc_iteration h s cbuf = Inr (Next s1 (cbuf + ?l))"
        "wire_done s s1 (cbuf + ?l) res" "length (snd res) \<le> 0x414" by blast
    have s1: "wire_ready s1" "buf_len (cl s1) = ?e" "wire_abs s1 = fst res" "reply_len (rp s1) = reply_len (rp s) + length (snd res)"
      using 1(3) by (simp_all add: wire_done_def client_frame_def appended_len)
    have u1: "upto (rx_buf (cl s1)) (cbuf + ?l) (buf_len (cl s1)) (dpc_encodes qs)"
      using at 1(3) by (auto simp: upto_iff wire_done_def client_frame_def)
    have r1: "replies_fit (reply_len (rp s1)) now1"
      using room(2) s1(4) dpc_reply_bound [OF 1(1,4)] by (intro replies_fit_mono [OF room(2)]) simp
    have d1: "completed (buf_len (cl s1) - (cbuf + ?l)) qs = (now1, rest)" using c1 s1(2) by simp
    have f1: "(\<exists>q \<in> set now1. is_setup q) \<longrightarrow> cbuf + ?l + length (dpc_encodes now1) < max_packet_len"
      using Cons.prems(6) now by auto
    have fs: "\<forall>q \<in> set qs. dpc_fits q" using Cons.prems(3) by simp
    have m1: "reply_len (rp s1) \<le> max_packet_len" using s1(4) room(1) 1(4) by linarith
    from Cons.IH [OF s1(1) u1 fs d1 r1 f1 m1] obtain res2 s2 where
      2: "dpc_exec_all tick now1 (fst res) = Inr res2" "wire_done s1 s2 (cbuf + ?l + length (dpc_encodes now1)) res2"
        "dpc_command_loop h s1 (cbuf + ?l) = Inr (Broke s2 (cbuf + ?l + length (dpc_encodes now1)) True)"
        "reply_len (rp s2) \<le> max_packet_len"
      unfolding s1(3) by blast
    have "dpc_command_loop h s cbuf = Inr (Broke s2 (cbuf + length (dpc_encodes now)) True)"
      using 2(3) by (simp add: dpc_command_loop.simps [of h s cbuf] 1(2) now add.assoc)
    moreover have "dpc_exec_all tick now (wire_abs s) = Inr (fst res2, snd res @ snd res2)"
      using 1(1) 2(1) by (simp add: now case_prod_beta)
    moreover have "wire_done s s2 (cbuf + length (dpc_encodes now)) (fst res2, snd res @ snd res2)"
      using wire_done_trans [OF 1(3), of s2 _ "fst res2" "snd res2"] 2(2) by (simp add: now add.assoc)
    ultimately show ?thesis using 2(4) by blast
  qed
qed

section \<open>From one \<open>recv\<close> to the next\<close>

text \<open>What holds before a \<open>recv\<close>: the buffer starts with the first request that is not answered, and does not have all of
  it.\<close>

definition waiting :: "'h xvc_dpc srv \<Rightarrow> sock \<Rightarrow> dpc_request list \<Rightarrow> bool" where
  "waiting s k qs \<longleftrightarrow>
     wire_ready s \<and> take (buf_len (cl s)) (rx_buf (cl s)) @ concat (rx k) = dpc_encodes qs \<and>
     (qs \<noteq> [] \<longrightarrow> buf_len (cl s) < length (dpc_encode (hd qs))) \<and>
     [] \<notin> set (rx k) \<and> \<not> rx_error k \<and> length qs \<le> sends_ok k \<and> (\<forall>q \<in> set qs. dpc_fits q) \<and> paced (buf_len (cl s)) (rx k) qs"

lemma waiting_end:
  assumes "waiting s k qs" "rx k = []"
  shows "qs = []" "receive s k = Inr (Finished s k Returned)"
proof -
  have "length (dpc_encodes qs) \<le> buf_len (cl s)"
    using assms by (auto simp: waiting_def dest: arg_cong [of _ _ length])
  then show "qs = []" using assms(1) by (cases qs) (auto simp: waiting_def)
  then show "receive s k = Inr (Finished s k Returned)"
    using assms by (simp add: receive_def sock_recv_def waiting_def)
qed

text \<open>After it, there are more bytes, and \<open>now\<close> can be answered.\<close>

lemma waiting_receive:
  assumes "waiting s k qs" "rx k \<noteq> []"
  shows "\<exists>s1 k1 now rest. receive s k = Inr (Read_more s1 k1) \<and> wire_ready s1 \<and> wire_abs s1 = wire_abs s \<and> tx k1 = tx k \<and>
    sends_ok k1 = sends_ok k \<and> \<not> rx_error k1 \<and> [] \<notin> set (rx k1) \<and> rx_total k1 < rx_total k \<and>
    take (buf_len (cl s1)) (rx_buf (cl s1)) @ concat (rx k1) = dpc_encodes qs \<and>
    completed (buf_len (cl s1)) qs = (now, rest) \<and> segment_fits now \<and>
    paced (buf_len (cl s1) - length (dpc_encodes now)) (rx k1) rest"
proof -
  let ?n = "buf_max (cl s) - buf_len (cl s)"
  have rd: "wire_ready s" using assms(1) by (simp add: waiting_def)
  note w = wire_ready_sizes [OF rd]
  obtain seg segs where rx: "rx k = seg # segs" using assms(2) by (cases "rx k") auto
  have seg: "seg \<noteq> []" using assms(1) rx by (auto simp: waiting_def)
  then have ne: "qs \<noteq> []" using assms(1) rx by (auto simp: waiting_def)
  have "length (dpc_encode (hd qs)) \<le> max_packet_len" "buf_len (cl s) < length (dpc_encode (hd qs))"
    using assms(1) ne by (simp_all add: waiting_def dpc_fits_def)
  then have n: "?n \<noteq> 0" using w(3) by simp
  obtain bs k1 where r: "sock_recv ?n k = (Got bs, k1)" using n rx seg by (simp add: sock_recv_def)
  note g = sock_recv_Got [OF r]
  have k1: "[] \<notin> set (rx k1)" using r assms(1) rx seg n by (auto simp: sock_recv_def waiting_def split: if_split_asm)
  let ?len = "buf_len (cl s) + length bs"
  have p: "paced (buf_len (cl s)) (bs # rx k1) qs"
  proof -
    have "paced (buf_len (cl s)) (seg # segs) qs" using assms(1) rx by (simp add: waiting_def)
    moreover have "bs = seg \<and> rx k1 = segs \<or> bs = take ?n seg \<and> rx k1 = drop ?n seg # segs"
      using r rx seg n by (auto simp: sock_recv_def split: if_split_asm)
    ultimately show ?thesis using paced_split [of "buf_len (cl s)" "take ?n seg" "drop ?n seg" segs qs] by auto
  qed
  obtain now rest where c: "completed ?len qs = (now, rest)" by force
  have fits: "segment_fits now" "paced (?len - length (dpc_encodes now)) (rx k1) rest" using p c by simp_all
  have room: "?len \<le> length (rx_buf (cl s))" using g w by linarith
  define b where "b = take (buf_len (cl s)) (rx_buf (cl s)) @ bs @ drop ?len (rx_buf (cl s))"
  have wr: "write_at (rx_buf (cl s)) (buf_len (cl s)) bs = Inr b" using room by (simp add: write_at_ok b_def)
  let ?s = "s\<lparr>cl := (cl s)\<lparr>rx_buf := b, buf_len := ?len\<rparr>\<rparr>"
  have rec: "receive s k = Inr (Read_more ?s k1)" by (simp add: receive_def r wr)
  have lb: "length b = length (rx_buf (cl s))" using length_write_at [OF wr] .
  have "wire_ready ?s" using rd room lb w(4) by (auto simp: wire_ready_def dpc_ready_def)
  moreover have "take ?len b = take (buf_len (cl s)) (rx_buf (cl s)) @ bs" using room by (simp add: b_def)
  then have "take ?len b @ concat (rx k1) = dpc_encodes qs" using assms(1) g by (simp add: waiting_def)
  moreover have "wire_abs ?s = wire_abs s" by (simp add: wire_abs_def)
  moreover have "rx_total k1 < rx_total k" using g by simp
  ultimately show ?thesis
    using rec g k1 c fits assms(1) by (intro exI [of _ ?s] exI [of _ k1] exI [of _ now] exI [of _ rest]) (simp add: waiting_def)
qed

lemma wire_consume:
  assumes "wire_ready s" "q \<le> buf_len (cl s)"
  shows "\<exists>s'. consume_packet q s = Inr s' \<and> wire_ready s' \<and> wire_abs s' = wire_abs s \<and>
    buf_len (cl s') = buf_len (cl s) - q \<and>
    take (buf_len (cl s')) (rx_buf (cl s')) = take (buf_len (cl s) - q) (drop q (rx_buf (cl s)))"
proof -
  let ?m = "buf_len (cl s) - q" and ?b = "rx_buf (cl s)"
  note w = wire_ready_sizes [OF assms(1)]
  have l: "buf_len (cl s) \<le> length ?b" using w by simp
  define b where "b = take ?m (drop q ?b) @ drop ?m ?b"
  have r: "read_range ?b q ?m = Inr (take ?m (drop q ?b))" using l assms(2) by (intro read_range_ok) simp
  have wr: "write_at ?b 0 (take ?m (drop q ?b)) = Inr b" using l assms(2) by (simp add: write_at_ok b_def)
  let ?s = "s\<lparr>cl := (cl s)\<lparr>rx_buf := b, buf_len := ?m\<rparr>\<rparr>"
  have c: "consume_packet q s = Inr ?s" using assms(2) r wr by (simp add: consume_packet_def Let_def)
  have "wire_ready ?s" using assms(1) w(2,4) length_write_at [OF wr] by (auto simp: wire_ready_def dpc_ready_def)
  moreover have "take ?m b = take ?m (drop q ?b)" using l assms(2) by (simp add: b_def)
  ultimately show ?thesis using c by (simp add: wire_abs_def)
qed

lemma wire_ready_len0: "wire_ready s \<Longrightarrow> wire_ready (s\<lparr>rp := (rp s)\<lparr>reply_len := 0\<rparr>\<rparr>)"
  by (simp add: wire_ready_def) (blast intro: dpc_ready_len0)

lemma wire_turn:
  assumes "dma_engine tick" "wire_table tick h" "wire_ready s"
    and "take (buf_len (cl s)) (rx_buf (cl s)) @ concat (rx k) = dpc_encodes qs" "completed (buf_len (cl s)) qs = (now, rest)"
    and "segment_fits now" "paced (buf_len (cl s) - length (dpc_encodes now)) (rx k) rest"
    and "[] \<notin> set (rx k)" "\<not> rx_error k" "length qs \<le> sends_ok k" "\<forall>q \<in> set qs. dpc_fits q"
  shows "\<exists>out s' k'. dpc_exec_all tick now (wire_abs s) = Inr (wire_abs s', out) \<and> dpc_turn h s k = receive s' k' \<and>
    waiting s' k' rest \<and> concat (tx k') = concat (tx k) @ out \<and> rx_total k' = rx_total k"
proof -
  let ?s0 = "s\<lparr>rp := (rp s)\<lparr>reply_len := 0\<rparr>\<rparr>"
  let ?q = "length (dpc_encodes now)"
  note cs = completed_spec [OF assms(5)]
  have s0: "wire_ready ?s0" "wire_abs ?s0 = wire_abs s"
    by (rule wire_ready_len0 [OF assms(3)]) (simp add: wire_abs_def)
  have len: "buf_len (cl s) \<le> length (rx_buf (cl s))" using wire_ready_sizes [OF assms(3)] by simp
  have u: "upto (rx_buf (cl ?s0)) 0 (buf_len (cl ?s0)) (dpc_encodes qs)"
    using len by (auto simp: upto_def assms(4) [symmetric])
  have fl: "replies_fit (reply_len (rp ?s0)) now" "(\<exists>q \<in> set now. is_setup q) \<longrightarrow> 0 + ?q < max_packet_len"
    using assms(6) by (simp_all add: segment_fits_def)
  have c0: "completed (buf_len (cl ?s0) - 0) qs = (now, rest)" using assms(5) by simp
  from dpc_loop_stream [OF assms(1,2) s0(1) u assms(11) c0 fl] obtain res s1 where
    1: "dpc_exec_all tick now (wire_abs s) = Inr res" "dpc_command_loop h ?s0 0 = Inr (Broke s1 ?q True)"
      "wire_done ?s0 s1 ?q res" "reply_len (rp s1) \<le> max_packet_len"
    unfolding s0(2) by auto
  have turn: "dpc_turn h s k = dpc_after_commands h (Broke s1 ?q True) k" by (simp add: dpc_turn_def 1(2))
  have s1: "wire_ready s1" "wire_abs s1 = fst res" "buf_len (cl s1) = buf_len (cl s)" "drop ?q (rx_buf (cl s1)) = drop ?q (rx_buf (cl s))"
    using 1(3) by (simp_all add: wire_done_def client_frame_def)
  have "reply_bytes (rp ?s0) = []" by (simp add: reply_bytes_def)
  then have out: "reply_bytes (rp s1) = snd res" using 1(3) by (simp add: wire_done_def appended_def)
  have tail: "take (buf_len (cl s1) - ?q) (drop ?q (rx_buf (cl s1))) @ concat (rx k) = dpc_encodes rest"
  proof -
    have "dpc_encodes rest = drop ?q (dpc_encodes qs)" using cs by simp
    also have "\<dots> = drop ?q (take (buf_len (cl s)) (rx_buf (cl s)) @ concat (rx k))" by (simp only: assms(4))
    also have "\<dots> = drop ?q (take (buf_len (cl s)) (rx_buf (cl s))) @ concat (rx k)" using cs len by simp
    finally show ?thesis by (simp add: s1 drop_take)
  qed
  have wt: "waiting s' k' rest"
    if "wire_ready s'" "buf_len (cl s') = buf_len (cl s) - ?q" "rx k' = rx k" "\<not> rx_error k'" "length rest \<le> sends_ok k'"
      "take (buf_len (cl s')) (rx_buf (cl s')) = take (buf_len (cl s1) - ?q) (drop ?q (rx_buf (cl s1)))" for s' k'
    using that tail cs assms(7,8,11) by (auto simp: waiting_def)
  show ?thesis
  proof (cases "now = []")
    case True
    have "waiting s1 k rest" using s1 True cs assms(9,10) by (intro wt) simp_all
    moreover have "dpc_turn h s k = receive s1 k" by (simp add: turn True dpc_after_commands_def)
    moreover have "res = (wire_abs s, [])" using 1(1) True by simp
    ultimately show ?thesis using s1(2) True by (intro exI [of _ "[]"] exI [of _ s1] exI [of _ k]) simp
  next
    case False
    then have pos: "0 < ?q" "0 < sends_ok k" "length rest \<le> sends_ok k - 1" using cs assms(10) by (cases now; simp)+
    define k1 where "k1 = k\<lparr>tx := tx k @ [snd res], sends_ok := sends_ok k - 1\<rparr>"
    have send: "send_packet s1 k = Inr (True, k1)"
      using send_reply [of s1 k] wire_ready_sizes(1) [OF s1(1)] 1(4) pos(2) by (simp add: k1_def out)
    have "?q \<le> buf_len (cl s1)" using cs s1(3) by simp
    from wire_consume [OF s1(1) this] obtain s2 where
      con: "consume_packet ?q s1 = Inr s2" and s2: "wire_ready s2" "wire_abs s2 = wire_abs s1" "buf_len (cl s2) = buf_len (cl s1) - ?q"
        "take (buf_len (cl s2)) (rx_buf (cl s2)) = take (buf_len (cl s1) - ?q) (drop ?q (rx_buf (cl s1)))" by blast
    have fls: "dpc_flush h s1 = (0, s1)" using assms(2) by (simp add: dpc_flush_def wire_table_def packet_table_def)
    have "dpc_turn h s k = receive s2 k1" using pos(1) by (simp add: turn dpc_after_commands_def fls send con)
    moreover have "waiting s2 k1 rest" using s2 s1(3) assms(9) pos(3) by (intro wt) (simp_all add: k1_def)
    moreover have "rx_total k1 = rx_total k" by (simp add: k1_def rx_total_def)
    ultimately show ?thesis
      using 1(1) s1(2) s2(2) by (intro exI [of _ "snd res"] exI [of _ s2] exI [of _ k1]) (simp add: k1_def)
  qed
qed

lemma dpc_exec_all_append:
  "dpc_exec_all tick qs st = Inr (st1, out) \<Longrightarrow> dpc_exec_all tick rs st1 = Inr (st2, outs) \<Longrightarrow>
   dpc_exec_all tick (qs @ rs) st = Inr (st2, out @ outs)"
proof (induction qs arbitrary: st out)
  case (Cons q qs)
  from Cons.prems(1) obtain st' o1 o2 where "dpc_exec tick q st = Inr (st', o1)" "dpc_exec_all tick qs st' = Inr (st1, o2)" "out = o1 @ o2"
    by (auto simp: and_then_eq_Inr)
  with Cons.IH [OF _ Cons.prems(2)] show ?case by simp
qed simp

lemma rest_stream:
  assumes "dma_engine tick" "wire_table tick h" "waiting s k qs"
  shows "\<exists>outs s' k'. dpc_exec_all tick qs (wire_abs s) = Inr (wire_abs s', outs) \<and>
    dpc_rest h (receive s k) = Inr (s', k', Returned) \<and> concat (tx k') = concat (tx k) @ outs \<and> wire_ready s'"
  using assms(3)
proof (induction "rx_total k" arbitrary: s k qs rule: less_induct)
  case less
  show ?case
  proof (cases "rx k = []")
    case True
    note e = waiting_end [OF less.prems True]
    have "wire_ready s" using less.prems by (simp add: waiting_def)
    then show ?thesis
      by (intro exI [of _ "[]"] exI [of _ s] exI [of _ k]) (simp add: e dpc_rest_def)
  next
    case False
    from waiting_receive [OF less.prems False] obtain s1 k1 now rest where
      1: "receive s k = Inr (Read_more s1 k1)" "wire_ready s1" "wire_abs s1 = wire_abs s" "tx k1 = tx k" "sends_ok k1 = sends_ok k"
        "\<not> rx_error k1" "[] \<notin> set (rx k1)" "rx_total k1 < rx_total k"
      and b: "take (buf_len (cl s1)) (rx_buf (cl s1)) @ concat (rx k1) = dpc_encodes qs" "completed (buf_len (cl s1)) qs = (now, rest)"
        "segment_fits now" "paced (buf_len (cl s1) - length (dpc_encodes now)) (rx k1) rest" by blast
    have "length qs \<le> sends_ok k1" "\<forall>q \<in> set qs. dpc_fits q" using less.prems 1(5) by (simp_all add: waiting_def)
    from wire_turn [OF assms(1,2) 1(2) b 1(7,6) this] obtain out s2 k2 where
      2: "dpc_exec_all tick now (wire_abs s1) = Inr (wire_abs s2, out)" "dpc_turn h s1 k1 = receive s2 k2" "waiting s2 k2 rest"
        "concat (tx k2) = concat (tx k1) @ out" "rx_total k2 = rx_total k1" by blast
    from less.hyps [OF _ 2(3)] 2(5) 1(8) obtain outs s3 k3 where
      3: "dpc_exec_all tick rest (wire_abs s2) = Inr (wire_abs s3, outs)" "dpc_rest h (receive s2 k2) = Inr (s3, k3, Returned)"
        "concat (tx k3) = concat (tx k2) @ outs" "wire_ready s3" by auto
    have "qs = now @ rest" using completed_spec [OF b(2)] by simp
    then have "dpc_exec_all tick qs (wire_abs s) = Inr (wire_abs s3, out @ outs)"
      using dpc_exec_all_append [OF 2(1) 3(1)] 1(3) by simp
    moreover have "dpc_rest h (receive s k) = dpc_read_more h s1 k1" by (simp add: 1(1) dpc_rest_def)
    then have "dpc_rest h (receive s k) = Inr (s3, k3, Returned)"
      using 3(2) by (simp add: dpc_read_more_turn 2(2))
    ultimately show ?thesis using 3(3,4) 2(4) 1(4) by auto
  qed
qed

section \<open>Connections\<close>

text \<open>A client that connects, sends the requests \<open>qs\<close> in some segments, reads the replies and closes.\<close>

definition dpc_talks :: "'d connection \<Rightarrow> dpc_request list \<Rightarrow> bool" where
  "dpc_talks k qs \<longleftrightarrow>
     dpc_accepted k \<and> concat (rx (c_sock k)) = dpc_encodes qs \<and> [] \<notin> set (rx (c_sock k)) \<and>
     length qs \<le> sends_ok (c_sock k) \<and> (\<forall>q \<in> set qs. dpc_fits q) \<and> paced 0 (rx (c_sock k)) qs"

lemma dpc_handlers_wire: "wire_table tick (dpc_handlers tick os shown)"
  using dpc_handlers_table [of tick os shown] by (simp add: wire_table_def dpc_handlers_def)

lemma serve_stream:
  assumes "dma_engine tick" "port_closed d" "memory_shown shown d" "dpc_accepted k" "reply_wf r"
    and "dpc_open_port tick os shown d = Inr (0, x, None)" "concat (rx (c_sock k)) = dpc_encodes qs" "[] \<notin> set (rx (c_sock k))"
    and "length qs \<le> sends_ok (c_sock k)" "\<forall>q \<in> set qs. dpc_fits q" "paced 0 (rx (c_sock k)) qs"
  shows "\<exists>c' x' outs k' r'. dpc_exec_all tick qs (conf0, x) = Inr ((c', x'), outs) \<and>
    dpc_serve (dpc_handlers tick os shown) heap k d r fds = Inr (Served k' Returned, dpc_close_port x', r', fds) \<and>
    concat (tx k') = outs \<and> port_closed (dpc_close_port x')"
proof -
  let ?h = "dpc_handlers tick os shown"
  have op: "port_open [] 0 x" using dma_engine.open_port_spec [OF assms(1-3), of os] assms(6) by auto
  obtain r1 where r1: "reply_buf_size heap (word_of_nat max_packet_len) r = Inr r1" "reply_ready r1"
    using reply_buffer_ready [OF assms(5)] by blast
  define s where "s = \<lparr>cl = client0 (c_addr k) (c_block k), rp = r1\<lparr>reply_len := 0\<rparr>, dev = x\<rparr>"
  have sock: "\<not> rx_error (c_sock k)" "tx (c_sock k) = []" using assms(4) by (simp_all add: dpc_accepted_def)
  have "dpc_ready [] 0 s"
    using op r1(2) assms(4) by (simp add: dpc_ready_def s_def client0_def dpc_accepted_def reply_ready_def reply_wf_def)
  then have rdy: "wire_ready s" by (auto simp: wire_ready_def s_def client0_def)
  have z: "buf_len (cl s) = 0" by (simp add: s_def client0_def)
  have "waiting s (c_sock k) qs" using rdy z assms(7-11) sock(1) by (simp add: waiting_def)
  from rest_stream [OF assms(1) dpc_handlers_wire this, of os shown] obtain outs s' k' where
    b: "dpc_exec_all tick qs (wire_abs s) = Inr (wire_abs s', outs)" "dpc_rest ?h (receive s (c_sock k)) = Inr (s', k', Returned)"
      "concat (tx k') = outs" "wire_ready s'" unfolding sock(2) by auto
  have "dpc_read_packet ?h heap \<lparr>cl = client0 (c_addr k) (c_block k), rp = r, dev = x\<rparr> (c_sock k) = Inr (s', k', Returned)"
    using r1(1) b(2) by (simp add: dpc_read_packet_def dpc_read_more_turn dpc_first_turn client0_def s_def)
  then have "dpc_serve ?h heap k d r fds = Inr (Served k' Returned, dpc_close_port (dev s'), rp s', fds)"
    using assms(4,6) by (simp add: dpc_serve_def Let_def dpc_handlers_def dpc_accepted_def report_def)
  moreover have "wire_abs s = (conf0, x)" by (simp add: wire_abs_def s_def client0_def conf0_def conf.defs)
  moreover have "port_closed (dpc_close_port (dev s'))" using b(4) port_open_closed by (auto simp: wire_ready_def dpc_ready_def)
  ultimately show ?thesis using b(1,3) by (auto simp: wire_abs_def)
qed

text \<open>C12. A connection of the packet server refines the abstract server, for all six commands and any segments: when the
  port opens and the client sends requests, cut into segments anywhere, and closes, the server ends
  normally, the bytes it has sent are the replies of the abstract server in order, and the port is closed as
  the last command left it. The replies to what one segment completes have to fit in a packet.\<close>

theorem dpc_conversation:
  assumes "dma_engine tick" "port_closed d" "memory_shown shown d" "dpc_accepted k" "reply_wf r"
    and "dpc_open_port tick os shown d = Inr (0, x, None)" "concat (rx (c_sock k)) = dpc_encodes qs" "[] \<notin> set (rx (c_sock k))"
    and "length qs \<le> sends_ok (c_sock k)" "\<forall>q \<in> set qs. dpc_fits q" "paced 0 (rx (c_sock k)) qs"
  shows "\<exists>c' x' outs k' r'. dpc_exec_all tick qs (conf0, x) = Inr ((c', x'), outs) \<and>
    dpc_serve (dpc_handlers tick os shown) heap k d r fds = Inr (Served k' Returned, dpc_close_port x', r', fds) \<and>
    concat (tx k') = outs \<and> port_closed (dpc_close_port x')"
  by (rule serve_stream [OF assms])

definition talk :: "dpc_request list" where
  "talk = [Caps, Packet (Send_packet 0 [1, 2, 3, 4]), Packet (Fetch_packet 0), Last_error]"

definition talk_client :: "byte list list xvc_dpc connection" where
  "talk_client = \<lparr>peer_ok = True, c_block = replicate max_packet_len 0, c_addr = 0x10000,
     c_sock = \<lparr>rx = [take 20 (dpc_encodes talk), drop 20 (dpc_encodes talk)], rx_error = False, tx = [], sends_ok = 4\<rparr>\<rparr>"

lemma talk_encodes: "dpc_encodes talk =
    bytes_of ''capabilities:'' @ bytes_of ''idpc:'' @ [0, 1, 1, 2, 3, 4] @ bytes_of ''edpc:'' @ [0] @ bytes_of ''error:''"
proof -
  have "(4 :: nat) div 4 = 1" by simp
  then show ?thesis by (simp add: talk_def dpc_encode_def uleb_bytes.simps)
qed

lemma talk_talks: "dpc_talks talk_client talk"
proof -
  have n: "length (dpc_encodes talk) = 36" by (simp add: talk_encodes bytes_of_def)
  have c: "[] \<notin> set (rx (c_sock talk_client))"
    using n arg_cong [of "[]" "take 20 (dpc_encodes talk)" length] by (auto simp: talk_client_def)
  have e: "length (dpc_encode Caps) = 13" "length (dpc_encode (Packet (Send_packet 0 [1, 2, 3, 4]))) = 11"
    "length (dpc_encode (Packet (Fetch_packet 0))) = 6" "length (dpc_encode Last_error) = 6"
    by (simp_all add: dpc_encode_def bytes_of_def uleb_bytes.simps)
  have "(4 :: nat) dvd length [1, 2, 3, 4 :: byte]" by (simp, presburger)
  then have f: "\<forall>q \<in> set talk. dpc_fits q" by (auto simp: talk_def dpc_fits_def is_setup_def max_packet_len_def e)
  have p: "paced 0 (rx (c_sock talk_client)) talk"
    using n by (simp add: talk_client_def) (simp add: talk_def e segment_fits_def is_setup_def max_packet_len_def)
  have "dpc_accepted talk_client" by (simp add: dpc_accepted_def talk_client_def max_packet_len_def)
  moreover have "concat (rx (c_sock talk_client)) = dpc_encodes talk" by (simp add: talk_client_def)
  moreover have "length talk \<le> sends_ok (c_sock talk_client)" by (simp add: talk_client_def talk_def)
  ultimately show ?thesis using c f p by (simp only: dpc_talks_def not_False_eq_True simp_thms)
qed

theorem dpc_conversation_witness:
  "\<exists>x c' x' outs k' r'. dpc_open_port prompt_tick sample_os sample_shown sample_closed = Inr (0, x, None) \<and>
    dpc_exec_all prompt_tick talk (conf0, x) = Inr ((c', x'), outs) \<and>
    dpc_serve (dpc_handlers prompt_tick sample_os sample_shown) (\<lambda>_. 0) talk_client sample_closed reply0 0 =
      Inr (Served k' Returned, dpc_close_port x', r', 0) \<and> concat (tx k') = outs"
proof -
  obtain x where x: "dpc_open_port prompt_tick sample_os sample_shown sample_closed = Inr (0, x, None)"
    using open_port_returns [OF prompt.dma_engine_axioms prompt_answers sample_fresh sample_grants] by blast
  have r: "reply_wf reply0" by (simp add: reply_wf_def reply0_def)
  note k = talk_talks [unfolded dpc_talks_def]
  show ?thesis
    using dpc_conversation [OF prompt.dma_engine_axioms sample_fresh _ r x, of talk_client talk "\<lambda>_. 0" 0] k x by fastforce
qed

end
