(* ===== verification/Dpc_Outcome.thy ===== *)
theory Dpc_Outcome
  imports Dpc_Stream
begin

text \<open>
  How a run of the packet server can end. The locale \<open>packet_callbacks\<close> is what the second engine needs from
  its table of callbacks so that nothing but a fault of its own can stop it; \<open>dpc_handlers\<close> interprets it
  for every engine, kernel and mapping, with no hypothesis on them.
\<close>

section \<open>Well-formed servers\<close>

definition packet_ok :: "'d srv \<Rightarrow> bool" where
  "packet_ok s \<longleftrightarrow>
     length (rx_buf (cl s)) = buf_max (cl s) \<and> buf_len (cl s) \<le> buf_max (cl s) \<and> reply_wf (rp s)"

lemma packet_ok_frame: "packet_ok s \<Longrightarrow> client_frame (cl s) (cl s') \<Longrightarrow> reply_wf (rp s') \<Longrightarrow> packet_ok s'"
  by (simp add: packet_ok_def client_frame_def)

lemma packet_ok_report [simp]: "packet_ok (report e s) \<longleftrightarrow> packet_ok s"
  by (auto simp: packet_ok_def report_def set_error_def split: option.splits)

lemma engine_packet_uleb128: "packet_ok s \<Longrightarrow> engine (get_uleb128 (rx_buf (cl s)) (buf_len (cl s)) p)"
  by (auto simp: packet_ok_def intro!: engineI get_uleb128_engine)

lemma dpc_reply_uleb128_ends [engine_intros]: "engine (dpc_reply_uleb128 v r)"
  unfolding dpc_reply_uleb128_eq by (rule engine_primitives)

lemma dpc_reply_uleb128_wf: "dpc_reply_uleb128 v r = Inr r' \<Longrightarrow> reply_wf r \<Longrightarrow> reply_wf r'"
  unfolding dpc_reply_uleb128_eq by (rule wf_intros)

lemma reply_data_wf: "reply_data n s = Inr s' \<Longrightarrow> reply_wf (rp s) \<Longrightarrow> reply_wf (rp s')"
  by (auto simp: reply_data_def memset0_at_def and_then_eq_Inr reply_wf_def split: if_split_asm)

lemma copy_packet_wf: "copy_packet h b n s = Inr s' \<Longrightarrow> reply_wf (rp s) \<Longrightarrow> reply_wf (rp s')"
  by (auto simp: copy_packet_def and_then_eq_Inr reply_wf_def split: option.split_asm dest!: length_write_at)

lemma dpc_call_rp:
  "call_edpc h fl s = Inr (n, b, s1) \<Longrightarrow> rp s1 = rp s"
  "call_idpc h fl m p s = Inr s1 \<Longrightarrow> rp s1 = rp s"
  by (auto simp: call_edpc_def call_idpc_def res_simps split: option.split_asm if_split_asm)

section \<open>The reply buffer stays well formed\<close>

lemma dpc_commands_wf:
  assumes "reply_wf (rp s)"
  shows "dpc_cmd_capabilities h s p = Inr st \<Longrightarrow> reply_wf (rp (step_srv st))"
    and "dpc_cmd_configure h s cbuf p = Inr st \<Longrightarrow> reply_wf (rp (step_srv st))"
    and "dpc_cmd_error s p = Inr st \<Longrightarrow> reply_wf (rp (step_srv st))"
  using assms
  by (auto simp: dpc_cmd_capabilities_def dpc_cmd_configure_def dpc_cmd_error_def Let_def and_then_eq_Inr
      split: if_split_asm intro: wf_intros dpc_reply_uleb128_wf)

lemma cmd_getinfo_wf: "cmd_getinfo s p = Inr st \<Longrightarrow> reply_wf (rp s) \<Longrightarrow> reply_wf (rp (step_srv st))"
  by (auto simp: cmd_getinfo_def Let_def and_then_eq_Inr reply_wf_def dest!: length_write_at)

lemma cmd_edpc_wf:
  assumes "cmd_edpc h s cbuf p = Inr st" "reply_wf (rp s)"
  shows "reply_wf (rp (step_srv st))"
proof -
  obtain fl p1 where g: "get_uleb128 (rx_buf (cl s)) (buf_len (cl s)) p = Inr (fl, p1)"
    using assms(1) by (auto simp: cmd_edpc_def and_then_eq_Inr)
  show ?thesis
  proof (cases "buf_len (cl s) < p1")
    case True
    with assms g show ?thesis by (auto simp: cmd_edpc_def dest!: need_more_frame)
  next
    case False
    with assms(1) g obtain n b s1 r s2 s3 where
      c: "call_edpc h (ucast fl) s = Inr (n, b, s1)" and r: "dpc_reply_uleb128 (ucast n) (rp s1) = Inr r"
      and d: "copy_packet h b (unat (n * 4)) (s1\<lparr>rp := r\<rparr>) = Inr s2" "reply_data (unat (n * 4)) s2 = Inr s3"
      and st: "st = Reply_with_status s3 p1"
      by (auto simp: cmd_edpc_def Let_def and_then_eq_Inr)
    have "reply_wf r" using dpc_reply_uleb128_wf [OF r] dpc_call_rp(1) [OF c] assms(2) by simp
    then show ?thesis using reply_data_wf [OF d(2)] copy_packet_wf [OF d(1)] st by simp
  qed
qed

lemma cmd_idpc_wf:
  assumes "cmd_idpc h s cbuf p = Inr st" "reply_wf (rp s)"
  shows "reply_wf (rp (step_srv st))"
  using assms
  by (auto simp: cmd_idpc_def and_then_eq_Inr split: if_split_asm dest: need_more_frame dpc_call_rp(2))

lemma dpc_dispatch_wf:
  assumes "dpc_dispatch h s cbuf p hdr = Inr st" "reply_wf (rp s)"
  shows "reply_wf (rp (step_srv st))"
  using assms(1) unfolding dpc_dispatch_def
  by (simp only: sum.inject split: if_split_asm)
     (use assms(2) in \<open>auto dest: cmd_getinfo_wf dpc_commands_wf cmd_edpc_wf cmd_idpc_wf\<close>)

lemma dpc_iteration_wf: "dpc_iteration h s cbuf = Inr r \<Longrightarrow> reply_wf (rp s) \<Longrightarrow> reply_wf (rp (end_srv r))"
proof -
  assume it: "dpc_iteration h s cbuf = Inr r" and wf: "reply_wf (rp s)"
  obtain st where st: "dpc_one_command h s cbuf = Inr st" and f: "finish cbuf st = Inr r"
    using it by (auto simp: dpc_iteration_def and_then_eq_Inr)
  have "reply_wf (rp (step_srv st))"
    using st wf by (auto simp: dpc_one_command_def Let_def and_then_eq_Inr split: if_split_asm dest: dpc_dispatch_wf)
  moreover have "reply_wf (rp s2)" if "with_status s1 = Inr s2" "reply_wf (rp s1)" for s1 s2 :: "'a srv"
    using that by (auto simp: with_status_def and_then_eq_Inr intro: wf_intros)
  ultimately show "reply_wf (rp (end_srv r))"
    using f by (auto simp: finish_def and_then_eq_Inr split: step.split_asm if_split_asm)
qed

lemma dpc_iteration_ok:
  assumes "dpc_iteration h s cbuf = Inr r" "packet_ok s"
  shows "packet_ok (end_srv r)"
proof (rule packet_ok_frame [OF assms(2)])
  show "client_frame (cl s) (cl (end_srv r))" using dpc_iteration_progress [OF assms(1)] by (cases r) simp_all
  show "reply_wf (rp (end_srv r))" using dpc_iteration_wf [OF assms(1)] assms(2) by (simp add: packet_ok_def)
qed

lemma dpc_command_loop_ok: "dpc_command_loop h s cbuf = Inr r \<Longrightarrow> packet_ok s \<Longrightarrow> packet_ok (end_srv r)"
proof (induction h s cbuf arbitrary: r rule: dpc_command_loop.induct)
  case (1 h s cbuf)
  from "1.prems"(1) obtain x where it: "dpc_iteration h s cbuf = Inr x"
    and r: "(case x of Next s' p \<Rightarrow> dpc_command_loop h s' p
       | Broke s' q fill \<Rightarrow> Inr (Broke s' q fill) | Errored s' \<Rightarrow> Inr (Errored s')) = Inr r"
    by (subst (asm) dpc_command_loop.simps) (auto simp: and_then_eq_Inr)
  have "packet_ok (end_srv x)" using dpc_iteration_ok [OF it "1.prems"(2)] .
  then show ?case using r "1.IH" [OF it] by (cases x) auto
qed

lemma dpc_after_commands_ok:
  assumes "packet_ok (end_srv r)" "dpc_after_commands h r k = Inr t"
  shows "packet_ok (turn_srv t)"
proof -
  have rc: "packet_ok (turn_srv t)" if "receive s k = Inr t" "packet_ok s" for s t k
    using that by (auto simp: receive_def and_then_eq_Inr packet_ok_def
        split: prod.split_asm received.split_asm dest!: sock_recv_Got length_write_at)
  have co: "packet_ok s'" if "consume_packet n s = Inr s'" "packet_ok s" for n s s'
    using consume_packet_frame [OF that(1)] that(2) unfolding packet_ok_def by auto
  show ?thesis
  proof (cases r)
    case (Broke s cbuf fill)
    obtain rv s1 where f: "dpc_flush h s = (rv, s1)" by force
    have "packet_ok s1"
    proof (rule packet_ok_frame)
      show "packet_ok s" using assms(1) Broke by simp
      show "client_frame (cl s) (cl s1)" using dpc_flush_frame [of "cl s" h s] f by simp
      have "rp s1 = rp s" using f by (auto simp: dpc_flush_def split: option.split_asm prod.split_asm)
      then show "reply_wf (rp s1)" using \<open>packet_ok s\<close> by (simp add: packet_ok_def)
    qed
    with assms f Broke show ?thesis
      by (auto simp: dpc_after_commands_def and_then_eq_Inr split: if_split_asm dest: co rc)
  qed (use assms in \<open>auto simp: dpc_after_commands_def\<close>)
qed

lemma packet_ok_fresh: "packet_ok s \<Longrightarrow> packet_ok (s\<lparr>rp := (rp s)\<lparr>reply_len := 0\<rparr>\<rparr>)"
  by (simp add: packet_ok_def reply_wf_def)

lemma dpc_turn_ok:
  assumes "dpc_turn h s k = Inr t" "packet_ok s"
  shows "packet_ok (turn_srv t)"
proof -
  obtain r where r: "dpc_command_loop h (s\<lparr>rp := (rp s)\<lparr>reply_len := 0\<rparr>\<rparr>) 0 = Inr r" "dpc_after_commands h r k = Inr t"
    using assms(1) by (auto simp: dpc_turn_def and_then_eq_Inr)
  show ?thesis
    using dpc_after_commands_ok [OF dpc_command_loop_ok [OF r(1) packet_ok_fresh [OF assms(2)]] r(2)] .
qed

lemma dpc_read_more_ok: "dpc_read_more h s k = Inr (s', k', e) \<Longrightarrow> packet_ok s \<Longrightarrow> packet_ok s'"
proof (induction h s k rule: dpc_read_more.induct)
  case (1 h s k)
  from "1.prems"(1) obtain t where t: "dpc_turn h s k = Inr t"
    and r: "(case t of Read_more s' k' \<Rightarrow> dpc_read_more h s' k' | Finished s' k' e \<Rightarrow> Inr (s', k', e)) = Inr (s', k', e)"
    by (subst (asm) dpc_read_more.simps) (auto simp: and_then_eq_Inr)
  have "packet_ok (turn_srv t)" using dpc_turn_ok [OF t "1.prems"(2)] .
  then show ?case using r "1.IH" [OF t] by (cases t) auto
qed

section \<open>What the callbacks promise\<close>

text \<open>
  A callback that is given may only fail as the engine itself can; opening the port may fail in more ways,
  which \<open>start\<close> names.
\<close>

definition stops :: "(fault \<Rightarrow> bool) \<Rightarrow> 'a res \<Rightarrow> bool" where
  "stops start m \<longleftrightarrow> (\<forall>f. m = Inl f \<longrightarrow> engine_fault f \<or> start f)"

locale packet_callbacks =
  fixes h :: "'d dpc_table" and start :: "fault \<Rightarrow> bool"
  assumes open_port_fault: "k_open_port h d = Inl f \<Longrightarrow> start f"
    and idpc_engine: "k_idpc h = Some put \<Longrightarrow> engine (put d fl n b)"
    and edpc_engine: "k_edpc h = Some get \<Longrightarrow> engine (get d fl)"
    and memory_engine: "engine (k_memory h d p m)"
begin

lemma engine_call_edpc: "k_edpc h \<noteq> None \<Longrightarrow> engine (call_edpc h fl s)"
  using edpc_engine by (auto simp: call_edpc_def intro!: engine_intros)

lemma engine_call_idpc: "k_idpc h \<noteq> None \<Longrightarrow> engine (call_idpc h fl n p s)"
  using idpc_engine by (auto simp: call_idpc_def intro!: engine_intros)

lemma engine_copy_packet: "engine (copy_packet h b n s)"
  using memory_engine by (auto simp: copy_packet_def split: option.split intro!: engine_intros)

lemma engine_cmd_edpc: "packet_ok s \<Longrightarrow> k_edpc h \<noteq> None \<Longrightarrow> engine (cmd_edpc h s cbuf p)"
  unfolding cmd_edpc_def Let_def
  by (intro engine_intros; (intro engine_call_edpc engine_copy_packet engine_packet_uleb128)?; assumption?)

lemma engine_cmd_idpc: "packet_ok s \<Longrightarrow> k_idpc h \<noteq> None \<Longrightarrow> engine (cmd_idpc h s cbuf p)"
  unfolding cmd_idpc_def
  by (intro engine_intros; (intro engine_call_idpc engine_packet_uleb128)?; assumption?)

lemma engine_plain:
  assumes "packet_ok s"
  shows "engine (cmd_getinfo s p)" "engine (dpc_cmd_capabilities h s p)" "engine (dpc_cmd_error s p)"
    "engine (dpc_cmd_configure h s cbuf p)"
  using assms unfolding cmd_getinfo_def dpc_cmd_capabilities_def dpc_cmd_error_def dpc_cmd_configure_def Let_def
  by (intro engine_intros; (intro engine_packet_uleb128)?; assumption?)+

lemma engine_dpc_dispatch: "packet_ok s \<Longrightarrow> engine (dpc_dispatch h s cbuf p hdr)"
  unfolding dpc_dispatch_def
  by (intro engine_control(2) engine_control(1) engine_plain engine_cmd_edpc engine_cmd_idpc) auto

lemma engine_dpc_iteration: "packet_ok s \<Longrightarrow> engine (dpc_iteration h s cbuf)"
  unfolding dpc_iteration_def dpc_one_command_def Let_def
  by (intro engine_intros engine_dpc_dispatch)
     (auto simp: finish_def split: step.split intro!: engine_intros)

lemma engine_dpc_command_loop: "packet_ok s \<Longrightarrow> engine (dpc_command_loop h s cbuf)"
proof (induction h\<equiv>h s cbuf rule: dpc_command_loop.induct)
  case (1 s cbuf)
  show ?case
    unfolding dpc_command_loop.simps [of h s cbuf]
  proof (rule engine_and_then)
    show "engine (dpc_iteration h s cbuf)" by (rule engine_dpc_iteration [OF "1.prems"])
  next
    fix r assume it: "dpc_iteration h s cbuf = Inr r"
    show "engine (case r of Next s' p \<Rightarrow> dpc_command_loop h s' p
       | Broke s' q fill \<Rightarrow> Inr (Broke s' q fill) | Errored s' \<Rightarrow> Inr (Errored s'))"
      using "1.hyps" [OF it] dpc_iteration_ok [OF it "1.prems"]
      by (auto split: loop_end.split intro: engine_intros)
  qed
qed

lemma engine_dpc_after_commands: "(\<And>s p. r \<noteq> Next s p) \<Longrightarrow> engine (dpc_after_commands h r k)"
  unfolding dpc_after_commands_def by (cases r) (auto split: prod.split intro!: engine_intros)

lemma engine_dpc_turn:
  assumes "packet_ok s"
  shows "engine (dpc_turn h s k)"
proof -
  have "engine (dpc_after_commands h r k)"
    if "dpc_command_loop h (s\<lparr>rp := (rp s)\<lparr>reply_len := 0\<rparr>\<rparr>) 0 = Inr r" for r
    using dpc_command_loop_end [OF that] by (intro engine_dpc_after_commands) auto
  then show ?thesis
    unfolding dpc_turn_def by (intro engine_and_then engine_dpc_command_loop packet_ok_fresh assms)
qed

lemma engine_dpc_read_more: "packet_ok s \<Longrightarrow> engine (dpc_read_more h s k)"
proof (induction h\<equiv>h s k rule: dpc_read_more.induct)
  case (1 s k)
  show ?case
    unfolding dpc_read_more.simps [of h s k]
  proof (rule engine_and_then)
    show "engine (dpc_turn h s k)" by (rule engine_dpc_turn [OF "1.prems"])
  next
    fix t assume t: "dpc_turn h s k = Inr t"
    show "engine (case t of Read_more s' k' \<Rightarrow> dpc_read_more h s' k' | Finished s' k' e \<Rightarrow> Inr (s', k', e))"
      using "1.hyps" [OF t] dpc_turn_ok [OF t "1.prems"]
      by (auto split: turn.split intro: engine_intros)
  qed
qed

text \<open>A connection, and all of them.\<close>

lemma dpc_serve_ok:
  assumes "reply_wf r" "connection_ok k"
  shows "stops start (dpc_serve h heap k d r fds)"
    and "dpc_serve h heap k d r fds = Inr (o1, d', r', fds') \<Longrightarrow> reply_wf r'"
proof -
  have rb: "\<exists>r1. reply_buf_size heap (word_of_nat max_packet_len) r = Inr r1 \<and> reply_wf r1"
    using reply_buf_size_ready [OF assms(1), of heap] by (auto simp: max_packet_len_def reply_ready_def)
  have ok: "packet_ok ((report e \<lparr>cl = client0 (c_addr k) (c_block k), rp = r, dev = d1\<rparr>)\<lparr>rp := r1\<rparr>)"
    if "reply_wf r1" for e r1 and d1 :: 'd
    using that assms(2) by (auto simp: packet_ok_def report_def set_error_def client0_def connection_ok_def split: option.split)
  show "stops start (dpc_serve h heap k d r fds)"
    using rb open_port_fault engine_dpc_read_more [OF ok]
    by (fastforce simp: stops_def dpc_serve_def dpc_read_packet_def Let_def and_then_eq_Inl engine_def
        split: if_split_asm prod.split_asm)
  show "reply_wf r'" if "dpc_serve h heap k d r fds = Inr (o1, d', r', fds')"
    using that rb assms(1) dpc_read_more_ok [OF _ ok]
    by (fastforce simp: dpc_serve_def dpc_read_packet_def Let_def and_then_eq_Inr packet_ok_def
        split: if_split_asm prod.split_asm)
qed

lemma dpc_accept_loop_stops:
  "reply_wf r \<Longrightarrow> \<forall>k \<in> set ks. connection_ok k \<Longrightarrow> stops start (dpc_accept_loop h heap ks d r fds)"
proof (induction ks arbitrary: d r fds)
  case Nil
  then show ?case by (simp add: stops_def)
next
  case (Cons k ks)
  have k: "connection_ok k" using Cons.prems(2) by simp
  have "stops start (dpc_accept_loop h heap ks d1 r1 fds1)"
    if "dpc_serve h heap k d r fds = Inr (o1, d1, r1, fds1)" for o1 d1 r1 fds1
    using Cons.IH [OF dpc_serve_ok(2) [OF Cons.prems(1) k that]] Cons.prems(2) by simp
  then show ?case
    using dpc_serve_ok(1) [OF Cons.prems(1) k, of heap d fds]
    by (fastforce simp: stops_def and_then_eq_Inl)
qed

lemma dpc_start_stops:
  assumes "reply_wf r" "\<forall>k \<in> set conns. connection_ok k"
  shows "stops start (dpc_xvcserver_start h heap w conns url d r fds)"
proof -
  have "stops start (parse_url url)" using parse_url_engine [of url] by (auto simp: stops_def engine_def)
  then show ?thesis
    using dpc_accept_loop_stops [OF assms]
    by (fastforce simp: stops_def dpc_xvcserver_start_def and_then_eq_Inl split: sum.split_asm prod.split_asm if_split_asm)
qed

end

section \<open>The callbacks of \<open>xvc_dpc.c\<close>\<close>

lemma engine_accesses [engine_intros]:
  "engine (read_idesc tick i s)" "engine (read_edesc tick i s)" "engine (write_idesc tick i g s)" "engine (write_edesc tick i g s)"
  by (simp_all add: read_idesc_def read_edesc_def write_idesc_def write_edesc_def engine_def engine_fault_def Let_def)

lemma engine_window [engine_intros]: "engine (write_window tick p bs s)" "engine (read_window tick p n s)"
  unfolding write_window_def read_window_def Let_def by (intro engine_intros)+

lemma engine_await_ingress [engine_intros]: "engine (await_ingress tick ii n s)"
  by (induction n arbitrary: s) (auto intro!: engine_intros)

lemma engine_rings [engine_intros]:
  "engine (hsdp_poll_fast_packet tick h s)" "engine (hsdp_send_packet tick h s buf wc)"
  unfolding hsdp_poll_fast_packet_def hsdp_send_packet_def Let_def
  by (intro engine_intros)+

lemma engine_callbacks: "engine (idpc tick x fl n b)" "engine (edpc tick x fl)" "engine (copy_out tick x q m)"
  unfolding idpc_def edpc_def copy_out_def hsdp_receive_fast_packet_def Let_def
  by (intro engine_intros | simp add: engine_def engine_fault_def)+

text \<open>Opening the port can also exit, or wait for an engine that never gets ready.\<close>

definition start_fault :: "'h tick \<Rightarrow> fault \<Rightarrow> bool" where
  "start_fault tick f \<longleftrightarrow>
     engine_fault f \<or> f = Exit 1 \<or> f = Hang \<and> (\<exists>h s. hsdp_setup_dma tick h s = Inl Hang)"

lemma engine_setup:
  "engine (setup_ingress tick h n i m s)" "engine (setup_egress tick h n i m s)"
  by (induction m arbitrary: i s) (auto intro!: engine_intros)

lemma setup_dma_fault:
  assumes "hsdp_setup_dma tick h s = Inl f"
  shows "engine_fault f \<or> f = Hang"
proof -
  have i: "setup_ingress tick h' n i m s' = Inl g \<Longrightarrow> engine_fault g" for h' n i m s' g
    using engine_setup(1) unfolding engine_def by blast
  have e: "setup_egress tick h' n i m s' = Inl g \<Longrightarrow> engine_fault g" for h' n i m s' g
    using engine_setup(2) unfolding engine_def by blast
  have b: "engine_fault Out_of_bounds" by (simp add: engine_fault_def)
  show ?thesis
    using assms b
    by (auto simp: hsdp_setup_dma_def Let_def and_then_eq_Inl returned_def ensure_def
        split: option.split_asm if_split_asm dest: i e)
qed

lemma open_port_fault: "dpc_open_port tick os shown x = Inl f \<Longrightarrow> start_fault tick f"
proof -
  have p: "pointee l b = Inl g \<Longrightarrow> engine_fault g" for l b g
    by (auto simp: pointee_def engine_fault_def split: option.split_asm if_split_asm)
  have a: "alloc_buffers os l = Inl g \<Longrightarrow> engine_fault g \<or> g = Exit 1" for l g
    by (auto simp: alloc_buffers_def mmap_buffer_def ensure_def engine_fault_def Let_def and_then_eq_Inl split: if_split_asm)
  have s: "hsdp_setup tick l h m = Inl g \<Longrightarrow> start_fault tick g" for l h m g
    using setup_dma_fault
    by (fastforce simp: hsdp_setup_def hsdp_enable_def and_then_eq_Inl start_fault_def dest: p)
  have o: "hsdp_open tick os shown l m = Inl g \<Longrightarrow> start_fault tick g" for l m g
    by (auto simp: hsdp_open_def and_then_eq_Inl ensure_def start_fault_def engine_fault_def split: if_split_asm
        dest: p a s [unfolded start_fault_def engine_fault_def])
  then show "dpc_open_port tick os shown x = Inl f \<Longrightarrow> start_fault tick f"
    by (auto simp: dpc_open_port_def Let_def and_then_eq_Inl)
qed

interpretation dpc: packet_callbacks "dpc_handlers tick os shown" "start_fault tick" for tick os shown
  by unfold_locales (auto simp: dpc_handlers_def engine_callbacks open_port_fault)

section \<open>Property\<close>



end
