(* ===== verification/Dpc_Serve.thy ===== *)
theory Dpc_Serve
  imports Dpc_Wire Dpc_Outcome
begin

text \<open>
  The packet server as a whole, from \<open>main\<close> of \<open>dpc/src/xvc_dpc.c\<close> down to the rings: clients are
  accepted one after the other, the port is opened for each of them and closed, though not
  unmapped, after it. The abstract program \<open>dpc_serve_all\<close> runs the requests of the clients in turn;
  \<open>dpc_main\<close> refines it when the engine answers and the kernel grants the mappings.
\<close>

section \<open>The abstract program\<close>

primrec dpc_serve_all ::
    "'h tick \<Rightarrow> dpc_os \<Rightarrow> 'h shown \<Rightarrow> dpc_request list list \<Rightarrow> 'h xvc_dpc \<Rightarrow> (byte list list \<times> 'h xvc_dpc) res" where
  "dpc_serve_all tick os shown [] d = Inr ([], d)"
| "dpc_serve_all tick os shown (qs # qss) d =
     and_then (dpc_open_port tick os shown d) (\<lambda>(rv, x, e).
     and_then (dpc_exec_all tick qs (conf0, x)) (\<lambda>((c, x1), out).
     and_then (dpc_serve_all tick os shown qss (dpc_close_port x1)) (\<lambda>(outs, x2).
       Inr (out # outs, x2))))"

section \<open>What a connection leaves as it is\<close>

text \<open>The two regions, and with them what is behind the mappings and whether they are granted.\<close>

definition same_regions :: "'h xvc_dpc \<Rightarrow> 'h xvc_dpc \<Rightarrow> bool" where
  "same_regions x y \<longleftrightarrow> dma_config y = dma_config x \<and> buf_config y = buf_config x"

lemma same_regions_trans: "same_regions x y \<Longrightarrow> same_regions y z \<Longrightarrow> same_regions x z"
  by (simp add: same_regions_def)

lemma same_regions_env:
  "same_regions x y \<Longrightarrow> memory_shown shown y = memory_shown shown x \<and> grants os y = grants os x"
  by (simp add: same_regions_def memory_shown_def grants_def)

lemma same_regionsI:
  "dma_region y = dma_region x \<Longrightarrow> buf_region y = buf_region x \<Longrightarrow> lib y = lib x \<Longrightarrow> same_regions x y"
  by (simp add: same_regions_def dma_config_def buf_config_def)

lemma close_same: "same_regions x (dpc_close_port x)"
  by (rule same_regionsI) (simp_all add: dpc_close_port_def hsdp_close_def)

lemma alloc_buffers_sizes:
  "alloc_buffers os l = Inr l' \<Longrightarrow> dma_size l' = dma_size l \<and> data_size l' = data_size l"
  by (auto simp: alloc_buffers_def mmap_buffer_def and_then_eq_Inr ensure_eq_Inr Let_def split: if_split_asm)

lemma open_same:
  assumes "dpc_open_port tick os shown x = Inr (rv, x', e)"
  shows "same_regions x x'"
proof -
  have "dma_region x' = dma_region x" "buf_region x' = buf_region x"
    and "dma_size (lib x') = (if r_size (dma_region x) \<noteq> 0 then r_size (dma_region x) else dma_size (lib x))"
    and "data_size (lib x') = (if r_size (buf_region x) \<noteq> 0 then r_size (buf_region x) else data_size (lib x))"
    using assms
    by (auto simp: dpc_open_port_def hsdp_open_def and_then_eq_Inr setup_dma_region_def setup_buffer_region_def Let_def
        split: if_split_asm dest!: alloc_buffers_sizes)
  then show ?thesis by (simp add: same_regions_def dma_config_def buf_config_def)
qed

lemma callbacks_same:
  "idpc tick x fl n b = Inr (x', e) \<Longrightarrow> same_regions x x'"
  "edpc tick x fl = Inr (wc, p, x', e) \<Longrightarrow> same_regions x x'"
  "copy_out tick x q m = Inr (bs, x') \<Longrightarrow> same_regions x x'"
  by (auto simp: idpc_def edpc_def copy_out_def and_then_eq_Inr Let_def intro!: same_regionsI split: if_split_asm)

lemma act_same: "act tick a x = Inr (ev, x') \<Longrightarrow> same_regions x x'"
  by (auto simp: act_def and_then_eq_Inr split: action.split_asm option.split_asm
      dest!: callbacks_same intro: same_regions_trans)

lemma same_regions_refl: "same_regions x x"
  by (simp add: same_regions_def)

lemma packet_exec_same:
  assumes "packet_exec tick q st = Inr (st', out)"
  shows "same_regions (snd st) (snd st')"
proof (cases "fst st = []")
  case True
  show ?thesis
  proof (cases q)
    case (Send_packet fl d)
    with assms True obtain ev x where
      "act tick (Idpc (ucast fl) (word_of_nat (length d div 4)) d) (snd st) = Inr (ev, x)"
      and "(case ev of Refused m \<Rightarrow> ((take 1023 (cstring m), x), [1]) | _ \<Rightarrow> (([], x), [0])) = (st', out)"
      by (auto simp: and_then_eq_Inr)
    then show ?thesis by (cases ev) (auto dest: act_same)
  next
    case (Fetch_packet fl)
    with assms True show ?thesis by (auto simp: and_then_eq_Inr dest: act_same)
  qed
next
  case False
  then show ?thesis using assms by (cases q) (auto simp: same_regions_refl)
qed

lemma dpc_exec_same: "dpc_exec tick q st = Inr (st', out) \<Longrightarrow> same_regions (snd st) (snd st')"
  by (cases q) (auto simp: and_then_eq_Inr same_regions_refl Let_def dest!: packet_exec_same)

lemma dpc_exec_all_same: "dpc_exec_all tick qs st = Inr (st', outs) \<Longrightarrow> same_regions (snd st) (snd st')"
proof (induction qs arbitrary: st outs)
  case (Cons q qs)
  then obtain st1 o1 o2 where "dpc_exec tick q st = Inr (st1, o1)" "dpc_exec_all tick qs st1 = Inr (st', o2)"
    by (auto simp: and_then_eq_Inr)
  from dpc_exec_same [OF this(1)] Cons.IH [OF this(2)] show ?case by (rule same_regions_trans)
qed (simp add: same_regions_refl)

section \<open>The accept loop\<close>

lemma dpc_talks_block: "dpc_talks k qs \<Longrightarrow> connection_ok k"
  by (simp add: dpc_talks_def dpc_accepted_def connection_ok_def)

lemma dpc_accept_loop_serves:
  assumes "dma_engine tick" "answers tick" "allocates os" "list_all2 dpc_talks ks qss"
    and "port_closed d" "memory_shown shown d" "grants os d" "reply_wf r"
  shows "\<exists>socks outs d' r'. dpc_serve_all tick os shown qss d = Inr (outs, d') \<and>
    dpc_accept_loop (dpc_handlers tick os shown) heap ks d r fds = Inr (map (\<lambda>k. Served k Returned) socks, d', r', fds) \<and>
    map (\<lambda>k. concat (tx k)) socks = outs"
  using assms(4-8)
proof (induction ks qss arbitrary: d r rule: list_all2_induct)
  case Nil
  then show ?case by (intro exI [of _ "[]"]) simp
next
  case (Cons k ks qs qss)
  let ?h = "dpc_handlers tick os shown"
  have k: "dpc_talks k qs" using Cons.hyps by simp
  obtain x where x: "dpc_open_port tick os shown d = Inr (0, x, None)"
    using open_port_returns [OF assms(1,2) Cons.prems(1-3) assms(3)] by blast
  from serve_stream [OF assms(1) Cons.prems(1,2) _ Cons.prems(4) x, of k qs heap fds] k [unfolded dpc_talks_def]
  obtain c x1 out k' r' where
    ex: "dpc_exec_all tick qs (conf0, x) = Inr ((c, x1), out)"
    and s: "dpc_serve ?h heap k d r fds = Inr (Served k' Returned, dpc_close_port x1, r', fds)"
    and out: "concat (tx k') = out" and cl: "port_closed (dpc_close_port x1)" by blast
  have "same_regions d (dpc_close_port x1)"
    using same_regions_trans [OF open_same [OF x] same_regions_trans [OF _ close_same]] dpc_exec_all_same [OF ex] by simp
  then have env: "memory_shown shown (dpc_close_port x1)" "grants os (dpc_close_port x1)"
    using same_regions_env Cons.prems(2,3) by blast+
  have "reply_wf r'" using dpc.dpc_serve_ok(2) [OF Cons.prems(4) dpc_talks_block [OF k] s] .
  from Cons.IH [OF cl env this] obtain socks outs d' r2 where
    a: "dpc_serve_all tick os shown qss (dpc_close_port x1) = Inr (outs, d')"
      "dpc_accept_loop ?h heap ks (dpc_close_port x1) r' fds = Inr (map (\<lambda>k. Served k Returned) socks, d', r2, fds)"
      "map (\<lambda>k. concat (tx k)) socks = outs" by blast
  show ?case
    using x ex s out a by (intro exI [of _ "k' # socks"] exI [of _ "out # outs"] exI [of _ d'] exI [of _ r2]) simp
qed

section \<open>Property\<close>


definition sample_argv :: "byte list list" where
  "sample_argv = map bytes_of [''--dma_addr'', ''0xA4000000'', ''--buf_addr'', ''0x1000'']"

lemma sample_options:
  "dpc_parse_args sample_argv (dpc_options0 a b) =
     Inr ((dpc_options0 a b)\<lparr>q_dma := \<lparr>r_addr = 0xA4000000, r_size = 0\<rparr>, q_buf := \<lparr>r_addr = 0x1000, r_size = 0\<rparr>\<rparr>)"
  by (simp add: sample_argv_def bytes_of_def numeric_option_def dpc_options0_def strtoul_def is_space_def magnitude_def
      number_def digit_value_def Let_def)


end
