(* ===== verification/Dpc_Faults.thy ===== *)
theory Dpc_Faults
  imports Dpc_Props Dpc_Session
begin

unbundle bit_operations_syntax

text \<open>
  Faults of the packet server: \<open>idpc\<close> compares a number of words with a number of bytes, so that a
  packet can run over the slots behind its own; and \<open>hsdp_poll_fast_packet\<close> gives a slot back to the
  engine before its packet is copied out; \<open>main\<close> leaves the addresses uninitialised.
\<close>

section \<open>A packet that is too large\<close>

lemma write_at_inside: "off + length ys \<le> length xs \<Longrightarrow> write_at xs off ys = Inr (take off xs @ ys @ drop (off + length ys) xs)"
  by (simp add: write_at_def)

lemma islot_3: "k mod 4 = 3 \<Longrightarrow> islot k = 0xE30" and eslot_0: "k mod 4 = 0 \<Longrightarrow> eslot k = 0x1240"
  by (simp_all add: islot_def eslot_def)

text \<open>With an engine that does not move, the packet lands in the window behind its slot.\<close>

lemma send_oversized:
  assumes "rings sent r s" "host_ok (win_phys s) sent r h" "length sent < length (consumed s) + 4" "length sent mod 4 = 3"
    and "length buf = 4124"
  shows "\<exists>h' s'. hsdp_send_packet (\<lambda>s. s) h s buf 1031 = Inr (0, h', s') \<and> epkts h' = epkts h \<and> edesc h' = edesc h \<and>
    edescs s' = edescs s \<and> produced s' = produced s \<and> win_phys s' = win_phys s \<and>
    window s' = take 0xE30 (window s) @ buf @ drop (0xE30 + 4124) (window s)"
proof -
  let ?j = "length sent mod 4"
  have nx: "hsdp_next (idesc h) = ?j" using assms(2) by (simp add: host_ok_def)
  have free: "sts_done (d_sts (idescs s ! ?j))" using assms(1,3) by (simp add: rings_def ring_in_def)
  have l: "?j < length (idescs s)" using assms(1) mod4_le [of "length sent"] by (simp add: rings_def ring_in_def)
  have aw: "await_ingress (\<lambda>s. s) ?j 1000 s = Inr (True, s)"
    unfolding numeral_eq_Suc [of "num.Bit0 _"] pred_numeral_simps await_ingress.simps
    using free l by (simp add: read_idesc_def)
  have sz: "size_of_words 1031 = 4124" by (simp add: size_of_words_def)
  have rd: "read_range buf 0 4124 = Inr buf" using assms(5) by (simp add: read_range_def)
  have "0x2280 \<le> length (window s)" using assms(1) by (simp add: rings_def window_ok_def)
  then have w: "write_at (window s) 0xE30 buf = Inr (take 0xE30 (window s) @ buf @ drop (0xE30 + 4124) (window s))"
    using assms(5) by (simp add: write_at_inside)
  show ?thesis
    unfolding hsdp_send_packet_def Let_def nx sz aw and_then_simps prod.case rd host_ok_addresses(2) [OF assms(2)] islot_3 [OF assms(4)]
      write_window_def w write_idesc_def read_idesc_def
    using l by simp
qed

text \<open>A poll when the engine does not move: what is handed out is the packet's place and length.\<close>

lemma still_poll:
  assumes "edescs s = edescs t" "win_phys s = win_phys t" "rings sent r t" "r < length (produced t)"
    and "edesc h = edesc g" "epkts h = epkts g" "host_ok (win_phys t) sent r g"
  shows "\<exists>h' s'. hsdp_poll_fast_packet (\<lambda>s. s) h s =
      Inr (\<lparr>p_buf = Some (int (eslot r)), p_words = length (produced t ! r) div 4, p_slot = Some (buffer_at (epkts h) (r mod 4))\<rparr>, h', s') \<and>
    window s' = window s"
proof -
  let ?q = "produced t ! r" and ?j = "r mod 4"
  have nx: "hsdp_next (edesc h) = ?j" using assms(5,7) by (simp add: host_ok_def)
  have q: "d_sts (edescs s ! ?j) = 0x80000000 OR word_of_nat (length ?q)" "length ?q \<le> 0x410"
    using assms(1,3,4) by (simp_all add: rings_def ring_out_def arrived_def)
  have "d_buff (edescs s ! ?j) = word_of_nat (win_phys t + eslot r)"
    using assms(1,3) by (simp add: rings_def ring_out_def)
  moreover have "unat (word_of_nat (win_phys t + eslot r) :: 32 word) = win_phys t + eslot r"
    using assms(3) eslot_le [of r] by (simp add: rings_def window_ok_def unat_word_of_nat_32 del: of_nat_add)
  ultimately have b: "int (buffer_at (epkts h) 0) + (int (unat (d_buff (edescs s ! ?j))) - int (axi_base (epkts h))) = int (eslot r)"
    unfolding assms(6) host_ok_addresses(4,5) [OF assms(7)] by (simp del: of_nat_add)
  have l: "?j < length (edescs s)" using assms(1,3) mod4_le [of r] by (simp add: rings_def ring_out_def)
  note st = status_of_size [OF q(2)] done_status(1) [of "word_of_nat (length ?q)"]
  show ?thesis
    unfolding hsdp_poll_fast_packet_def Let_def nx read_edesc_def write_edesc_def if_P [OF l] and_then_simps prod.case q(1)
      if_not_P [OF st(1)] if_P [OF st(3)] st(2) b
    using l by simp
qed

text \<open>C34. The check on the size of an ingress packet compares the number of words with
  \<open>MAX_PACKET_SIZE\<close>, which counts bytes: a packet of 1031 words is accepted, and written to the last ingress slot of
  1040 bytes it overwrites the packets that wait in the egress slots behind it. The next \<open>edpc:\<close>
  then hands the client bytes of its own packet, although the engine did nothing in between.\<close>

theorem dpc_oversized_packet:
  assumes "port_open sent r x" "length sent < length (consumed (mem x)) + 4" "length sent mod 4 = 3"
    and "r < length (produced (mem x))" "r mod 4 = 0" "length buf = 4124"
  shows "\<exists>m x'. acts (\<lambda>s. s) [Idpc fl 1031 buf, Edpc fl'] x =
    Inr ([Sent buf, Received (take (length (produced (mem x) ! r)) (drop 0x410 buf)) m], x')"
proof -
  have run: "rings sent r (mem x)" "host_ok (win_phys (mem x)) sent r (hsdp x)" using assms(1) by (simp_all add: port_open_def)
  let ?q = "produced (mem x) ! r"
  have q: "d_sts (edescs (mem x) ! (r mod 4)) = 0x80000000 OR word_of_nat (length ?q)" "?q \<noteq> []" "4 dvd length ?q" "length ?q \<le> 0x410"
    using run(1) assms(4) by (simp_all add: rings_def ring_out_def arrived_def)
  from send_oversized [OF run assms(2,3,6)] obtain h1 s1 where s1: "hsdp_send_packet (\<lambda>s. s) (hsdp x) (mem x) buf 1031 = Inr (0, h1, s1)"
    "epkts h1 = epkts (hsdp x)" "edesc h1 = edesc (hsdp x)" "edescs s1 = edescs (mem x)" "produced s1 = produced (mem x)"
    "win_phys s1 = win_phys (mem x)" "window s1 = take 0xE30 (window (mem x)) @ buf @ drop (0xE30 + 4124) (window (mem x))" by blast
  define x1 where "x1 = x\<lparr>hsdp := h1, mem := s1\<rparr>"
  have i: "idpc (\<lambda>s. s) x fl 1031 buf = Inr (x1, None)"
    using s1(1) by (simp add: idpc_def max_packet_size_def x1_def)
  have hm: "hsdp x1 = h1" "mem x1 = s1" by (simp_all add: x1_def)
  from still_poll [OF s1(4,6) run(1) assms(4) s1(3,2) run(2)] obtain h2 s2 where
    p: "hsdp_poll_fast_packet (\<lambda>s. s) h1 s1 = Inr (\<lparr>p_buf = Some (int (eslot r)), p_words = length ?q div 4,
      p_slot = Some (buffer_at (epkts h1) (r mod 4))\<rparr>, h2, s2)" "window s2 = window s1" by blast
  obtain k where k: "length ?q = 4 * k" using q(3) by (rule dvdE)
  have k0: "0 < k" "k \<le> 260" using k q(2,4) by (cases "k = 0"; simp)+
  then have u: "unat (word_of_nat k :: 64 word) = k" by (intro unat_word_of_nat_64) simp
  define x2 where "x2 = x1\<lparr>hsdp := h2, mem := s2\<rparr>"
  have e: "edpc (\<lambda>s. s) x1 fl' = Inr (word_of_nat k, Some (int 0x1240), x2, None)"
    using p(1) k k0(1) by (simp add: edpc_def hsdp_receive_fast_packet_def hm eslot_0 [OF assms(5)] x2_def)
  have lw: "0x2280 \<le> length (window (mem x))" using run(1) by (simp add: rings_def window_ok_def)
  have "drop 0x1240 (window s2) = drop 0x410 buf @ drop (0xE30 + 4124) (window (mem x))"
    unfolding p(2) s1(7) using lw assms(6) by simp
  moreover have "0x1240 + 4 * k \<le> length (window s2)" unfolding p(2) s1(7) using lw assms(6) k0 by simp
  ultimately have c: "read_range (window s2) 0x1240 (4 * k) = Inr (take (length ?q) (drop 0x410 buf))"
    using assms(6) k k0 by (simp add: read_range_def)
  have "copy_out (\<lambda>s. s) x2 (int 0x1240) (k * 4) = Inr (take (length ?q) (drop 0x410 buf), x2)"
    using c by (simp add: copy_out_def read_window_def x2_def mult.commute)
  then have "act (\<lambda>s. s) (Edpc fl') x1 = Inr (Received (take (length ?q) (drop 0x410 buf)) (length (produced (mem x2))), x2)"
    by (simp add: act_def e u)
  moreover have "act (\<lambda>s. s) (Idpc fl 1031 buf) x = Inr (Sent buf, x1)"
    using assms(6) by (simp add: act_def i)
  ultimately show ?thesis by simp
qed

text \<open>A port on which \<open>c\<close> was sent and taken, and \<open>n\<close> packets of one word wait.\<close>

definition sample_waiting :: "byte list list \<Rightarrow> nat \<Rightarrow> byte list list \<Rightarrow> byte list list dma" where
  "sample_waiting c n ps = (sample_dma ps)\<lparr>consumed := c, produced := replicate n [0, 0, 0, 0],
     edescs := map (\<lambda>k. \<lparr>d_next = 0, d_buff = word_of_nat (0x1000 + eslot k), d_cntl = packet_cntl 0x410,
       d_sts = if k < n then 0x80000000 OR word_of_nat 4 else 0\<rparr>) [0..<4]\<rparr>"

definition sample_busy :: "byte list list \<Rightarrow> nat \<Rightarrow> byte list list \<Rightarrow> byte list list xvc_dpc" where
  "sample_busy c n ps = (sample_port ps)\<lparr>mem := sample_waiting c n ps,
     hsdp := sample_hsdp\<lparr>idesc := (idesc sample_hsdp)\<lparr>last_idx := int (length c mod 4) - 1\<rparr>\<rparr>\<rparr>"

lemma sample_waiting_fields: "win_phys (sample_waiting c n ps) = 0x1000" "window (sample_waiting c n ps) = replicate 0x2280 0"
    "idescs (sample_waiting c n ps) = idescs (sample_dma ps)" "i_cntl (sample_waiting c n ps) = 1" "e_cntl (sample_waiting c n ps) = 1"
    "consumed (sample_waiting c n ps) = c" "produced (sample_waiting c n ps) = replicate n [0, 0, 0, 0]" "env (sample_waiting c n ps) = ps"
  by (simp_all add: sample_waiting_def sample_dma_def)

lemma sample_waiting_edesc: "edescs (sample_waiting c n ps) ! (k mod 4) =
    \<lparr>d_next = 0, d_buff = word_of_nat (0x1000 + eslot k), d_cntl = packet_cntl 0x410,
     d_sts = if k mod 4 < n then 0x80000000 OR word_of_nat 4 else 0\<rparr>"
proof -
  have "k mod 4 < 4" by simp
  moreover have "eslot (k mod 4) = eslot k" by (simp add: eslot_def)
  moreover have "edescs (sample_waiting c n ps) = map (\<lambda>k. \<lparr>d_next = 0, d_buff = word_of_nat (0x1000 + eslot k),
      d_cntl = packet_cntl 0x410, d_sts = if k < n then 0x80000000 OR word_of_nat 4 else 0\<rparr>) [0..<4]"
    by (simp add: sample_waiting_def)
  ultimately show ?thesis by (simp only: nth_map_upt diff_zero add_0)
qed

lemma sample_waiting_rings:
  assumes "n \<le> 4"
  shows "rings c 0 (sample_waiting c n ps)"
proof -
  have z: "bytes_at (replicate 0x2280 0) (eslot k) [0, 0, 0, 0]" for k
    using eslot_le [of k] by (simp add: bytes_at_def)
  have four: "(4 :: nat) dvd Suc (Suc (Suc (Suc 0)))" by presburger
  have le: "length (edescs (sample_waiting c n ps)) = 4" by (simp add: sample_waiting_def)
  have "ring_out 0 (sample_waiting c n ps)"
    unfolding ring_out_def arrived_def sample_waiting_edesc sample_waiting_fields desc.select_convs le using assms z four by simp
  moreover have "ring_in c (sample_waiting c n ps)"
    using sample_rings [of ps] by (auto simp: rings_def ring_in_def sample_waiting_fields sample_dma_def sts_done_def)
  moreover have "\<not> bit (1 :: 32 word) 2" by (simp add: bit_1_iff)
  ultimately show ?thesis by (simp add: rings_def window_ok_def sample_waiting_fields)
qed

lemma sample_busy_open: "n \<le> 4 \<Longrightarrow> port_open c 0 (sample_busy c n ps)"
proof -
  assume n: "n \<le> 4"
  have "hsdp_next \<lparr>axi_base = 0x1000, offset = 0, buffer_size = 0x100, packet_size = 0x40, last_idx = int (length c mod 4) - 1\<rparr> =
      length c mod 4"
    using mod4_le [of "length c"] by (simp add: hsdp_next_def)
  then have "host_ok 0x1000 c 0 (sample_hsdp\<lparr>idesc := (idesc sample_hsdp)\<lparr>last_idx := int (length c mod 4) - 1\<rparr>\<rparr>)"
    by (simp add: host_ok_def laid_out_def sample_hsdp_def) (simp add: hsdp_next_def)
  then show ?thesis
    using sample_waiting_rings [OF n, of c ps]
    by (simp add: port_open_def sample_busy_def sample_port_def sample_lib_def sample_waiting_fields)
qed


theorem dpc_oversized_packet_witness:
  "\<exists>m x'. acts (\<lambda>s. s) [Idpc 0 1031 (replicate 4124 7), Edpc 0] (sample_busy [[], [], []] 1 []) =
    Inr ([Sent (replicate 4124 7), Received [7, 7, 7, 7] m], x')"
proof -
  let ?x = "sample_busy [[], [], []] 1 []"
  have m: "mem ?x = sample_waiting [[], [], []] 1 []" by (simp add: sample_busy_def)
  have "port_open [[], [], []] 0 ?x" by (rule sample_busy_open) simp
  moreover have q: "produced (mem ?x) ! 0 = [0, 0, 0, 0]" unfolding m sample_waiting_fields by simp
  moreover have "0 < length (produced (mem ?x))" unfolding m sample_waiting_fields by simp
  moreover have "take 4 (drop 0x410 (replicate 4124 7)) = [7, 7, 7, 7 :: byte]"
  proof -
    have "take 4 (drop 0x410 (replicate 4124 7)) = replicate 4 (7 :: byte)" by simp
    then show ?thesis by (simp add: numeral_eq_Suc)
  qed
  moreover have "length [[], [], [] :: byte list] < length (consumed (mem ?x)) + 4" unfolding m sample_waiting_fields by simp
  ultimately show ?thesis
    using dpc_oversized_packet [of "[[], [], []]" 0 ?x "replicate 4124 7" 0 0] by simp
qed

section \<open>A slot that is given back too early\<close>

lemma ref_tick_resting:
  assumes "\<not> bit (i_cntl s) 2" "d_sts (idescs s ! (length (consumed s) mod length (idescs s))) \<noteq> 0"
  shows "ref_tick s = ref_deliver s"
  using assms by (simp add: ref_tick_def ref_reset_def ref_take_def Let_def)

lemma sts_nonzero: "(0x80000000 OR v :: 32 word) \<noteq> 0" "sts_done v \<Longrightarrow> v \<noteq> 0"
  using done_status(1) [of v] done_status(2) by auto

text \<open>C33. \<open>hsdp_poll_fast_packet\<close> gives the descriptor back before its caller has copied the packet. When
  all four descriptors are done and the engine has a further packet waiting, it uses the slot at
  once: the client receives the new packet in place of the oldest one, which is lost.\<close>

theorem dpc_overrun:
  assumes "port_open sent r x" "length (consumed (mem x)) = length sent" "length (produced (mem x)) = r + 4"
    and "bit (e_cntl (mem x)) 0" "env (mem x) = [p]" "length p = length (produced (mem x) ! r)"
  shows "\<exists>x'. act ref_tick (Edpc fl) x = Inr (Received p (r + 5), x')"
proof -
  define s where "s = mem x"
  let ?j = "r mod 4" and ?q = "produced s ! r"
  have run: "rings sent r s" "host_ok (win_phys s) sent r (hsdp x)" using assms(1) by (simp_all add: port_open_def s_def)
  have nx: "hsdp_next (edesc (hsdp x)) = ?j" using run(2) by (simp add: host_ok_def)
  have l: "length (edescs s) = 4" "length (idescs s) = 4" using run(1) by (simp_all add: rings_def ring_out_def ring_in_def)
  have lj: "?j < length (edescs s)" using l by simp
  have q: "d_sts (edescs s ! ?j) = 0x80000000 OR word_of_nat (length ?q)" "?q \<noteq> []" "4 dvd length ?q" "length ?q \<le> 0x410"
    using run(1) assms(3) by (simp_all add: rings_def ring_out_def arrived_def s_def)
  have d: "d_buff (edescs s ! ?j) = word_of_nat (win_phys s + eslot r)" "d_cntl (edescs s ! ?j) = packet_cntl 0x410"
    using run(1) by (simp_all add: rings_def ring_out_def)
  have b: "unat (word_of_nat (win_phys s + eslot r) :: 32 word) = win_phys s + eslot r"
    using run(1) eslot_le [of r] by (simp add: rings_def window_ok_def unat_word_of_nat_32 del: of_nat_add)
  have m: "length (produced s) mod 4 = ?j" using assms(3) by (simp add: s_def)
  have rest: "\<not> bit (i_cntl s) 2" "d_sts (idescs s ! (length (consumed s) mod length (idescs s))) \<noteq> 0"
    using run(1) assms(2) by (auto simp: rings_def ring_in_def s_def dest: sts_nonzero(2))
  have t: "ref_tick s = s"
    unfolding ref_tick_resting [OF rest]
    using assms(5) q(1) sts_nonzero(1) m l by (simp add: ref_deliver_def can_deliver_def s_def)
  define s5 where "s5 = s\<lparr>edescs := (edescs s)[?j := (edescs s ! ?j)\<lparr>d_sts := 0\<rparr>]\<rparr>"
  have rest5: "ref_tick s5 = ref_deliver s5" by (rule ref_tick_resting) (use rest in \<open>simp_all add: s5_def\<close>)
  have lw: "0x2280 \<le> length (window s)" using run(1) by (simp add: rings_def window_ok_def)
  obtain w where w: "write_at (window s) (eslot r) p = Inr w"
    using lw eslot_le [of r] assms(6) q(4) by (simp add: write_at_inside s_def)
  define s6 where "s6 = s5\<lparr>window := w, edescs := (edescs s5)[?j := (edescs s5 ! ?j)\<lparr>d_sts := 0x80000000 OR word_of_nat (length p)\<rparr>],
      produced := produced s @ [p], env := []\<rparr>"
  have p: "p \<noteq> []" "4 dvd length p" "length p \<le> 0x410" using assms(6) q by (auto simp: s_def)
  have d5: "edescs s5 ! ?j = (edescs s ! ?j)\<lparr>d_sts := 0\<rparr>" "length (edescs s5) = 4" "produced s5 = produced s" "e_cntl s5 = e_cntl s"
    "env s5 = [p]" "window s5 = window s" "win_phys s5 = win_phys s"
    using lj l assms(5) by (simp_all add: s5_def s_def)
  have "edescs s5 \<noteq> []" using d5(2) by auto
  then have "can_deliver p s5"
    using assms(4) [folded s_def] p d(2) packet_cntl_size [of "0x410"]
    unfolding can_deliver_def Let_def d5(2-4) m d5(1) by (auto simp: d(2) s_def [symmetric] dest: arg_cong [of _ _ length])
  moreover have "deliver p s5 = s6\<lparr>env := [p]\<rparr>"
    unfolding deliver_def Let_def d5(2,3,6,7) m d5(1)
    using w by (simp add: d(1) b s6_def d5(1) del: of_nat_add) (simp add: s5_def assms(5) s_def)
  ultimately have t5: "ref_tick s5 = s6"
    unfolding rest5 ref_deliver_def d5(5) by (simp add: s6_def)
  have r1: "read_edesc ref_tick ?j s = Inr (edescs s ! ?j, s)" using lj by (simp add: read_edesc_def t)
  let ?v = "word_of_nat (win_phys s + eslot r) :: 32 word"
  have "(edescs s ! ?j)\<lparr>d_buff := ?v\<rparr> = edescs s ! ?j" using d(1) by (cases "edescs s ! ?j") simp
  then have w3: "write_edesc ref_tick ?j (\<lambda>d. d\<lparr>d_buff := ?v\<rparr>) s = Inr s" using lj by (simp add: write_edesc_def t)
  have w5: "write_edesc ref_tick ?j (\<lambda>d. d\<lparr>d_sts := 0\<rparr>) s = Inr s5" using lj by (simp add: write_edesc_def t s5_def)
  note st = status_of_size [OF q(4)] done_status(1) [of "word_of_nat (length ?q)"]
  have bf: "int 0x1240 + (int (win_phys s + eslot r) - int (win_phys s + 0x1240)) = int (eslot r)" by simp
  define s7 where "s7 = s6\<lparr>e_tail := axi_addr (edesc (hsdp x)) ?j\<rparr>"
  define x7 where "x7 = x\<lparr>hsdp := (hsdp x)\<lparr>epkts := (epkts (hsdp x))\<lparr>last_idx := int ?j\<rparr>, edesc := (edesc (hsdp x))\<lparr>last_idx := int ?j\<rparr>\<rparr>, mem := s7\<rparr>"
  have "hsdp_poll_fast_packet ref_tick (hsdp x) s = Inr (\<lparr>p_buf = Some (int (eslot r)), p_words = length ?q div 4,
      p_slot = Some (buffer_at (epkts (hsdp x)) ?j)\<rparr>, hsdp x7, s7)"
    unfolding hsdp_poll_fast_packet_def Let_def nx r1 and_then_simps prod.case q(1) if_not_P [OF st(1)] if_P [OF st(3)] st(2)
      host_ok_addresses(3-5) [OF run(2)] d(1) b bf w3 w5 t5 s7_def x7_def by simp
  moreover obtain k where k: "length ?q = 4 * k" using q(3) by (rule dvdE)
  moreover have k0: "0 < k" "k \<le> 260" using k q(2,4) by (cases "k = 0"; simp)+
  ultimately have e: "edpc ref_tick x fl = Inr (word_of_nat k, Some (int (eslot r)), x7, None)"
    by (simp add: edpc_def hsdp_receive_fast_packet_def s_def [symmetric] x7_def)
  have u: "unat (word_of_nat k :: 64 word) * 4 = length p" using k0 k assms(6) by (simp add: unat_word_of_nat_64 s_def)
  have "ref_tick s7 = ref_deliver s7"
    by (rule ref_tick_resting) (use rest in \<open>simp_all add: s7_def s6_def s5_def\<close>)
  then have t7: "ref_tick s7 = s7" by (simp add: ref_deliver_def s7_def s6_def)
  have "read_range w (eslot r) (length p) = Inr p" using read_range_bytes [OF bytes_at_written [OF w p(1)]] .
  then have "copy_out ref_tick x7 (int (eslot r)) (length p) = Inr (p, x7)"
    by (simp add: copy_out_def read_window_def x7_def t7) (simp add: s7_def s6_def)
  then have "act ref_tick (Edpc fl) x = Inr (Received p (length (produced s7)), x7)"
    by (simp add: act_def e u) (simp add: x7_def)
  then show ?thesis using assms(3) by (simp add: s7_def s6_def s_def)
qed

theorem dpc_overrun_witness:
  "\<exists>x'. act ref_tick (Edpc 0) (sample_busy [] 4 [[1, 2, 3, 4]]) = Inr (Received [1, 2, 3, 4] 5, x')"
proof -
  let ?x = "sample_busy [] 4 [[1, 2, 3, 4]]"
  have m: "mem ?x = sample_waiting [] 4 [[1, 2, 3, 4]]" by (simp add: sample_busy_def)
  have "port_open [] 0 ?x" by (rule sample_busy_open) simp
  moreover have "bit (e_cntl (mem ?x)) 0" unfolding m sample_waiting_fields by simp
  moreover have "produced (mem ?x) ! 0 = [0, 0, 0, 0]" unfolding m sample_waiting_fields by simp
  moreover have "length (consumed (mem ?x)) = length ([] :: byte list list)" "length (produced (mem ?x)) = 0 + 4"
    "env (mem ?x) = [[1, 2, 3, 4]]" unfolding m sample_waiting_fields by simp_all
  ultimately show ?thesis using dpc_overrun [of "[]" 0 ?x "[1, 2, 3, 4]" 0] by simp
qed

section \<open>Addresses nobody set\<close>

text \<open>C35. The default addresses of \<open>hsdp_lib.c\<close> are never used. Without the options \<open>--dma_addr\<close> and
  \<open>--buf_addr\<close> the first connection overwrites them with the addresses of \<open>main\<close>, which were never set,
  and maps whatever the stack held: the DMA registers and the packet memory lie at indeterminate
  physical addresses.\<close>

theorem dpc_defaults_unused:
  assumes "dpc_parse_args argv (dpc_options0 dma_junk buf_junk) = Inr o1"
    and "bytes_of ''--dma_addr'' \<notin> set argv" "bytes_of ''--buf_addr'' \<notin> set argv"
    and "dpc_open_port tick os shown (xvc_dpc0 o1 s) = Inr (rv, x, e)"
  shows "map physical (mmap_buffers (lib x)) = [dma_junk, buf_junk]"
proof -
  have "mmap_buffers (lib (xvc_dpc0 o1 s)) = []" by (simp add: xvc_dpc0_def hsdp_lib0_def)
  from open_port_addresses [OF assms(4) this]
  have "map physical (mmap_buffers (lib x)) = [r_addr (q_dma o1), r_addr (q_buf o1)]"
    by (simp add: dma_config_def buf_config_def xvc_dpc0_def)
  then show ?thesis
    using dpc_parse_args_addrs [OF assms(1)] assms(2,3) by (simp add: dpc_options0_def)
qed

lemma sample_defaults:
  "\<exists>x. dpc_open_port prompt_tick sample_os sample_shown (xvc_dpc0 (dpc_options0 7 0x1000) (sample_dma [])) = Inr (0, x, None)"
proof -
  have c: "port_closed (xvc_dpc0 (dpc_options0 7 0x1000) (sample_dma []))"
    by (simp add: port_closed_def xvc_dpc0_def hsdp_lib0_def)
  have m: "memory_shown sample_shown (xvc_dpc0 (dpc_options0 7 0x1000) (sample_dma []))"
    by (rule sample_memory) (simp add: buf_config_def xvc_dpc0_def dpc_options0_def)
  show ?thesis using open_port_returns [OF prompt.dma_engine_axioms prompt_answers c m sample_grants] by blast
qed

theorem dpc_defaults_unused_witness:
  "\<exists>x. dpc_open_port prompt_tick sample_os sample_shown (xvc_dpc0 (dpc_options0 7 0x1000) (sample_dma [])) = Inr (0, x, None) \<and>
    map physical (mmap_buffers (lib x)) = [7, 0x1000]"
proof -
  obtain x where
    x: "dpc_open_port prompt_tick sample_os sample_shown (xvc_dpc0 (dpc_options0 7 0x1000) (sample_dma [])) = Inr (0, x, None)"
    using sample_defaults ..
  then have "map physical (mmap_buffers (lib x)) = [7, 0x1000]" by (rule dpc_defaults_unused [where argv = "[]", rotated 3]) simp_all
  with x show ?thesis by (intro exI conjI)
qed

end
