(* ===== verification/Spec2Isabelle.thy ===== *)
theory Spec2Isabelle
  imports Mem_Serve Jtag_Clients Jtag_Config Jtag_Verify Dpc_Serve Dpc_Faults
begin

text \<open>
  A verification development for the Xilinx Virtual Cable servers.

  \<^bold>\<open>The program.\<close> Four programs let a debugger reach a device over TCP, and one tests a driver.
  \<^item> \<open>mem/versal/src\<close>: \<open>xvcserver.c\<close> is an engine for XVC 1.1 (\<open>getinfo:\<close>, \<open>capabilities:\<close>,
    \<open>configure:\<close>, \<open>error:\<close>, \<open>lock:\<close>, \<open>shift:\<close>, \<open>mrd:\<close>, \<open>mwr:\<close> and others) which calls a table
    of callbacks; \<open>xvc_mem.c\<close> is \<open>main\<close> and the callbacks that read and write a memory-mapped debug hub.
  \<^item> \<open>dpc/src\<close>: a second version of the engine (\<open>xvcserver.c\<close>) with the packet commands \<open>idpc:\<close> and
    \<open>edpc:\<close>; \<open>xvc_dpc.c\<close> and \<open>hsdp_lib.c\<close> map an AXI DMA engine, \<open>hsdp.c\<close> runs its two rings of descriptors.
  \<^item> \<open>jtag/zynqMP/src\<close>: a Linux driver (\<open>driver/xvc_driver.c\<close>, \<open>xvc_driver_base.c\<close>) that shifts bits through a
    debug bridge, a server for XVC 1.0 (\<open>user/xvcServer.c\<close>) on its \<open>ioctl\<close>, and a test program for it.
  \<^item> \<open>jtag/zynq7000/XAPP1251/src/xvcServer.c\<close>: the same server on a mapping of the bridge's registers.

  \<^bold>\<open>Conventions.\<close> \<open>Xvc_Prelude\<close>: an allocated block is a list of bytes and a pointer into it an offset;
  every operation that can go wrong in C returns \<open>fault + 'a\<close>, so that \<open>Inr\<close> is a statement of memory
  safety. Machine integers are words, or numbers with the wrap-around written out (\<^const>\<open>u32\<close>,
  \<^const>\<open>size_of_words\<close>). \<open>Sock\<close> is a connected socket: the segments that will arrive and the sends that
  will succeed. The kernel's answers are data; hardware is a function argument, what it promises is a locale.

  \<^bold>\<open>mem/versal.\<close> Each theory models the functions its first text names.
  \<^item> \<open>Leb_Codec\<close> (\<^const>\<open>get_uleb128\<close>, \<^const>\<open>get_uint_le\<close>), \<open>Reply_Buffer\<close> (\<open>reply_*\<close>), \<open>Xvc_Config\<close> (the
    parser of \<open>configure:\<close>): round trips, bounds, and the equality with a pure parser.
  \<^item> \<open>Mem_Server\<close>: a definition per command, \<^const>\<open>dispatch\<close>, \<^const>\<open>command_loop\<close>, which ends. \<open>Mem_Session\<close>: the rest of
    \<open>read_packet\<close>. \<open>Mem_Start\<close>: \<open>xvcserver_start\<close>, with a ledger of descriptors.
  \<^item> \<open>Mem_Contract\<close>: the locale \<open>xvc_callbacks\<close>, the contract of \<open>XvcServerHandlers\<close>, and what the engine keeps
    under it. \<open>Mem_Hub\<close>: the callbacks of \<open>xvc_mem.c\<close>. \<open>Mem_Main\<close>: their interpretation of the locale, and \<open>main\<close>.
  \<^item> \<open>Mem_Spec\<close>: requests, their bytes, and an abstract server \<open>exec\<close>; one iteration of the loop refines it.
    \<open>Mem_Stream\<close>: so does a whole connection, in whatever segments it arrives. \<open>Mem_Serve\<close>: \<open>main\<close> serves its
    clients in turn, as the abstract program does on one hub.

  \<^bold>\<open>jtag.\<close>
  \<^item> \<open>Jtag_Bridge\<close>: the chain, clocked bit by bit (\<^const>\<open>clock_bits\<close>), and the locale \<open>debug_bridge\<close>, with a reference
    bridge of any latency. \<open>Jtag_Driver\<close>: \<open>xvc_driver.c\<close>; its pieces make up the shift.
  \<^item> \<open>Jtag_Base\<close>: \<open>xvc_driver_base.c\<close>, with a ledger of what the module asked of the kernel.
    \<open>Jtag_Config\<close>: the same module with the bridges of \<open>xvc_user_config_example.h\<close>, one character file each.
  \<^item> \<open>Jtag_Session\<close>: \<open>handle_data\<close> for any way to shift; the locale \<open>jtag_shifter\<close> is what it needs, and its
    lemma \<open>conversation\<close> a whole connection. \<open>Jtag_User\<close> provides it by the \<open>ioctl\<close>, \<open>Jtag_Mmap\<close> by the mapped
    registers (\<open>XAPP1251\<close>, and \<open>zynqMP\<close> without \<open>USE_IOCTL\<close>).
  \<^item> \<open>Jtag_Main\<close>: the options, the start and the \<open>select\<close> loop of both servers, with the set of open descriptors;
    \<open>Jtag_Clients\<close> joins it with the conversation. \<open>Jtag_Verify\<close>: the test program, on the model of the driver.

  \<^bold>\<open>dpc.\<close>
  \<^item> \<open>Dpc_Ring\<close>: \<open>hsdp.c\<close>, one access of memory at a time; before each of them the engine acts (the argument
    \<open>tick\<close>). \<open>Dpc_Fifo\<close>: the relation \<^const>\<open>hw_step\<close> of what the engine may do, the invariant of the rings and the
    locale \<open>dma_engine\<close>, in which sending and receiving are proved to be queue operations under every
    interleaving. \<open>Dpc_Setup\<close>: \<open>hsdp_setup_dma\<close> empties both queues.
  \<^item> \<open>Dpc_Lib\<close>: \<open>hsdp_lib.c\<close> and the callbacks of \<open>xvc_dpc.c\<close>. \<open>Dpc_Channel\<close>: sequences of calls, and a reference
    engine that interprets \<open>dma_engine\<close>. \<open>Dpc_Props\<close>, \<open>Dpc_Faults\<close>: what the channel guarantees and where it fails.
  \<^item> \<open>Dpc_Server\<close>, \<open>Dpc_Session\<close>: the second engine and \<open>main\<close>; what it shares with the first, it shares here.
    \<open>Dpc_Commands\<close>, \<open>Dpc_Stream\<close>: batches of packet commands refine the abstract packet server; \<open>Dpc_Protocol\<close>,
    \<open>Dpc_Wire\<close>: so does a whole connection, with all the commands, in whatever segments it arrives.
    \<open>Dpc_Outcome\<close>: the locale \<open>packet_callbacks\<close>, and how a run of \<open>main\<close> can end. \<open>Dpc_Serve\<close>: \<open>main\<close> serves its
    clients in turn, when the engine answers.

  \<^bold>\<open>Bounds.\<close> No definition has fuel: the loops are recursive with a measure, and those that wait for the
  hardware without a bound (\<^const>\<open>await_reset\<close>, \<^const>\<open>await_egress\<close>) are partial functions whose \<open>None\<close> is the fault
  \<open>Hang\<close>; they are shown to end on an engine that answers. The polls of the driver (100) and of \<open>idpc\<close> (1000)
  are the source's. A server runs as long as its data last: a socket ends, \<open>accept\<close> fails, and after the last
  answer of \<open>select\<close> the process waits.

  \<^bold>\<open>Hypotheses.\<close> \<open>debug_bridge\<close>, \<open>fast_bridge\<close>: the registers of the bridge as its documentation has them.
  \<open>dma_engine\<close>: the engine works on descriptors that are not done, in order; it need not wait for the tail register,
  so the model allows more than the hardware does. \<^const>\<open>memory_shown\<close>: the mapping is of the memory asked for.
  Each is met by a reference model, and each property that has one has a witness on it.

  \<^bold>\<open>Not modelled.\<close> Printing: usage, banners, log messages, \<open>hexdump\<close>, \<open>dumphex\<close>, \<open>hsdp_dump_*\<close>, and the times.
  Code that the builds leave out: the Windows branches, \<open>LOG_PACKET\<close>, \<open>VERBOSE\<close>, \<open>SKIP_MSB_ADDR\<close>, 64-bit descriptor
  addresses. Prototypes without a body (\<open>hsdp_flush_normal\<close>
  and others) and macros without a use (\<open>MOP_*\<close>). \<open>realloc\<close>, \<open>strdup\<close> and \<open>malloc\<close> of the receive buffer are taken to
  succeed. Memory ordering: an access happens when the program makes it, and \<open>dsb\<close> is no operation. Device
  trees, build files and Tcl scripts hold no code of the servers.
\<close>

end
